(* ===== verification/Prelude.thy ===== *)
theory Prelude
  imports Main "HOL-Library.Word"
begin

unbundle bit_operations_syntax

text \<open>
  Shared vocabulary of the development: the fixed-width integer types of
  \<^verbatim>\<open>include/zephyr/types.h\<close>, the error numbers the kernel returns, the kernel
  configuration (the Kconfig defaults, which are the values the comments of the
  sources record), and the generic facts on words and lists that the component
  theories use.
\<close>

section \<open>Integer types\<close>

type_synonym u8 = "8 word"
type_synonym u16 = "16 word"
type_synonym u32 = "32 word"
type_synonym u64 = "64 word"

text \<open>
  Conversion of an integer to a signed 8-bit or 32-bit object, as an assignment to an
  \<^verbatim>\<open>s8_t\<close> or \<^verbatim>\<open>s32_t\<close> performs it.
\<close>

definition to_s8 :: "int \<Rightarrow> int" where
  "to_s8 i = sint (word_of_int i :: u8)"

definition to_s32 :: "int \<Rightarrow> int" where
  "to_s32 i = sint (word_of_int i :: u32)"

lemma to_s8_id: "- 128 \<le> i \<Longrightarrow> i < 128 \<Longrightarrow> to_s8 i = i"
  by (simp add: to_s8_def signed_take_bit_int_eq_self sint_sbintrunc')

lemma to_s32_id: "- (2 ^ 31) \<le> i \<Longrightarrow> i < 2 ^ 31 \<Longrightarrow> to_s32 i = i"
  by (simp add: to_s32_def signed_take_bit_int_eq_self sint_sbintrunc')

lemma sint_small: "uint w < 2 ^ (LENGTH('a) - 1) \<Longrightarrow> sint w = uint w" for w :: "'a::len word"
  using signed_take_bit_int_eq_self [of "LENGTH('a) - 1" "uint w"] uint_ge_0 [of w]
  by (simp add: sint_uint)

lemma unat_bound: "unat w < 2 ^ LENGTH('a)" for w :: "'a::len word"
  by (rule unsigned_less)

lemma unat_add_exact: "unat a + unat b < 2 ^ LENGTH('a) \<Longrightarrow> unat (a + b) = unat a + unat b"
  for a b :: "'a::len word"
  by (simp add: unat_word_ariths)

lemma unat_Suc_exact: "unat a < unat b \<Longrightarrow> unat (a + 1) = unat a + 1" for a b :: "'a::len word"
proof -
  assume "unat a < unat b"
  with unat_bound [of b] have "unat a + 1 < 2 ^ LENGTH('a)" by linarith
  with unat_add_exact [of a 1] show ?thesis by simp
qed

lemma unat_minus_1: "unat (- 1 :: 'a::len word) = 2 ^ LENGTH('a) - 1"
  by (simp add: unsigned_minus_1_eq_mask mask_eq_exp_minus_1)

lemma unat_Suc_not_max: "a \<noteq> - 1 \<Longrightarrow> unat (a + 1) = unat a + 1" for a :: "'a::len word"
proof -
  assume "a \<noteq> - 1"
  then have "a < - 1" by (simp add: less_le)
  then show ?thesis by (intro unat_Suc_exact) (simp add: word_less_nat_alt)
qed

lemma unat_pred_exact: "0 < a \<Longrightarrow> unat (a - 1) = unat a - 1" for a :: "'a::len word"
  by (metis unat_minus_one word_gt_0)

section \<open>Error numbers (\<^verbatim>\<open>lib/libc/minimal/include/errno.h\<close>)\<close>

definition EINTR :: int where "EINTR = 4"
definition EAGAIN :: int where "EAGAIN = 11"
definition ENOMEM :: int where "ENOMEM = 12"
definition EBUSY :: int where "EBUSY = 16"
definition EINVAL :: int where "EINVAL = 22"
definition EMSGSIZE :: int where "EMSGSIZE = 36"
definition ENOMSG :: int where "ENOMSG = 80"

lemmas errno_defs = EINTR_def EAGAIN_def ENOMEM_def EBUSY_def EINVAL_def EMSGSIZE_def ENOMSG_def

section \<open>Collections\<close>

named_theorems kdefs \<open>definitions of the small kernel helpers that proofs unfold together\<close>
named_theorems kframe \<open>what an operation leaves unchanged\<close>

section \<open>Bits of words\<close>

lemma and_exp_nonzero_iff [simp]:
  fixes x :: "'a::len word"
  shows "x AND 2 ^ n \<noteq> 0 \<longleftrightarrow> bit x n"
  by (simp add: and_exp_eq_0_iff_not_bit)

lemma bit_word_eqI:
  fixes x y :: "'a::len word"
  assumes "\<And>n. n < LENGTH('a) \<Longrightarrow> bit x n = bit y n"
  shows "x = y"
  using assms by (auto intro: bit_word_eqI)

section \<open>Lists\<close>

lemma remove1_not_member [simp]: "x \<notin> set xs \<Longrightarrow> remove1 x xs = xs"
  by (rule remove1_idem)

lemma remove1_split:
  assumes "distinct (xs @ x # ys)"
  shows "remove1 x (xs @ x # ys) = xs @ ys"
  using assms by (simp add: remove1_append)

lemma set_remove1_distinct: "distinct xs \<Longrightarrow> set (remove1 x xs) = set xs - {x}"
  by simp

lemma takeWhile_eq_all: "(\<And>x. x \<in> set xs \<Longrightarrow> P x) \<Longrightarrow> takeWhile P xs = xs"
  by (simp add: takeWhile_eq_all_conv)

lemma dropWhile_eq_self: "(\<And>x. x \<in> set xs \<Longrightarrow> \<not> P x) \<Longrightarrow> dropWhile P xs = xs"
  by (cases xs) auto

section \<open>Insertion by priority\<close>

text \<open>
  Insertion of an element behind every element of its key or of a smaller one: the
  order in which threads of one priority are served is the order in which they came.
\<close>

definition prio_insert :: "('a \<Rightarrow> int) \<Rightarrow> 'a \<Rightarrow> 'a list \<Rightarrow> 'a list" where
  "prio_insert f x xs = takeWhile (\<lambda>y. f y \<le> f x) xs @ x # dropWhile (\<lambda>y. f y \<le> f x) xs"

lemma prio_insert_Nil [simp]: "prio_insert f x [] = [x]"
  by (simp add: prio_insert_def)

lemma prio_insert_Cons:
  "prio_insert f x (y # ys) = (if f x < f y then x # y # ys else y # prio_insert f x ys)"
  by (simp add: prio_insert_def)

lemma set_prio_insert [simp]: "set (prio_insert f x xs) = insert x (set xs)"
  by (induction xs) (auto simp: prio_insert_Cons)

lemma distinct_prio_insert [simp]: "distinct (prio_insert f x xs) \<longleftrightarrow> x \<notin> set xs \<and> distinct xs"
  by (induction xs) (auto simp: prio_insert_Cons)

lemma length_prio_insert [simp]: "length (prio_insert f x xs) = Suc (length xs)"
  by (induction xs) (auto simp: prio_insert_Cons)

lemma sorted_prio_insert:
  "sorted_wrt (\<lambda>a b. f a \<le> f b) xs \<Longrightarrow> sorted_wrt (\<lambda>a b. f a \<le> f b) (prio_insert f x xs)"
  by (induction xs) (auto simp: prio_insert_Cons)

lemma prio_insert_cong:
  "(\<And>y. y \<in> insert x (set xs) \<Longrightarrow> f y = g y) \<Longrightarrow> prio_insert f x xs = prio_insert g x xs"
  by (induction xs) (auto simp: prio_insert_Cons)

lemma prio_insert_append:
  assumes "\<And>y. y \<in> set xs \<Longrightarrow> f y \<le> f x" and "\<And>y. y \<in> set ys \<Longrightarrow> f x < f y"
  shows "prio_insert f x (xs @ ys) = xs @ x # ys"
  using assms(1)
proof (induction xs)
  case Nil
  then show ?case using assms(2) by (cases ys) (auto simp: prio_insert_Cons)
next
  case (Cons a xs)
  then have "\<not> f x < f a" by (simp add: leD)
  with Cons show ?case by (simp add: prio_insert_Cons)
qed

lemma prio_insert_split: "\<exists>us vs. xs = us @ vs \<and> prio_insert f x xs = us @ x # vs"
  by (metis prio_insert_def takeWhile_dropWhile_id)

lemma remove1_prio_insert: "x \<notin> set xs \<Longrightarrow> remove1 x (prio_insert f x xs) = xs"
  by (induction xs) (auto simp: prio_insert_Cons)

lemma filter_prio_insert_other:
  "\<not> P x \<Longrightarrow> filter P (prio_insert f x xs) = filter P xs"
  by (induction xs) (auto simp: prio_insert_Cons)

end
