(* ===== verification/Sys_Dlist.thy ===== *)
theory Sys_Dlist
  imports Prelude
begin

text \<open>
  The doubly-linked list of \<^verbatim>\<open>include/misc/dlist.h\<close>, at the level of its pointers.
  A \<^verbatim>\<open>struct _dnode\<close> is two words; the list head (\<^verbatim>\<open>sys_dlist_t\<close>) and the nodes
  (\<^verbatim>\<open>sys_dnode_t\<close>) have the same layout, with \<^verbatim>\<open>head\<close>/\<^verbatim>\<open>next\<close> and
  \<^verbatim>\<open>tail\<close>/\<^verbatim>\<open>prev\<close> sharing storage, so one pair of maps (\<open>nxt\<close>, \<open>prv\<close>) from
  addresses to addresses models them all. The functions that may return
  \<^verbatim>\<open>NULL\<close> return an option.

  \<open>dlist h l xs\<close> says that the heap \<open>h\<close> holds at \<open>l\<close> a list whose nodes are
  \<open>xs\<close>; \<open>dlists h L D\<close> says so for a family of lists that share no node. The
  operations are proved to implement the list operations; the kernel theories use
  the family \<open>D\<close> itself as the state of the ready and wait queues.
\<close>

section \<open>Nodes and operations\<close>

record 'a dheap =
  nxt :: "'a \<Rightarrow> 'a"
  prv :: "'a \<Rightarrow> 'a"

abbreviation set_nxt :: "'a \<Rightarrow> 'a \<Rightarrow> 'a dheap \<Rightarrow> 'a dheap" where
  "set_nxt a v h \<equiv> h\<lparr>nxt := (nxt h)(a := v)\<rparr>"

abbreviation set_prv :: "'a \<Rightarrow> 'a \<Rightarrow> 'a dheap \<Rightarrow> 'a dheap" where
  "set_prv a v h \<equiv> h\<lparr>prv := (prv h)(a := v)\<rparr>"

definition sys_dlist_init :: "'a \<Rightarrow> 'a dheap \<Rightarrow> 'a dheap" where
  "sys_dlist_init list h = set_prv list list (set_nxt list list h)"

definition sys_dlist_is_head :: "'a dheap \<Rightarrow> 'a \<Rightarrow> 'a \<Rightarrow> bool" where
  "sys_dlist_is_head h list node \<longleftrightarrow> nxt h list = node"

definition sys_dlist_is_tail :: "'a dheap \<Rightarrow> 'a \<Rightarrow> 'a \<Rightarrow> bool" where
  "sys_dlist_is_tail h list node \<longleftrightarrow> prv h list = node"

definition sys_dlist_is_empty :: "'a dheap \<Rightarrow> 'a \<Rightarrow> bool" where
  "sys_dlist_is_empty h list \<longleftrightarrow> nxt h list = list"

definition sys_dlist_has_multiple_nodes :: "'a dheap \<Rightarrow> 'a \<Rightarrow> bool" where
  "sys_dlist_has_multiple_nodes h list \<longleftrightarrow> nxt h list \<noteq> prv h list"

definition sys_dlist_peek_head :: "'a dheap \<Rightarrow> 'a \<Rightarrow> 'a option" where
  "sys_dlist_peek_head h list = (if sys_dlist_is_empty h list then None else Some (nxt h list))"

definition sys_dlist_peek_head_not_empty :: "'a dheap \<Rightarrow> 'a \<Rightarrow> 'a" where
  "sys_dlist_peek_head_not_empty h list = nxt h list"

definition sys_dlist_peek_next_no_check :: "'a dheap \<Rightarrow> 'a \<Rightarrow> 'a \<Rightarrow> 'a option" where
  "sys_dlist_peek_next_no_check h list node = (if node = prv h list then None else Some (nxt h node))"

definition sys_dlist_peek_next :: "'a dheap \<Rightarrow> 'a \<Rightarrow> 'a option \<Rightarrow> 'a option" where
  "sys_dlist_peek_next h list node =
     (case node of Some n \<Rightarrow> sys_dlist_peek_next_no_check h list n | None \<Rightarrow> None)"

definition sys_dlist_peek_tail :: "'a dheap \<Rightarrow> 'a \<Rightarrow> 'a option" where
  "sys_dlist_peek_tail h list = (if sys_dlist_is_empty h list then None else Some (prv h list))"

definition sys_dlist_append :: "'a \<Rightarrow> 'a \<Rightarrow> 'a dheap \<Rightarrow> 'a dheap" where
  "sys_dlist_append list node h =
     (let h1 = set_nxt node list h;
          h2 = set_prv node (prv h1 list) h1;
          h3 = set_nxt (prv h2 list) node h2
      in set_prv list node h3)"

definition sys_dlist_prepend :: "'a \<Rightarrow> 'a \<Rightarrow> 'a dheap \<Rightarrow> 'a dheap" where
  "sys_dlist_prepend list node h =
     (let h1 = set_nxt node (nxt h list) h;
          h2 = set_prv node list h1;
          h3 = set_prv (nxt h2 list) node h2
      in set_nxt list node h3)"

definition sys_dlist_insert_after :: "'a \<Rightarrow> 'a option \<Rightarrow> 'a \<Rightarrow> 'a dheap \<Rightarrow> 'a dheap" where
  "sys_dlist_insert_after list insert_point node h =
     (case insert_point of
        None \<Rightarrow> sys_dlist_prepend list node h
      | Some ip \<Rightarrow>
          (let h1 = set_nxt node (nxt h ip) h;
               h2 = set_prv node ip h1;
               h3 = set_prv (nxt h2 ip) node h2
           in set_nxt ip node h3))"

definition sys_dlist_insert_before :: "'a \<Rightarrow> 'a option \<Rightarrow> 'a \<Rightarrow> 'a dheap \<Rightarrow> 'a dheap" where
  "sys_dlist_insert_before list insert_point node h =
     (case insert_point of
        None \<Rightarrow> sys_dlist_append list node h
      | Some ip \<Rightarrow>
          (let h1 = set_prv node (prv h ip) h;
               h2 = set_nxt node ip h1;
               h3 = set_nxt (prv h2 ip) node h2
           in set_prv ip node h3))"

text \<open>
  The search loop of \<^verbatim>\<open>sys_dlist_insert_at\<close>. It does not end on a heap whose links
  loop without reaching the tail, hence the option type; \<open>None\<close> is a loop that does
  not end.
\<close>

partial_function (option) find_insert_point ::
  "'a dheap \<Rightarrow> 'a \<Rightarrow> ('a \<Rightarrow> bool) \<Rightarrow> 'a option \<Rightarrow> 'a option option" where
  "find_insert_point h list cond pos =
     (case pos of
        None \<Rightarrow> Some None
      | Some p \<Rightarrow>
          (if \<not> cond p then find_insert_point h list cond (sys_dlist_peek_next h list pos)
           else Some pos))"

definition sys_dlist_insert_at :: "'a \<Rightarrow> 'a \<Rightarrow> ('a \<Rightarrow> bool) \<Rightarrow> 'a dheap \<Rightarrow> 'a dheap option" where
  "sys_dlist_insert_at list node cond h =
     (if sys_dlist_is_empty h list then Some (sys_dlist_append list node h)
      else map_option (\<lambda>pos. sys_dlist_insert_before list pos node h)
             (find_insert_point h list cond (sys_dlist_peek_head h list)))"

definition sys_dlist_remove :: "'a \<Rightarrow> 'a dheap \<Rightarrow> 'a dheap" where
  "sys_dlist_remove node h =
     (let h1 = set_nxt (prv h node) (nxt h node) h
      in set_prv (nxt h1 node) (prv h1 node) h1)"

definition sys_dlist_get :: "'a \<Rightarrow> 'a dheap \<Rightarrow> 'a option \<times> 'a dheap" where
  "sys_dlist_get list h =
     (if sys_dlist_is_empty h list then (None, h)
      else let node = nxt h list in (Some node, sys_dlist_remove node h))"

section \<open>The lists a heap holds\<close>

fun links :: "'a dheap \<Rightarrow> 'a list \<Rightarrow> bool" where
  "links h (a # b # r) \<longleftrightarrow> nxt h a = b \<and> prv h b = a \<and> links h (b # r)"
| "links h [a] \<longleftrightarrow> True"
| "links h [] \<longleftrightarrow> True"

definition dlist :: "'a dheap \<Rightarrow> 'a \<Rightarrow> 'a list \<Rightarrow> bool" where
  "dlist h l xs \<longleftrightarrow> distinct (l # xs) \<and> links h (l # xs @ [l])"

lemma links_Cons: "links h (a # b # r) \<longleftrightarrow> nxt h a = b \<and> prv h b = a \<and> links h (b # r)"
  by simp

lemma links_split: "links h (xs @ a # ys) \<longleftrightarrow> links h (xs @ [a]) \<and> links h (a # ys)"
  by (induction h xs rule: links.induct) auto

lemma links_cong:
  "(\<And>a. a \<in> set (butlast xs) \<Longrightarrow> nxt h' a = nxt h a) \<Longrightarrow>
   (\<And>a. a \<in> set (tl xs) \<Longrightarrow> prv h' a = prv h a) \<Longrightarrow> links h' xs = links h xs"
  by (induction h xs rule: links.induct) auto

lemma links_join:
  "P \<noteq> [] \<Longrightarrow> S \<noteq> [] \<Longrightarrow>
   links h (P @ S) \<longleftrightarrow> links h P \<and> nxt h (last P) = hd S \<and> prv h (hd S) = last P \<and> links h S"
proof (induction h P rule: links.induct)
  case (1 h a b r)
  then show ?case by simp
next
  case (2 h a)
  then show ?case by (cases S) auto
next
  case (3 h)
  then show ?case by simp
qed

text \<open>A list cut at a point: the links of both parts and the two pointers across the cut.\<close>

lemma dlist_cut:
  "dlist h l (xs @ ys) \<longleftrightarrow>
     distinct (l # xs @ ys) \<and> links h (l # xs) \<and> nxt h (last (l # xs)) = hd (ys @ [l]) \<and>
     prv h (hd (ys @ [l])) = last (l # xs) \<and> links h (ys @ [l])"
  using links_join [of "l # xs" "ys @ [l]" h] by (auto simp: dlist_def)

lemma hd_snoc_in: "hd (ys @ [l]) \<in> insert l (set ys)"
  by (cases ys) auto

lemma set_tl_snoc: "a \<in> set (tl (ys @ [l])) \<Longrightarrow> a \<in> insert l (set ys)"
  by (cases ys) auto

lemma last_Cons_in: "last (l # xs) \<in> insert l (set xs)"
  by (cases xs rule: rev_cases) auto

text \<open>Every insertion of the interface writes the same four pointers.\<close>

lemma dlist_insert:
  assumes d: "dlist h l (xs @ ys)" and n: "n \<noteq> l" "n \<notin> set xs" "n \<notin> set ys"
    and p: "p = last (l # xs)" and s: "s = hd (ys @ [l])"
  shows "dlist (h\<lparr>nxt := (nxt h)(n := s, p := n), prv := (prv h)(n := p, s := n)\<rparr>) l (xs @ n # ys)"
    (is "dlist ?h l _")
proof -
  have dist: "distinct (l # xs @ ys)" using d by (simp add: dlist_def)
  have pin: "p \<in> insert l (set xs)" unfolding p by (rule last_Cons_in)
  have sin: "s \<in> insert l (set ys)" unfolding s by (rule hd_snoc_in)
  have p_xs: "p \<notin> set (butlast (l # xs))"
    unfolding p using dist by (cases xs rule: rev_cases) auto
  have s_ys: "s \<notin> set (tl (ys @ [l]))"
    unfolding s using dist by (cases ys) auto
  have "links h (l # xs)" "links h (ys @ [l])"
    using d by (simp_all add: dlist_cut)
  moreover have "links ?h (l # xs) = links h (l # xs)"
    using n dist pin sin p_xs by (intro links_cong) (auto dest: in_set_butlastD split: if_splits)
  moreover have "links ?h (ys @ [l]) = links h (ys @ [l])"
    using n dist pin sin s_ys by (intro links_cong) (auto dest: set_tl_snoc)
  ultimately have left: "links ?h (l # xs)" and right: "links ?h (ys @ [l])" by simp_all
  have np: "n \<noteq> p" and ns: "n \<noteq> s" using n pin sin by auto
  have "links ?h (n # ys @ [l])"
    using links_join [of "[n]" "ys @ [l]" ?h] right np by (simp flip: s)
  then have "links ?h ((l # xs) @ (n # ys @ [l]))"
    using links_join [of "l # xs" "n # ys @ [l]" ?h] left ns p by simp
  then show ?thesis
    using dist n by (simp add: dlist_def)
qed

lemma dlist_delete:
  assumes d: "dlist h l (xs @ n # ys)" and p: "p = last (l # xs)" and s: "s = hd (ys @ [l])"
  shows "dlist (h\<lparr>nxt := (nxt h)(p := s), prv := (prv h)(s := p)\<rparr>) l (xs @ ys)"
    (is "dlist ?h l _")
proof -
  have dist: "distinct (l # xs @ n # ys)" using d by (simp add: dlist_def)
  have pin: "p \<in> insert l (set xs)" unfolding p by (rule last_Cons_in)
  have sin: "s \<in> insert l (set ys)" unfolding s by (rule hd_snoc_in)
  have p_xs: "p \<notin> set (butlast (l # xs))"
    unfolding p using dist by (cases xs rule: rev_cases) auto
  have s_ys: "s \<notin> set (tl (ys @ [l]))"
    unfolding s using dist by (cases ys) auto
  have "links h (l # xs)" "links h (n # ys @ [l])"
    using d by (simp_all add: dlist_cut)
  then have "links h (l # xs)" "links h (ys @ [l])"
    using links_join [of "[n]" "ys @ [l]" h] by simp_all
  moreover have "links ?h (l # xs) = links h (l # xs)"
    using dist pin sin p_xs by (intro links_cong) (auto dest: in_set_butlastD split: if_splits)
  moreover have "links ?h (ys @ [l]) = links h (ys @ [l])"
    using dist pin sin s_ys by (intro links_cong) auto
  ultimately show ?thesis
    using dist p s by (simp add: dlist_cut)
qed

text \<open>The neighbours of a node, and the two ends.\<close>

lemma dlist_neighbours:
  assumes "dlist h l (xs @ n # ys)"
  shows "prv h n = last (l # xs)" and "nxt h n = hd (ys @ [l])"
  using assms dlist_cut [of h l xs "n # ys"] dlist_cut [of h l "xs @ [n]" ys] by simp_all

lemma dlist_head: "dlist h l xs \<Longrightarrow> nxt h l = hd (xs @ [l])"
  using dlist_cut [of h l "[]" xs] by simp

lemma dlist_tail: "dlist h l xs \<Longrightarrow> prv h l = last (l # xs)"
  using dlist_cut [of h l xs "[]"] by simp

lemma dlist_distinct: "dlist h l xs \<Longrightarrow> distinct xs \<and> l \<notin> set xs"
  by (simp add: dlist_def)

section \<open>The operations implement the list operations\<close>

lemma dlist_init: "dlist (sys_dlist_init l h) l []"
  by (simp add: dlist_def sys_dlist_init_def)

lemma dlist_append:
  assumes "dlist h l xs" and "n \<noteq> l" and "n \<notin> set xs"
  shows "dlist (sys_dlist_append l n h) l (xs @ [n])"
proof -
  have t: "prv h l = last (l # xs)" using assms(1) by (rule dlist_tail)
  have "sys_dlist_append l n h =
        h\<lparr>nxt := (nxt h)(n := l, last (l # xs) := n), prv := (prv h)(n := last (l # xs), l := n)\<rparr>"
    using assms(2) by (simp add: sys_dlist_append_def Let_def t)
  then show ?thesis
    using dlist_insert [of h l xs "[]" n "last (l # xs)" l] assms by simp
qed

lemma dlist_prepend:
  assumes "dlist h l xs" and "n \<noteq> l" and "n \<notin> set xs"
  shows "dlist (sys_dlist_prepend l n h) l (n # xs)"
proof -
  have t: "nxt h l = hd (xs @ [l])" using assms(1) by (rule dlist_head)
  have "sys_dlist_prepend l n h =
        h\<lparr>nxt := (nxt h)(n := hd (xs @ [l]), l := n), prv := (prv h)(n := l, hd (xs @ [l]) := n)\<rparr>"
    using assms(2) by (simp add: sys_dlist_prepend_def Let_def t)
  then show ?thesis
    using dlist_insert [of h l "[]" xs n l "hd (xs @ [l])"] assms by simp
qed

lemma dlist_insert_before:
  assumes "dlist h l (xs @ p # ys)" and "n \<noteq> l" and "n \<notin> set (xs @ p # ys)"
  shows "dlist (sys_dlist_insert_before l (Some p) n h) l (xs @ n # p # ys)"
proof -
  have t: "prv h p = last (l # xs)" using assms(1) by (rule dlist_neighbours)
  have "sys_dlist_insert_before l (Some p) n h =
        h\<lparr>nxt := (nxt h)(n := p, last (l # xs) := n), prv := (prv h)(n := last (l # xs), p := n)\<rparr>"
    using assms(3) by (auto simp: sys_dlist_insert_before_def Let_def t)
  then show ?thesis
    using dlist_insert [of h l xs "p # ys" n "last (l # xs)" p] assms by simp
qed

lemma dlist_insert_after:
  assumes "dlist h l (xs @ p # ys)" and "n \<noteq> l" and "n \<notin> set (xs @ p # ys)"
  shows "dlist (sys_dlist_insert_after l (Some p) n h) l (xs @ p # n # ys)"
proof -
  have t: "nxt h p = hd (ys @ [l])" using assms(1) by (rule dlist_neighbours)
  have "sys_dlist_insert_after l (Some p) n h =
        h\<lparr>nxt := (nxt h)(n := hd (ys @ [l]), p := n), prv := (prv h)(n := p, hd (ys @ [l]) := n)\<rparr>"
    using assms(3) by (auto simp: sys_dlist_insert_after_def Let_def t)
  then show ?thesis
    using dlist_insert [of h l "xs @ [p]" ys n p "hd (ys @ [l])"] assms by simp
qed

lemma dlist_remove:
  assumes "dlist h l (xs @ n # ys)"
  shows "dlist (sys_dlist_remove n h) l (xs @ ys)"
proof -
  have t: "prv h n = last (l # xs)" "nxt h n = hd (ys @ [l])"
    using dlist_neighbours [OF assms] by simp_all
  have "n \<noteq> last (l # xs)"
    using assms last_Cons_in [of l xs] by (auto simp: dlist_def)
  then have "sys_dlist_remove n h =
        h\<lparr>nxt := (nxt h)(last (l # xs) := hd (ys @ [l])), prv := (prv h)(hd (ys @ [l]) := last (l # xs))\<rparr>"
    by (simp add: sys_dlist_remove_def Let_def t)
  then show ?thesis
    using dlist_delete [OF assms refl refl] by simp
qed

lemma dlist_is_empty: "dlist h l xs \<Longrightarrow> sys_dlist_is_empty h l \<longleftrightarrow> xs = []"
  using dlist_head [of h l xs] by (cases xs) (auto simp: sys_dlist_is_empty_def dlist_def)

lemma dlist_peek_head:
  "dlist h l xs \<Longrightarrow> sys_dlist_peek_head h l = (case xs of [] \<Rightarrow> None | x # _ \<Rightarrow> Some x)"
  using dlist_head [of h l xs] by (auto simp: sys_dlist_peek_head_def dlist_is_empty split: list.splits)

lemma dlist_peek_tail:
  "dlist h l xs \<Longrightarrow> sys_dlist_peek_tail h l = (if xs = [] then None else Some (last xs))"
  using dlist_tail [of h l xs] by (auto simp: sys_dlist_peek_tail_def dlist_is_empty)

lemma dlist_has_multiple_nodes:
  "dlist h l xs \<Longrightarrow> sys_dlist_has_multiple_nodes h l \<longleftrightarrow> 1 < length xs"
proof -
  assume d: "dlist h l xs"
  show ?thesis
  proof (cases xs rule: remdups_adj.cases)
    case 1
    with d show ?thesis
      using dlist_head [OF d] dlist_tail [OF d] by (simp add: sys_dlist_has_multiple_nodes_def)
  next
    case (2 x)
    with d show ?thesis
      using dlist_head [OF d] dlist_tail [OF d] by (simp add: sys_dlist_has_multiple_nodes_def)
  next
    case (3 x y zs)
    with d have "x \<noteq> last (y # zs)"
      using last_in_set [of "y # zs"] unfolding dlist_def by (metis distinct.simps(2) list.discI)
    with 3 show ?thesis
      using dlist_head [OF d] dlist_tail [OF d] by (simp add: sys_dlist_has_multiple_nodes_def)
  qed
qed

lemma dlist_is_tail:
  assumes "dlist h l xs" and "n \<in> set xs"
  shows "sys_dlist_is_tail h l n \<longleftrightarrow> last xs = n"
  using assms dlist_tail [OF assms(1)] by (auto simp: sys_dlist_is_tail_def)

lemma dlist_peek_next:
  assumes "dlist h l (xs @ n # ys)"
  shows "sys_dlist_peek_next h l (Some n) = (case ys of [] \<Rightarrow> None | y # _ \<Rightarrow> Some y)"
proof (cases ys)
  case Nil
  then show ?thesis
    using dlist_tail [OF assms] by (simp add: sys_dlist_peek_next_def sys_dlist_peek_next_no_check_def)
next
  case (Cons y zs)
  then have "n \<noteq> last ys"
    using assms unfolding dlist_def by auto
  with Cons show ?thesis
    using dlist_tail [OF assms] dlist_neighbours(2) [OF assms]
    by (auto simp: sys_dlist_peek_next_def sys_dlist_peek_next_no_check_def)
qed

lemma dlist_get:
  assumes "dlist h l xs"
  shows "case xs of
           [] \<Rightarrow> sys_dlist_get l h = (None, h)
         | x # ys \<Rightarrow> fst (sys_dlist_get l h) = Some x \<and> dlist (snd (sys_dlist_get l h)) l ys"
  using assms dlist_head [OF assms] dlist_remove [of h l "[]"]
  by (auto simp: sys_dlist_get_def dlist_is_empty Let_def split: list.splits)

text \<open>
  The search of \<^verbatim>\<open>sys_dlist_insert_at\<close> ends on every well-formed list, at the first
  node that meets the condition.
\<close>

lemma find_insert_point_list:
  assumes "dlist h l (xs @ ys)"
  shows "find_insert_point h l cond (case ys of [] \<Rightarrow> None | y # _ \<Rightarrow> Some y) =
         Some (case dropWhile (\<lambda>x. \<not> cond x) ys of [] \<Rightarrow> None | y # _ \<Rightarrow> Some y)"
  using assms
proof (induction ys arbitrary: xs)
  case Nil
  then show ?case by (simp add: find_insert_point.simps)
next
  case (Cons y ys)
  then have "dlist h l ((xs @ [y]) @ ys)" by simp
  from Cons.IH [OF this] Cons.prems show ?case
    by (simp add: find_insert_point.simps [of h l cond "Some y"] dlist_peek_next)
qed

lemma dlist_insert_at:
  assumes "dlist h l xs" and "n \<noteq> l" and "n \<notin> set xs"
  shows "\<exists>h'. sys_dlist_insert_at l n cond h = Some h' \<and>
           dlist h' l (takeWhile (\<lambda>x. \<not> cond x) xs @ n # dropWhile (\<lambda>x. \<not> cond x) xs)"
proof (cases "xs = []")
  case True
  with assms show ?thesis
    using dlist_append [OF assms] by (simp add: sys_dlist_insert_at_def dlist_is_empty)
next
  case False
  let ?t = "takeWhile (\<lambda>x. \<not> cond x) xs" and ?d = "dropWhile (\<lambda>x. \<not> cond x) xs"
  have eq: "xs = ?t @ ?d" by simp
  from False assms(1) have found:
    "sys_dlist_insert_at l n cond h =
       Some (sys_dlist_insert_before l (case ?d of [] \<Rightarrow> None | y # _ \<Rightarrow> Some y) n h)"
    using find_insert_point_list [of h l "[]" xs cond]
    by (simp add: sys_dlist_insert_at_def dlist_is_empty dlist_peek_head)
  show ?thesis
  proof (cases ?d)
    case Nil
    with eq have t: "?t = xs" by (metis append_Nil2)
    show ?thesis
      using dlist_append [OF assms] found unfolding t Nil by (simp add: sys_dlist_insert_before_def)
  next
    case (Cons p ys)
    then have "dlist h l (?t @ p # ys)" "n \<notin> set (?t @ p # ys)"
      using assms eq by simp_all
    with Cons found show ?thesis
      using dlist_insert_before [of h l ?t p ys n] assms(2) by simp
  qed
qed

section \<open>Families of lists\<close>

text \<open>
  All the lists of the kernel live in one heap: the ready queues, the wait queues of
  every object, and the nodes of every thread. \<open>dlists h L D\<close>: the list heads are
  \<open>L\<close>, the list at \<open>l \<in> L\<close> holds \<open>D l\<close>, and no node is on two lists.
\<close>

definition dlists :: "'a dheap \<Rightarrow> 'a set \<Rightarrow> ('a \<Rightarrow> 'a list) \<Rightarrow> bool" where
  "dlists h L D \<longleftrightarrow>
     (\<forall>l \<in> L. dlist h l (D l) \<and> set (D l) \<inter> L = {}) \<and>
     (\<forall>l \<in> L. \<forall>m \<in> L. l \<noteq> m \<longrightarrow> set (D l) \<inter> set (D m) = {})"

lemma dlist_frame:
  assumes "dlist h l xs"
    and "\<And>a. a \<in> insert l (set xs) \<Longrightarrow> nxt h' a = nxt h a \<and> prv h' a = prv h a"
  shows "dlist h' l xs"
proof -
  have "links h' (l # xs @ [l]) = links h (l # xs @ [l])"
    using assms(2) by (intro links_cong) (auto dest: in_set_butlastD)
  with assms(1) show ?thesis by (simp add: dlist_def)
qed

lemma append_writes:
  "a \<noteq> n \<Longrightarrow> a \<noteq> l \<Longrightarrow> a \<noteq> prv h l \<Longrightarrow>
   nxt (sys_dlist_append l n h) a = nxt h a \<and> prv (sys_dlist_append l n h) a = prv h a"
  by (simp add: sys_dlist_append_def Let_def)

lemma remove_writes:
  "a \<noteq> prv h n \<Longrightarrow> a \<noteq> nxt h n \<Longrightarrow> n \<noteq> prv h n \<Longrightarrow>
   nxt (sys_dlist_remove n h) a = nxt h a \<and> prv (sys_dlist_remove n h) a = prv h a"
  by (simp add: sys_dlist_remove_def Let_def)

lemma insert_before_writes:
  "a \<noteq> n \<Longrightarrow> a \<noteq> p \<Longrightarrow> a \<noteq> prv h p \<Longrightarrow> n \<noteq> p \<Longrightarrow>
   nxt (sys_dlist_insert_before l (Some p) n h) a = nxt h a \<and>
   prv (sys_dlist_insert_before l (Some p) n h) a = prv h a"
  by (simp add: sys_dlist_insert_before_def Let_def)

text \<open>A node that is on no list.\<close>

definition unlinked :: "'a set \<Rightarrow> ('a \<Rightarrow> 'a list) \<Rightarrow> 'a \<Rightarrow> bool" where
  "unlinked L D n \<longleftrightarrow> n \<notin> L \<and> (\<forall>l \<in> L. n \<notin> set (D l))"

lemma dlists_apart:
  "dlists h L D \<Longrightarrow> l \<in> L \<Longrightarrow> m \<in> L \<Longrightarrow> l \<noteq> m \<Longrightarrow> a \<in> insert l (set (D l)) \<Longrightarrow>
   a \<notin> insert m (set (D m))"
  unfolding dlists_def by blast

text \<open>An operation on one list that writes only that list's nodes and unlinked ones.\<close>

lemma dlists_local:
  assumes D: "dlists h L D" and l: "l \<in> L" and d: "dlist h' l xs"
    and xs: "set xs \<subseteq> set (D l) \<union> N" and N: "\<And>n. n \<in> N \<Longrightarrow> unlinked L D n"
    and w: "\<And>a. a \<notin> insert l (set (D l) \<union> N) \<Longrightarrow> nxt h' a = nxt h a \<and> prv h' a = prv h a"
  shows "dlists h' L (D(l := xs))"
proof -
  have "dlist h' m (D m)" if m: "m \<in> L" "m \<noteq> l" for m
  proof (rule dlist_frame)
    show "dlist h m (D m)" using D m by (simp add: dlists_def)
    fix a assume a: "a \<in> insert m (set (D m))"
    then have "a \<notin> N" using N m by (auto simp: unlinked_def)
    with dlists_apart [OF D m(1) l m(2) a] show "nxt h' a = nxt h a \<and> prv h' a = prv h a"
      by (intro w) auto
  qed
  moreover have "set xs \<inter> L = {}"
    using xs N D l by (auto simp: unlinked_def dlists_def)
  moreover have "set xs \<inter> set (D m) = {}" if m: "m \<in> L" "m \<noteq> l" for m
    using dlists_apart [OF D l m(1)] m xs N by (fastforce simp: unlinked_def)
  ultimately show ?thesis
    using D d l unfolding dlists_def by auto
qed

lemma dlists_append:
  assumes D: "dlists h L D" and l: "l \<in> L" and n: "unlinked L D n"
  shows "dlists (sys_dlist_append l n h) L (D(l := D l @ [n]))"
proof (rule dlists_local [OF D l, where N = "{n}"])
  have dl: "dlist h l (D l)" using D l by (simp add: dlists_def)
  show "dlist (sys_dlist_append l n h) l (D l @ [n])"
    using dl n l by (intro dlist_append) (auto simp: unlinked_def)
  have "prv h l \<in> insert l (set (D l))"
    using dlist_tail [OF dl] last_Cons_in by metis
  then show "nxt (sys_dlist_append l n h) a = nxt h a \<and> prv (sys_dlist_append l n h) a = prv h a"
    if "a \<notin> insert l (set (D l) \<union> {n})" for a
    using that by (intro append_writes) auto
qed (use n in auto)

lemma dlists_insert_before:
  assumes D: "dlists h L D" and l: "l \<in> L" and n: "unlinked L D n" and e: "D l = xs @ p # ys"
  shows "dlists (sys_dlist_insert_before l (Some p) n h) L (D(l := xs @ n # p # ys))"
proof (rule dlists_local [OF D l, where N = "{n}"])
  have dl: "dlist h l (xs @ p # ys)" using D l e by (auto simp: dlists_def)
  have np: "n \<noteq> p" "n \<notin> set (xs @ p # ys)" "n \<noteq> l" using n l e by (auto simp: unlinked_def)
  show "dlist (sys_dlist_insert_before l (Some p) n h) l (xs @ n # p # ys)"
    using dl np by (intro dlist_insert_before) auto
  have "prv h p \<in> insert l (set (D l))"
    using dlist_neighbours(1) [OF dl] last_Cons_in [of l xs] by (auto simp: e)
  then show "nxt (sys_dlist_insert_before l (Some p) n h) a = nxt h a \<and>
             prv (sys_dlist_insert_before l (Some p) n h) a = prv h a"
    if "a \<notin> insert l (set (D l) \<union> {n})" for a
    using that np by (intro insert_before_writes) (auto simp: e)
qed (use n e in auto)

lemma dlists_remove:
  assumes D: "dlists h L D" and l: "l \<in> L" and n: "n \<in> set (D l)"
  shows "dlists (sys_dlist_remove n h) L (D(l := remove1 n (D l)))"
proof (rule dlists_local [OF D l, where N = "{}"])
  from n obtain xs ys where e: "D l = xs @ n # ys" by (meson split_list)
  have dl: "dlist h l (xs @ n # ys)" using D l e by (auto simp: dlists_def)
  then have dist: "distinct (l # xs @ n # ys)" by (simp add: dlist_def)
  then show "dlist (sys_dlist_remove n h) l (remove1 n (D l))"
    using dlist_remove [OF dl] by (simp add: e remove1_append)
  have "prv h n \<in> insert l (set (D l) - {n})" "nxt h n \<in> insert l (set (D l) - {n})"
    using dlist_neighbours [OF dl] dist last_Cons_in [of l xs] hd_snoc_in [of ys l]
    unfolding e by auto
  then show "nxt (sys_dlist_remove n h) a = nxt h a \<and> prv (sys_dlist_remove n h) a = prv h a"
    if "a \<notin> insert l (set (D l) \<union> {})" for a
    using that n dist e by (intro remove_writes) auto
qed (auto dest: set_remove1_subset [THEN subsetD])

section \<open>The interface the kernel queues rely on\<close>

text \<open>
  What the scheduler and the wait queues use of the lists: a node can be put at the
  end of a list when it is on none, and unlinked from whatever list it is on. The
  client lemmas of this interface move nodes, as the scheduler does when it requeues
  a thread of a ready queue or moves one from a ready queue to a wait queue.
\<close>

locale list_store =
  fixes repr :: "'h \<Rightarrow> 'n set \<Rightarrow> ('n \<Rightarrow> 'n list) \<Rightarrow> bool"
    and app :: "'n \<Rightarrow> 'n \<Rightarrow> 'h \<Rightarrow> 'h"
    and rem :: "'n \<Rightarrow> 'h \<Rightarrow> 'h"
  assumes repr_app: "repr h L D \<Longrightarrow> l \<in> L \<Longrightarrow> n \<notin> L \<Longrightarrow> (\<And>m. m \<in> L \<Longrightarrow> n \<notin> set (D m)) \<Longrightarrow>
      repr (app l n h) L (D(l := D l @ [n]))"
    and repr_rem: "repr h L D \<Longrightarrow> l \<in> L \<Longrightarrow> n \<in> set (D l) \<Longrightarrow>
      repr (rem n h) L (D(l := remove1 n (D l)))"
    and repr_dist: "repr h L D \<Longrightarrow> l \<in> L \<Longrightarrow> distinct (D l)"
    and repr_heads: "repr h L D \<Longrightarrow> l \<in> L \<Longrightarrow> n \<in> set (D l) \<Longrightarrow> n \<notin> L"
    and repr_disj: "repr h L D \<Longrightarrow> l \<in> L \<Longrightarrow> m \<in> L \<Longrightarrow> l \<noteq> m \<Longrightarrow> set (D l) \<inter> set (D m) = {}"
begin

lemma unlinked_after_rem:
  assumes "repr h L D" "l \<in> L" "n \<in> set (D l)" "m \<in> L"
  shows "n \<notin> set ((D(l := remove1 n (D l))) m)"
  using assms repr_dist [OF assms(1,2)] repr_disj [OF assms(1,2,4)] by (cases "m = l") auto

lemma move:
  assumes "repr h L D" "l \<in> L" "m \<in> L" "n \<in> set (D l)"
  shows "repr (app m n (rem n h)) L
           (if m = l then D(l := remove1 n (D l) @ [n])
            else D(l := remove1 n (D l), m := D m @ [n]))"
proof -
  let ?D = "D(l := remove1 n (D l))"
  have "repr (rem n h) L ?D" using assms by (intro repr_rem)
  moreover have "n \<notin> L" using assms by (intro repr_heads)
  ultimately have "repr (app m n (rem n h)) L (?D(m := ?D m @ [n]))"
    using assms unlinked_after_rem [OF assms(1,2,4)] by (intro repr_app) auto
  then show ?thesis by (simp split: if_splits)
qed

end

interpretation dl: list_store dlists sys_dlist_append sys_dlist_remove
proof unfold_locales
  fix h L D l n
  show "dlists h L D \<Longrightarrow> l \<in> L \<Longrightarrow> n \<notin> L \<Longrightarrow> (\<And>m. m \<in> L \<Longrightarrow> n \<notin> set (D m)) \<Longrightarrow>
      dlists (sys_dlist_append l n h) L (D(l := D l @ [n]))"
    by (rule dlists_append) (auto simp: unlinked_def)
  show "dlists h L D \<Longrightarrow> l \<in> L \<Longrightarrow> n \<in> set (D l) \<Longrightarrow>
      dlists (sys_dlist_remove n h) L (D(l := remove1 n (D l)))"
    by (rule dlists_remove)
  show "dlists h L D \<Longrightarrow> l \<in> L \<Longrightarrow> distinct (D l)"
    by (simp add: dlists_def dlist_def)
  show "dlists h L D \<Longrightarrow> l \<in> L \<Longrightarrow> n \<in> set (D l) \<Longrightarrow> n \<notin> L"
    by (auto simp: dlists_def)
  show "dlists h L D \<Longrightarrow> l \<in> L \<Longrightarrow> m \<in> L \<Longrightarrow> l \<noteq> m \<Longrightarrow> set (D l) \<inter> set (D m) = {}" for m
    by (simp add: dlists_def)
qed

text \<open>
  Appending a node that is already the tail of the list makes its forward pointer
  point to itself: no list is left at that head.
\<close>

lemma append_linked_self_loop:
  assumes "dlist h l xs" and "xs \<noteq> []" and "n = last xs"
  shows "nxt (sys_dlist_append l n h) n = n"
  using assms dlist_tail [OF assms(1)] by (auto simp: sys_dlist_append_def Let_def dlist_def)

lemma self_loop_no_list:
  assumes "nxt h n = n" and "n \<in> set ys"
  shows "\<not> dlist h l ys"
proof
  assume d: "dlist h l ys"
  from assms(2) obtain xs zs where e: "ys = xs @ n # zs" by (meson split_list)
  with d dlist_neighbours(2) [of h l xs n zs] assms(1) have "n = hd (zs @ [l])" by simp
  with d e hd_snoc_in [of zs l] show False by (auto simp: dlist_def)
qed

section \<open>Properties\<close>

text \<open>
  Inserting at a condition: on a list that does not hold the node the loop ends, and the
  node stands in front of the first node that meets the condition, or at the tail when none
  does; every pointer of the list is again consistent.
\<close>

theorem sys_dlist_insert_at_position:
  assumes "dlist h l xs" and "n \<noteq> l" and "n \<notin> set xs"
  shows "\<exists>h'. sys_dlist_insert_at l n cond h = Some h' \<and>
           dlist h' l (takeWhile (\<lambda>x. \<not> cond x) xs @ n # dropWhile (\<lambda>x. \<not> cond x) xs)"
  using assms by (rule dlist_insert_at)

definition example_heap :: "nat dheap" where
  "example_heap = sys_dlist_append 10 8 (sys_dlist_append 10 4 (sys_dlist_init 10 \<lparr>nxt = id, prv = id\<rparr>))"

lemma example_heap_list: "dlist example_heap 10 [4, 8]"
  unfolding example_heap_def
  using dlist_append [OF dlist_append [OF dlist_init [of "10 :: nat" "\<lparr>nxt = id, prv = id\<rparr>"], of 4], of 8] by simp

theorem sys_dlist_insert_at_position_witness:
  "\<exists>h'. sys_dlist_insert_at 10 6 (\<lambda>x. 6 < x) example_heap = Some h' \<and> dlist h' 10 [4, 6, 8]"
  using sys_dlist_insert_at_position [OF example_heap_list, of 6 "\<lambda>x. 6 < x"] by simp

end
