(* ===== verification/Kernel_State.thy ===== *)
theory Kernel_State
  imports Sys_Dlist
begin

text \<open>
  The state of the kernel: \<^verbatim>\<open>struct k_thread\<close> (its \<^verbatim>\<open>struct _thread_base\<close>),
  \<^verbatim>\<open>struct _timeout\<close>, \<^verbatim>\<open>struct _ready_q\<close> and \<^verbatim>\<open>struct _kernel\<close>, with the file-level
  variables of \<^verbatim>\<open>sys_clock.c\<close>, and the thread-state predicates and updates of
  \<^verbatim>\<open>kernel/include/ksched.h\<close>.

  Threads, wait queues and timeouts are named (\<open>tid\<close>, \<open>waddr\<close>, \<open>toref\<close>). The lists
  threaded through \<^verbatim>\<open>k_q_node\<close> are the family \<open>queues\<close>, one list of threads for each
  ready queue and each wait queue; \<open>queue_append\<close>, \<open>queue_insert_before\<close> and
  \<open>queue_remove\<close> are what the pointer operations of \<open>Sys_Dlist\<close> do to it, which the
  last section proves. The state record is extensible, so that a component with
  objects of its own reached from a timeout handler adds them to it.
\<close>

section \<open>Data\<close>

type_synonym tid = nat
type_synonym waddr = nat

datatype qaddr = ReadyQ nat | WaitQ waddr

datatype toref = ThreadTO tid | TimerTO nat | WorkTO nat

record k_timeout =
  delta_ticks_from_prev :: int
  to_thread :: "tid option"
  to_wait_q :: "waddr option"
  to_func :: "nat option"

record k_thread =
  user_options :: u8
  thread_state :: u8
  prio :: int
  sched_locked :: u8
  swap_data :: nat
  swap_retval :: int
  fn_abort :: "nat option"

record kernel =
  threads :: "tid \<Rightarrow> k_thread"
  timeouts :: "toref \<Rightarrow> k_timeout"
  nested :: u32
  current :: tid
  cache :: tid
  prio_bmap :: "u32 list"
  queues :: "qaddr \<Rightarrow> tid list"
  timeout_q :: "toref list"
  handling_timeouts :: bool
  idle_thread :: tid
  time_slice_duration :: int
  time_slice_elapsed :: int
  time_slice_prio_ceiling :: int
  sys_clock_tick_count :: u64

text \<open>
  The fields of a thread, a timeout and the queues are written through these
  updates.
\<close>

definition upd_thread :: "tid \<Rightarrow> (k_thread \<Rightarrow> k_thread) \<Rightarrow> 'a kernel_scheme \<Rightarrow> 'a kernel_scheme" where
  "upd_thread t f k = k\<lparr>threads := (threads k)(t := f (threads k t))\<rparr>"

definition upd_timeout :: "toref \<Rightarrow> (k_timeout \<Rightarrow> k_timeout) \<Rightarrow> 'a kernel_scheme \<Rightarrow> 'a kernel_scheme" where
  "upd_timeout r f k = k\<lparr>timeouts := (timeouts k)(r := f (timeouts k r))\<rparr>"

definition queue_append :: "qaddr \<Rightarrow> tid \<Rightarrow> 'a kernel_scheme \<Rightarrow> 'a kernel_scheme" where
  "queue_append q t k = k\<lparr>queues := (queues k)(q := queues k q @ [t])\<rparr>"

fun list_insert_before :: "'b \<Rightarrow> 'b \<Rightarrow> 'b list \<Rightarrow> 'b list" where
  "list_insert_before p x [] = []"
| "list_insert_before p x (y # ys) = (if y = p then x # y # ys else y # list_insert_before p x ys)"

definition queue_insert_before :: "qaddr \<Rightarrow> tid \<Rightarrow> tid \<Rightarrow> 'a kernel_scheme \<Rightarrow> 'a kernel_scheme" where
  "queue_insert_before q p t k = k\<lparr>queues := (queues k)(q := list_insert_before p t (queues k q))\<rparr>"

definition queue_remove :: "tid \<Rightarrow> 'a kernel_scheme \<Rightarrow> 'a kernel_scheme" where
  "queue_remove t k = k\<lparr>queues := (\<lambda>q. remove1 t (queues k q))\<rparr>"

section \<open>Constants\<close>

definition NUM_COOP_PRIO :: int where "NUM_COOP_PRIO = 16"
definition NUM_PREEMPT_PRIO :: int where "NUM_PREEMPT_PRIO = 15 + 1"
definition K_HIGHEST_THREAD_PRIO :: int where "K_HIGHEST_THREAD_PRIO = - 16"
definition K_LOWEST_THREAD_PRIO :: int where "K_LOWEST_THREAD_PRIO = 15"
definition K_IDLE_PRIO :: int where "K_IDLE_PRIO = K_LOWEST_THREAD_PRIO"
definition K_HIGHEST_APPLICATION_THREAD_PRIO :: int where
  "K_HIGHEST_APPLICATION_THREAD_PRIO = K_HIGHEST_THREAD_PRIO"
definition K_LOWEST_APPLICATION_THREAD_PRIO :: int where
  "K_LOWEST_APPLICATION_THREAD_PRIO = K_LOWEST_THREAD_PRIO - 1"
definition CONFIG_PRIORITY_CEILING :: int where "CONFIG_PRIORITY_CEILING = 0"

lemmas prio_consts = NUM_COOP_PRIO_def NUM_PREEMPT_PRIO_def K_HIGHEST_THREAD_PRIO_def
  K_LOWEST_THREAD_PRIO_def K_IDLE_PRIO_def K_HIGHEST_APPLICATION_THREAD_PRIO_def
  K_LOWEST_APPLICATION_THREAD_PRIO_def CONFIG_PRIORITY_CEILING_def

definition THREAD_DUMMY :: u8 where "THREAD_DUMMY = push_bit 0 1"
definition THREAD_PENDING :: u8 where "THREAD_PENDING = push_bit 1 1"
definition THREAD_PRESTART :: u8 where "THREAD_PRESTART = push_bit 2 1"
definition THREAD_DEAD :: u8 where "THREAD_DEAD = push_bit 3 1"
definition THREAD_SUSPENDED :: u8 where "THREAD_SUSPENDED = push_bit 4 1"
definition THREAD_POLLING :: u8 where "THREAD_POLLING = push_bit 5 1"

lemmas thread_state_defs = THREAD_DUMMY_def THREAD_PENDING_def THREAD_PRESTART_def
  THREAD_DEAD_def THREAD_SUSPENDED_def THREAD_POLLING_def

definition PREEMPT_THRESHOLD :: u16 where "PREEMPT_THRESHOLD = 0x0080 - 1"

definition EXPIRED :: int where "EXPIRED = - 2"
definition INACTIVE :: int where "INACTIVE = - 1"
definition K_NO_WAIT :: int where "K_NO_WAIT = 0"
definition K_FOREVER :: int where "K_FOREVER = - 1"

lemmas timeout_consts = EXPIRED_def INACTIVE_def K_NO_WAIT_def K_FOREVER_def

section \<open>Thread states (\<^verbatim>\<open>ksched.h\<close>)\<close>

definition set_thread_states :: "tid \<Rightarrow> u8 \<Rightarrow> 'a kernel_scheme \<Rightarrow> 'a kernel_scheme" where
  "set_thread_states t states k = upd_thread t (thread_state_update (\<lambda>s. s OR states)) k"

definition reset_thread_states :: "tid \<Rightarrow> u8 \<Rightarrow> 'a kernel_scheme \<Rightarrow> 'a kernel_scheme" where
  "reset_thread_states t states k = upd_thread t (thread_state_update (\<lambda>s. s AND NOT states)) k"

definition is_thread_state_set :: "'a kernel_scheme \<Rightarrow> tid \<Rightarrow> u8 \<Rightarrow> bool" where
  "is_thread_state_set k t state \<longleftrightarrow> thread_state (threads k t) AND state \<noteq> 0"

definition mark_thread_as_suspended :: "tid \<Rightarrow> 'a kernel_scheme \<Rightarrow> 'a kernel_scheme" where
  "mark_thread_as_suspended t k = upd_thread t (thread_state_update (\<lambda>s. s OR THREAD_SUSPENDED)) k"

definition mark_thread_as_not_suspended :: "tid \<Rightarrow> 'a kernel_scheme \<Rightarrow> 'a kernel_scheme" where
  "mark_thread_as_not_suspended t k =
     upd_thread t (thread_state_update (\<lambda>s. s AND NOT THREAD_SUSPENDED)) k"

definition is_thread_timeout_expired :: "'a kernel_scheme \<Rightarrow> tid \<Rightarrow> bool" where
  "is_thread_timeout_expired k t \<longleftrightarrow> delta_ticks_from_prev (timeouts k (ThreadTO t)) = EXPIRED"

definition is_thread_timeout_active :: "'a kernel_scheme \<Rightarrow> tid \<Rightarrow> bool" where
  "is_thread_timeout_active k t \<longleftrightarrow> delta_ticks_from_prev (timeouts k (ThreadTO t)) \<noteq> INACTIVE"

definition has_thread_started :: "'a kernel_scheme \<Rightarrow> tid \<Rightarrow> bool" where
  "has_thread_started k t \<longleftrightarrow> \<not> thread_state (threads k t) AND THREAD_PRESTART \<noteq> 0"

definition is_thread_prevented_from_running :: "'a kernel_scheme \<Rightarrow> tid \<Rightarrow> bool" where
  "is_thread_prevented_from_running k t \<longleftrightarrow>
     thread_state (threads k t) AND (THREAD_PENDING OR THREAD_PRESTART OR THREAD_DEAD OR
       THREAD_DUMMY OR THREAD_SUSPENDED) \<noteq> 0"

definition is_thread_ready :: "'a kernel_scheme \<Rightarrow> tid \<Rightarrow> bool" where
  "is_thread_ready k t \<longleftrightarrow> \<not> (is_thread_prevented_from_running k t \<or> is_thread_timeout_active k t)"

definition mark_thread_as_pending :: "tid \<Rightarrow> 'a kernel_scheme \<Rightarrow> 'a kernel_scheme" where
  "mark_thread_as_pending t k = upd_thread t (thread_state_update (\<lambda>s. s OR THREAD_PENDING)) k"

definition mark_thread_as_not_pending :: "tid \<Rightarrow> 'a kernel_scheme \<Rightarrow> 'a kernel_scheme" where
  "mark_thread_as_not_pending t k =
     upd_thread t (thread_state_update (\<lambda>s. s AND NOT THREAD_PENDING)) k"

definition is_thread_pending :: "'a kernel_scheme \<Rightarrow> tid \<Rightarrow> bool" where
  "is_thread_pending k t \<longleftrightarrow> thread_state (threads k t) AND THREAD_PENDING \<noteq> 0"

definition is_thread_dummy :: "'a kernel_scheme \<Rightarrow> tid \<Rightarrow> bool" where
  "is_thread_dummy k t \<longleftrightarrow> is_thread_state_set k t THREAD_DUMMY"

definition mark_thread_as_polling :: "tid \<Rightarrow> 'a kernel_scheme \<Rightarrow> 'a kernel_scheme" where
  "mark_thread_as_polling t k = set_thread_states t THREAD_POLLING k"

definition mark_thread_as_not_polling :: "tid \<Rightarrow> 'a kernel_scheme \<Rightarrow> 'a kernel_scheme" where
  "mark_thread_as_not_polling t k = reset_thread_states t THREAD_POLLING k"

definition is_thread_polling :: "'a kernel_scheme \<Rightarrow> tid \<Rightarrow> bool" where
  "is_thread_polling k t \<longleftrightarrow> is_thread_state_set k t THREAD_POLLING"

definition mark_thread_as_started :: "tid \<Rightarrow> 'a kernel_scheme \<Rightarrow> 'a kernel_scheme" where
  "mark_thread_as_started t k =
     upd_thread t (thread_state_update (\<lambda>s. s AND NOT THREAD_PRESTART)) k"

lemmas [kdefs] = upd_thread_def upd_timeout_def mark_thread_as_suspended_def
  mark_thread_as_not_suspended_def mark_thread_as_pending_def mark_thread_as_not_pending_def
  mark_thread_as_polling_def mark_thread_as_not_polling_def mark_thread_as_started_def
  set_thread_states_def reset_thread_states_def

section \<open>Priorities and preemption (\<^verbatim>\<open>ksched.h\<close>)\<close>

definition is_prio1_higher_than_prio2 :: "int \<Rightarrow> int \<Rightarrow> bool" where
  "is_prio1_higher_than_prio2 prio1 prio2 \<longleftrightarrow> prio1 < prio2"

definition is_prio1_higher_than_or_equal_to_prio2 :: "int \<Rightarrow> int \<Rightarrow> bool" where
  "is_prio1_higher_than_or_equal_to_prio2 prio1 prio2 \<longleftrightarrow> prio1 \<le> prio2"

definition is_prio1_lower_than_or_equal_to_prio2 :: "int \<Rightarrow> int \<Rightarrow> bool" where
  "is_prio1_lower_than_or_equal_to_prio2 prio1 prio2 \<longleftrightarrow> prio1 \<ge> prio2"

definition is_prio1_lower_than_prio2 :: "int \<Rightarrow> int \<Rightarrow> bool" where
  "is_prio1_lower_than_prio2 prio1 prio2 \<longleftrightarrow> prio1 > prio2"

definition is_prio_higher_or_equal :: "int \<Rightarrow> int \<Rightarrow> bool" where
  "is_prio_higher_or_equal prio1 prio2 \<longleftrightarrow> is_prio1_higher_than_or_equal_to_prio2 prio1 prio2"

definition is_prio_lower_or_equal :: "int \<Rightarrow> int \<Rightarrow> bool" where
  "is_prio_lower_or_equal prio1 prio2 \<longleftrightarrow> is_prio1_lower_than_or_equal_to_prio2 prio1 prio2"

definition is_prio_lower :: "int \<Rightarrow> int \<Rightarrow> bool" where
  "is_prio_lower prio1 prio2 \<longleftrightarrow> is_prio1_lower_than_prio2 prio1 prio2"

definition is_prio_higher :: "int \<Rightarrow> int \<Rightarrow> bool" where
  "is_prio_higher p test_prio \<longleftrightarrow> is_prio1_higher_than_prio2 p test_prio"

definition VALID_PRIO :: "int \<Rightarrow> bool \<Rightarrow> bool" where
  "VALID_PRIO p entry_is_idle \<longleftrightarrow>
     p = K_IDLE_PRIO \<and> entry_is_idle \<or>
     is_prio_higher_or_equal p K_LOWEST_APPLICATION_THREAD_PRIO \<and>
     is_prio_lower_or_equal p K_HIGHEST_APPLICATION_THREAD_PRIO"

definition is_t1_higher_prio_than_t2 :: "'a kernel_scheme \<Rightarrow> tid \<Rightarrow> tid \<Rightarrow> bool" where
  "is_t1_higher_prio_than_t2 k t1 t2 \<longleftrightarrow>
     is_prio1_higher_than_prio2 (prio (threads k t1)) (prio (threads k t2))"

definition is_higher_prio_than_current :: "'a kernel_scheme \<Rightarrow> tid \<Rightarrow> bool" where
  "is_higher_prio_than_current k t \<longleftrightarrow> is_t1_higher_prio_than_t2 k t (current k)"

definition is_coop :: "'a kernel_scheme \<Rightarrow> tid \<Rightarrow> bool" where
  "is_coop k t \<longleftrightarrow> prio (threads k t) < 0"

text \<open>
  The union of \<^verbatim>\<open>struct _thread_base\<close>: on a little-endian machine \<^verbatim>\<open>preempt\<close> has
  \<^verbatim>\<open>sched_locked\<close> in its high byte and \<^verbatim>\<open>prio\<close> in its low byte.
\<close>

definition preempt :: "k_thread \<Rightarrow> u16" where
  "preempt th = push_bit 8 (ucast (sched_locked th)) OR ucast (word_of_int (prio th) :: u8)"

definition is_preempt :: "'a kernel_scheme \<Rightarrow> tid \<Rightarrow> bool" where
  "is_preempt k t \<longleftrightarrow> preempt (threads k t) \<le> PREEMPT_THRESHOLD"

definition is_in_isr :: "'a kernel_scheme \<Rightarrow> bool" where
  "is_in_isr k \<longleftrightarrow> nested k \<noteq> 0"

definition is_current_execution_context_preemptible :: "'a kernel_scheme \<Rightarrow> bool" where
  "is_current_execution_context_preemptible k \<longleftrightarrow> \<not> is_in_isr k \<and> is_preempt k (current k)"

definition is_under_prio_ceiling :: "int \<Rightarrow> bool" where
  "is_under_prio_ceiling p \<longleftrightarrow> p \<ge> CONFIG_PRIORITY_CEILING"

definition get_new_prio_with_ceiling :: "int \<Rightarrow> int" where
  "get_new_prio_with_ceiling p = (if is_under_prio_ceiling p then p else CONFIG_PRIORITY_CEILING)"

definition is_idle_thread_ptr :: "'a kernel_scheme \<Rightarrow> tid \<Rightarrow> bool" where
  "is_idle_thread_ptr k t \<longleftrightarrow> t = idle_thread k"

definition get_next_ready_thread :: "'a kernel_scheme \<Rightarrow> tid" where
  "get_next_ready_thread k = cache k"

definition set_thread_return_value :: "tid \<Rightarrow> int \<Rightarrow> 'a kernel_scheme \<Rightarrow> 'a kernel_scheme" where
  "set_thread_return_value t v k = upd_thread t (swap_retval_update (\<lambda>_. v)) k"

definition set_thread_return_value_with_data ::
  "tid \<Rightarrow> int \<Rightarrow> nat \<Rightarrow> 'a kernel_scheme \<Rightarrow> 'a kernel_scheme" where
  "set_thread_return_value_with_data t v data k =
     upd_thread t (swap_data_update (\<lambda>_. data)) (set_thread_return_value t v k)"

lemmas prio_defs = is_prio1_higher_than_prio2_def is_prio1_higher_than_or_equal_to_prio2_def
  is_prio1_lower_than_or_equal_to_prio2_def is_prio_higher_def is_prio1_lower_than_prio2_def
  is_prio_higher_or_equal_def is_prio_lower_or_equal_def is_prio_lower_def is_t1_higher_prio_than_t2_def
  is_higher_prio_than_current_def

section \<open>Facts on state bits\<close>

text \<open>The bits of the state byte: 0 dummy, 1 pending, 2 not started, 3 dead, 4 suspended, 5 polling.\<close>

lemma bit_push_bit_one: "m < 8 \<Longrightarrow> bit (push_bit m (1::u8)) n \<longleftrightarrow> n = m"
  by (auto simp: bit_exp_iff)

lemma bit_thread_states [simp]:
  "bit THREAD_DUMMY n \<longleftrightarrow> n = 0" "bit THREAD_PENDING n \<longleftrightarrow> n = 1"
  "bit THREAD_PRESTART n \<longleftrightarrow> n = 2" "bit THREAD_DEAD n \<longleftrightarrow> n = 3"
  "bit THREAD_SUSPENDED n \<longleftrightarrow> n = 4" "bit THREAD_POLLING n \<longleftrightarrow> n = 5"
  unfolding thread_state_defs by (rule bit_push_bit_one; simp)+

lemma and_single_bit:
  fixes x m :: "'b::len word"
  assumes "\<And>i. bit m i \<longleftrightarrow> i = n"
  shows "x AND m \<noteq> 0 \<longleftrightarrow> bit x n"
proof -
  have "x AND m = 0 \<longleftrightarrow> (\<forall>i. \<not> bit (x AND m) i)"
    by (auto intro: bit_eqI)
  with assms show ?thesis by (auto simp: bit_and_iff)
qed

lemma and_thread_states [simp]:
  "(x AND THREAD_DUMMY = 0) = (\<not> bit x 0)" "(x AND THREAD_PENDING = 0) = (\<not> bit x 1)"
  "(x AND THREAD_PRESTART = 0) = (\<not> bit x 2)" "(x AND THREAD_DEAD = 0) = (\<not> bit x 3)"
  "(x AND THREAD_SUSPENDED = 0) = (\<not> bit x 4)" "(x AND THREAD_POLLING = 0) = (\<not> bit x 5)"
  using and_single_bit [of THREAD_DUMMY 0 x] and_single_bit [of THREAD_PENDING 1 x]
    and_single_bit [of THREAD_PRESTART 2 x] and_single_bit [of THREAD_DEAD 3 x]
    and_single_bit [of THREAD_SUSPENDED 4 x] and_single_bit [of THREAD_POLLING 5 x] by auto

lemma bit_and_not_iff_word: "bit (x AND NOT m) n \<longleftrightarrow> bit x n \<and> \<not> bit m n" for x m :: "'b::len word"
  by (auto simp: bit_and_iff bit_not_iff intro: bit_imp_le_length)

abbreviation st :: "'a kernel_scheme \<Rightarrow> tid \<Rightarrow> nat \<Rightarrow> bool" where
  "st k t n \<equiv> bit (thread_state (threads k t)) n"

lemma is_thread_pending_iff [simp]: "is_thread_pending k t \<longleftrightarrow> st k t 1"
  by (simp add: is_thread_pending_def)

lemma is_thread_prevented_iff:
  "is_thread_prevented_from_running k t \<longleftrightarrow> st k t 0 \<or> st k t 1 \<or> st k t 2 \<or> st k t 3 \<or> st k t 4"
proof -
  have *: "x AND (a OR b) = 0 \<longleftrightarrow> x AND a = 0 \<and> x AND b = 0" for x a b :: u8
    by (simp add: bit.conj_disj_distrib or_eq_0_iff)
  show ?thesis unfolding is_thread_prevented_from_running_def by (auto simp: *)
qed

lemma is_thread_ready_iff:
  "is_thread_ready k t \<longleftrightarrow> \<not> st k t 0 \<and> \<not> st k t 1 \<and> \<not> st k t 2 \<and> \<not> st k t 3 \<and> \<not> st k t 4 \<and>
     delta_ticks_from_prev (timeouts k (ThreadTO t)) = INACTIVE"
  by (auto simp: is_thread_ready_def is_thread_prevented_iff is_thread_timeout_active_def)

lemma has_thread_started_iff: "has_thread_started k t \<longleftrightarrow> \<not> st k t 2"
  by (simp add: has_thread_started_def)

section \<open>Preemptibility\<close>

text \<open>
  What the comment of \<^verbatim>\<open>struct _thread_base\<close> says of the bundled value: a thread is
  preemptible exactly when it does not hold the scheduler lock and its priority is not
  a cooperative one.
\<close>

lemma ucast_bytes_disjoint:
  fixes s p :: u8
  shows "\<not> bit (push_bit 8 (ucast s :: u16)) n \<or> \<not> bit (ucast p :: u16) n"
proof (cases "n < 8")
  case False
  then have "\<not> bit p n" by (auto dest: bit_imp_le_length)
  then show ?thesis by (simp add: bit_unsigned_iff)
qed (simp add: bit_push_bit_iff)

lemma uint_preempt:
  "uint (preempt th) = uint (sched_locked th) * 256 + uint (word_of_int (prio th) :: u8)"
proof -
  let ?s = "sched_locked th" and ?p = "word_of_int (prio th) :: u8"
  have "preempt th = push_bit 8 (ucast ?s) + ucast ?p"
    unfolding preempt_def by (rule disjunctive_add [symmetric]) (rule ucast_bytes_disjoint)
  also have "\<dots> = word_of_int (uint ?s * 256 + uint ?p)"
    unfolding push_bit_eq_mult ucast_eq by simp
  finally have "uint (preempt th) = (uint ?s * 256 + uint ?p) mod 2 ^ 16"
    by (simp only: uint_word_of_int) simp
  moreover have "0 \<le> uint ?s * 256 + uint ?p" "uint ?s * 256 + uint ?p < 2 ^ 16"
    using uint_lt2p [of ?s] uint_lt2p [of ?p] by auto
  ultimately show ?thesis by (simp only: mod_pos_pos_trivial)
qed

lemma is_preempt_iff:
  assumes "- 128 \<le> prio (threads k t)" "prio (threads k t) < 128"
  shows "is_preempt k t \<longleftrightarrow> sched_locked (threads k t) = 0 \<and> 0 \<le> prio (threads k t)"
proof -
  let ?s = "sched_locked (threads k t)" and ?p = "prio (threads k t)"
  have s: "?s = 0 \<longleftrightarrow> uint ?s = 0" by (simp add: uint_0_iff)
  have s1: "uint ?s = 0 \<or> 1 \<le> uint ?s" using uint_ge_0 [of ?s] by linarith
  have p: "uint (word_of_int ?p :: u8) = ?p mod 256" by (simp add: uint_word_of_int)
  have "is_preempt k t \<longleftrightarrow> uint ?s * 256 + ?p mod 256 \<le> 127"
    by (simp add: is_preempt_def PREEMPT_THRESHOLD_def word_le_def uint_preempt p)
  also have "\<dots> \<longleftrightarrow> uint ?s = 0 \<and> 0 \<le> ?p"
  proof (cases "0 \<le> ?p")
    case True
    then have "?p mod 256 = ?p" using assms by simp
    with True assms s1 show ?thesis by auto
  next
    case False
    then have "?p mod 256 = ?p + 256"
      using assms mod_pos_pos_trivial [of "?p + 256" 256] by simp
    with False assms s1 show ?thesis by auto
  qed
  finally show ?thesis using s by simp
qed

section \<open>The queues in memory\<close>

text \<open>
  The addresses a kernel list uses: its head and the \<^verbatim>\<open>k_q_node\<close> of the threads on it.
  \<open>krepr h k\<close>: the heap \<open>h\<close> holds the queues of \<open>k\<close>. The three updates of the
  queues are what the operations of \<^verbatim>\<open>dlist.h\<close> do to them.
\<close>

datatype kaddr = QHead qaddr | KQNode tid

definition kqueues :: "'a kernel_scheme \<Rightarrow> kaddr \<Rightarrow> kaddr list" where
  "kqueues k a = (case a of QHead q \<Rightarrow> map KQNode (queues k q) | KQNode t \<Rightarrow> [])"

definition krepr :: "kaddr dheap \<Rightarrow> 'a kernel_scheme \<Rightarrow> bool" where
  "krepr h k \<longleftrightarrow> dlists h (range QHead) (kqueues k)"

lemma inj_KQNode: "inj KQNode"
  by (simp add: inj_def)

lemma remove1_map_KQNode: "remove1 (KQNode t) (map KQNode xs) = map KQNode (remove1 t xs)"
  by (induction xs) auto

lemma krepr_distinct: "krepr h k \<Longrightarrow> distinct (queues k q)"
proof -
  assume "krepr h k"
  then have "dlist h (QHead q) (kqueues k (QHead q))" by (simp add: krepr_def dlists_def)
  then show ?thesis by (simp add: dlist_def kqueues_def distinct_map)
qed

lemma krepr_disjoint: "krepr h k \<Longrightarrow> t \<in> set (queues k q) \<Longrightarrow> t \<in> set (queues k q') \<Longrightarrow> q = q'"
proof (rule ccontr)
  assume r: "krepr h k" and t: "t \<in> set (queues k q)" "t \<in> set (queues k q')" and ne: "q \<noteq> q'"
  from r ne have "set (kqueues k (QHead q)) \<inter> set (kqueues k (QHead q')) = {}"
    by (simp add: krepr_def dlists_def)
  with t show False by (auto simp: kqueues_def)
qed

lemma kqueues_upd:
  "queues k' = (queues k)(q := xs) \<Longrightarrow> kqueues k' = (kqueues k)(QHead q := map KQNode xs)"
  by (rule ext) (auto simp: kqueues_def split: kaddr.splits)

lemma unlinked_KQNode:
  "(\<And>q. t \<notin> set (queues k q)) \<Longrightarrow> unlinked (range QHead) (kqueues k) (KQNode t)"
  by (auto simp: unlinked_def kqueues_def)

lemma krepr_append:
  assumes "krepr h k" and "\<And>q. t \<notin> set (queues k q)"
  shows "krepr (sys_dlist_append (QHead q) (KQNode t) h) (queue_append q t k)"
proof -
  have "kqueues (queue_append q t k) = (kqueues k)(QHead q := kqueues k (QHead q) @ [KQNode t])"
    by (subst kqueues_upd [of _ k q "queues k q @ [t]"]) (simp_all add: queue_append_def kqueues_def)
  with assms show ?thesis unfolding krepr_def by (auto intro!: dlists_append unlinked_KQNode)
qed

lemma list_insert_before_split:
  "p \<notin> set xs \<Longrightarrow> list_insert_before p x (xs @ p # ys) = xs @ x # p # ys"
  by (induction xs) auto

lemma krepr_insert_before:
  assumes r: "krepr h k" and t: "\<And>q. t \<notin> set (queues k q)" and p: "p \<in> set (queues k q)"
  shows "krepr (sys_dlist_insert_before (QHead q) (Some (KQNode p)) (KQNode t) h)
           (queue_insert_before q p t k)"
proof -
  from split_list_first [OF p] obtain xs ys where e: "queues k q = xs @ p # ys" "p \<notin> set xs" by auto
  then have "kqueues (queue_insert_before q p t k) =
      (kqueues k)(QHead q := map KQNode xs @ KQNode t # KQNode p # map KQNode ys)"
    by (subst kqueues_upd [of _ k q "xs @ t # p # ys"])
       (simp_all add: queue_insert_before_def list_insert_before_split)
  moreover have "kqueues k (QHead q) = map KQNode xs @ KQNode p # map KQNode ys"
    using e by (simp add: kqueues_def)
  ultimately show ?thesis
    using r t unfolding krepr_def by (auto intro!: dlists_insert_before unlinked_KQNode)
qed

lemma krepr_remove:
  assumes r: "krepr h k" and t: "t \<in> set (queues k q)"
  shows "krepr (sys_dlist_remove (KQNode t) h) (queue_remove t k)"
proof -
  have "queues (queue_remove t k) = (queues k)(q := remove1 t (queues k q))"
  proof (rule ext)
    fix q'
    show "queues (queue_remove t k) q' = ((queues k)(q := remove1 t (queues k q))) q'"
      by (cases "q = q'")
         (auto simp: queue_remove_def intro!: remove1_idem dest: krepr_disjoint [OF r t])
  qed
  then have "kqueues (queue_remove t k) =
      (kqueues k)(QHead q := remove1 (KQNode t) (kqueues k (QHead q)))"
    by (subst kqueues_upd) (simp_all add: kqueues_def remove1_map_KQNode)
  moreover have "KQNode t \<in> set (kqueues k (QHead q))" using t by (simp add: kqueues_def)
  ultimately show ?thesis using r unfolding krepr_def by (auto intro!: dlists_remove)
qed

end
