(* ===== verification/Ready_Queue.thy ===== *)
theory Ready_Queue
  imports Kernel_State
begin

text \<open>
  The ready queue (\<^verbatim>\<open>kernel/sched.c\<close>, \<^verbatim>\<open>kernel/include/ksched.h\<close>): one list of threads
  per priority, a bitmap of the priorities that have a ready thread, and a cache of the
  next thread to run. The specification of all three is one list, \<open>ready_list\<close>, the
  ready threads in the order they are to be run: putting a thread on the queue inserts
  it behind the threads of its priority, taking it off removes it, and the cache is the
  head of the list.
\<close>

section \<open>Operations\<close>

definition get_ready_q_prio_bmap_index :: "int \<Rightarrow> nat" where
  "get_ready_q_prio_bmap_index p = nat (drop_bit 5 (p + NUM_COOP_PRIO))"

definition get_ready_q_prio_bit :: "int \<Rightarrow> u32" where
  "get_ready_q_prio_bit p = push_bit (nat ((p + NUM_COOP_PRIO) AND 0x1f)) 1"

definition get_ready_q_q_index :: "int \<Rightarrow> nat" where
  "get_ready_q_q_index p = nat (p + NUM_COOP_PRIO)"

definition find_lsb_set :: "u32 \<Rightarrow> int" where
  "find_lsb_set opr = (case find (bit opr) [0..<32] of None \<Rightarrow> 0 | Some i \<Rightarrow> int i + 1)"

definition get_highest_ready_prio :: "'a kernel_scheme \<Rightarrow> int" where
  "get_highest_ready_prio k =
     (let bitmap = (0 :: int);
          ready_range = prio_bmap k ! 0;
          abs_prio = (find_lsb_set ready_range - 1) + push_bit 5 bitmap
      in abs_prio - NUM_COOP_PRIO)"

definition set_ready_q_prio_bit :: "int \<Rightarrow> 'a kernel_scheme \<Rightarrow> 'a kernel_scheme" where
  "set_ready_q_prio_bit p k =
     (let bmap_index = get_ready_q_prio_bmap_index p
      in k\<lparr>prio_bmap := (prio_bmap k)
             [bmap_index := prio_bmap k ! bmap_index OR get_ready_q_prio_bit p]\<rparr>)"

definition clear_ready_q_prio_bit :: "int \<Rightarrow> 'a kernel_scheme \<Rightarrow> 'a kernel_scheme" where
  "clear_ready_q_prio_bit p k =
     (let bmap_index = get_ready_q_prio_bmap_index p
      in k\<lparr>prio_bmap := (prio_bmap k)
             [bmap_index := prio_bmap k ! bmap_index AND NOT (get_ready_q_prio_bit p)]\<rparr>)"

definition get_ready_q_head :: "'a kernel_scheme \<Rightarrow> tid" where
  "get_ready_q_head k =
     (let p = get_highest_ready_prio k;
          q_index = get_ready_q_q_index p
      in hd (queues k (ReadyQ q_index)))"

definition add_thread_to_ready_q :: "tid \<Rightarrow> 'a kernel_scheme \<Rightarrow> 'a kernel_scheme" where
  "add_thread_to_ready_q t k =
     (let q_index = get_ready_q_q_index (prio (threads k t));
          k1 = set_ready_q_prio_bit (prio (threads k t)) k;
          k2 = queue_append (ReadyQ q_index) t k1
      in k2\<lparr>cache := (if is_t1_higher_prio_than_t2 k2 t (cache k2) then t else cache k2)\<rparr>)"

definition remove_thread_from_ready_q :: "tid \<Rightarrow> 'a kernel_scheme \<Rightarrow> 'a kernel_scheme" where
  "remove_thread_from_ready_q t k =
     (let q_index = get_ready_q_q_index (prio (threads k t));
          k1 = queue_remove t k;
          k2 = (if queues k1 (ReadyQ q_index) = [] then clear_ready_q_prio_bit (prio (threads k t)) k1
                else k1)
      in k2\<lparr>cache := (if cache k2 = t then get_ready_q_head k2 else cache k2)\<rparr>)"

definition move_thread_to_end_of_prio_q :: "tid \<Rightarrow> 'a kernel_scheme \<Rightarrow> 'a kernel_scheme" where
  "move_thread_to_end_of_prio_q t k =
     (let q_index = get_ready_q_q_index (prio (threads k t))
      in if queues k (ReadyQ q_index) \<noteq> [] \<and> last (queues k (ReadyQ q_index)) = t then k
         else (let k1 = queue_remove t k;
                   k2 = queue_append (ReadyQ q_index) t k1
               in k2\<lparr>cache := (if cache k2 = t then get_ready_q_head k2 else cache k2)\<rparr>))"

definition must_switch_threads' :: "'a kernel_scheme \<Rightarrow> bool" where
  "must_switch_threads' k \<longleftrightarrow>
     is_prio_higher (get_highest_ready_prio k) (prio (threads k (current k)))"

definition must_switch_threads :: "'a kernel_scheme \<Rightarrow> bool" where
  "must_switch_threads k \<longleftrightarrow> is_preempt k (current k) \<and> must_switch_threads' k"

section \<open>Specification\<close>

definition ready_list :: "'a kernel_scheme \<Rightarrow> tid list" where
  "ready_list k = concat (map (\<lambda>i. queues k (ReadyQ i)) [0..<32])"

text \<open>The bitmap agrees with the queues, and each thread is on the queue of its priority.\<close>

definition rq_shape :: "'a kernel_scheme \<Rightarrow> bool" where
  "rq_shape k \<longleftrightarrow>
     length (prio_bmap k) = 1 \<and>
     (\<forall>i < 32. bit (prio_bmap k ! 0) i \<longleftrightarrow> queues k (ReadyQ i) \<noteq> []) \<and>
     (\<forall>i. \<forall>t \<in> set (queues k (ReadyQ i)). i < 32 \<and> prio (threads k t) = int i - NUM_COOP_PRIO) \<and>
     (\<forall>i. distinct (queues k (ReadyQ i)))"

text \<open>The cache is the first thread of the list.\<close>

definition rq_ok :: "'a kernel_scheme \<Rightarrow> bool" where
  "rq_ok k \<longleftrightarrow> rq_shape k \<and> ready_list k \<noteq> [] \<and> cache k = hd (ready_list k)"

definition prio_ok :: "int \<Rightarrow> bool" where
  "prio_ok p \<longleftrightarrow> K_HIGHEST_THREAD_PRIO \<le> p \<and> p \<le> K_LOWEST_THREAD_PRIO"

lemmas prio_ok_simps = prio_ok_def prio_consts

section \<open>Indices and bits\<close>

lemma prio_index:
  assumes "prio_ok p"
  shows "get_ready_q_prio_bmap_index p = 0" and "get_ready_q_q_index p < 32"
    and "int (get_ready_q_q_index p) = p + NUM_COOP_PRIO"
  using assms by (auto simp: get_ready_q_prio_bmap_index_def get_ready_q_q_index_def
      prio_ok_simps drop_bit_eq_div)

lemma prio_bit:
  assumes "prio_ok p"
  shows "bit (get_ready_q_prio_bit p) i \<longleftrightarrow> i = get_ready_q_q_index p"
proof -
  have "(0x1f :: int) = mask 5" by (simp add: mask_eq_exp_minus_1)
  then have "(p + 16) AND 0x1f = (p + 16) mod 32"
    by (simp only: take_bit_eq_mask [symmetric] take_bit_eq_mod) simp
  also have "\<dots> = p + 16" using assms by (auto simp: prio_ok_simps)
  finally have "get_ready_q_prio_bit p = 2 ^ get_ready_q_q_index p"
    by (simp add: get_ready_q_prio_bit_def get_ready_q_q_index_def NUM_COOP_PRIO_def)
  then show ?thesis using prio_index(2) [OF assms] by (auto simp: bit_exp_iff)
qed

section \<open>The head of the list\<close>

lemma hd_concat_find:
  "find (\<lambda>i. f i \<noteq> []) xs = Some i \<Longrightarrow> hd (concat (map f xs)) = hd (f i) \<and> f i \<noteq> []"
  by (induction xs) (auto split: if_splits)

lemma concat_find_None: "find (\<lambda>i. f i \<noteq> []) xs = None \<longleftrightarrow> concat (map f xs) = []"
  by (auto simp: find_None_iff)

lemma find_cong_set: "(\<And>x. x \<in> set xs \<Longrightarrow> P x = Q x) \<Longrightarrow> find P xs = find Q xs"
  by (induction xs) auto

lemma highest_ready:
  assumes "rq_shape k" and "ready_list k \<noteq> []"
  shows "get_highest_ready_prio k = prio (threads k (hd (ready_list k)))"
    and "get_ready_q_head k = hd (ready_list k)"
proof -
  let ?f = "\<lambda>i. queues k (ReadyQ i)"
  have eq: "find (bit (prio_bmap k ! 0)) [0..<32] = find (\<lambda>i. ?f i \<noteq> []) [0..<32]"
    using assms(1) by (intro find_cong_set) (auto simp: rq_shape_def)
  from assms(2) obtain i where i: "find (\<lambda>i. ?f i \<noteq> []) [0..<32] = Some i"
    unfolding ready_list_def by (metis concat_find_None not_None_eq)
  from hd_concat_find [OF i] have h: "hd (ready_list k) = hd (?f i)" "?f i \<noteq> []"
    by (simp_all add: ready_list_def)
  from h have "hd (?f i) \<in> set (?f i)" by simp
  with assms(1) have "prio (threads k (hd (?f i))) = int i - NUM_COOP_PRIO"
    by (simp add: rq_shape_def)
  moreover have p: "get_highest_ready_prio k = int i - NUM_COOP_PRIO"
    by (simp add: get_highest_ready_prio_def find_lsb_set_def eq i)
  ultimately show "get_highest_ready_prio k = prio (threads k (hd (ready_list k)))"
    by (simp add: h)
  show "get_ready_q_head k = hd (ready_list k)"
    by (simp add: get_ready_q_head_def p get_ready_q_q_index_def h)
qed

section \<open>Order of the list\<close>

lemma upt_cut: "i < 32 \<Longrightarrow> [0..<32] = [0..<i] @ i # [Suc i..<32]" for i :: nat
  using upt_add_eq_append [of 0 i "32 - i"] by (simp add: upt_conv_Cons)

lemma ready_list_cut:
  assumes "i < 32"
  shows "ready_list k = concat (map (\<lambda>i. queues k (ReadyQ i)) [0..<i]) @ queues k (ReadyQ i) @
           concat (map (\<lambda>i. queues k (ReadyQ i)) [Suc i..<32])"
  unfolding ready_list_def upt_cut [OF assms] by simp

lemma rq_shapeD:
  assumes "rq_shape k" "t \<in> set (queues k (ReadyQ i))"
  shows "i < 32" and "prio (threads k t) = int i - NUM_COOP_PRIO"
    and "get_ready_q_q_index (prio (threads k t)) = i"
  using assms by (simp_all add: rq_shape_def get_ready_q_q_index_def)

lemma rq_shape_bit:
  "rq_shape k \<Longrightarrow> i < 32 \<Longrightarrow> bit (prio_bmap k ! 0) i \<longleftrightarrow> queues k (ReadyQ i) \<noteq> []"
  "rq_shape k \<Longrightarrow> distinct (queues k (ReadyQ i))"
  "rq_shape k \<Longrightarrow> length (prio_bmap k) = 1"
  by (simp_all add: rq_shape_def)

lemma set_ready_list_iff:
  assumes "rq_shape k"
  shows "t \<in> set (ready_list k) \<longleftrightarrow> (\<exists>i. t \<in> set (queues k (ReadyQ i)))"
  using rq_shapeD(1) [OF assms] by (auto simp: ready_list_def)

lemma set_ready_list:
  assumes "rq_shape k"
  shows "t \<in> set (ready_list k) \<longleftrightarrow>
           t \<in> set (queues k (ReadyQ (get_ready_q_q_index (prio (threads k t)))))"
  unfolding set_ready_list_iff [OF assms] using rq_shapeD(3) [OF assms] by metis

lemma ready_list_prio:
  assumes "rq_shape k" "t \<in> set (ready_list k)"
  shows "prio_ok (prio (threads k t))"
proof -
  from assms obtain i where "t \<in> set (queues k (ReadyQ i))" by (auto simp: set_ready_list_iff)
  from rq_shapeD [OF assms(1) this] show ?thesis by (simp add: prio_ok_simps)
qed

lemma sorted_concat_upt:
  assumes "\<forall>i < n. \<forall>t \<in> set (f i). g t = int i - c"
  shows "sorted_wrt (\<lambda>a b. g a \<le> g b) (concat (map f [0..<n]))"
  using assms
proof (induction n)
  case (Suc n)
  then have "\<forall>a \<in> set (f n). \<forall>b \<in> set (f n). g a \<le> g b" by auto
  then have "sorted_wrt (\<lambda>a b. g a \<le> g b) (f n)"
    by (simp add: sorted_wrt_iff_nth_less)
  moreover have "g a \<le> g b" if "i < n" "a \<in> set (f i)" "b \<in> set (f n)" for i a b
  proof -
    from that Suc.prems have "g a = int i - c" "g b = int n - c" by auto
    with that show ?thesis by simp
  qed
  ultimately show ?case using Suc by (auto simp: sorted_wrt_append)
qed simp

lemma ready_list_sorted:
  "rq_shape k \<Longrightarrow> sorted_wrt (\<lambda>a b. prio (threads k a) \<le> prio (threads k b)) (ready_list k)"
  unfolding ready_list_def by (rule sorted_concat_upt [where c = NUM_COOP_PRIO]) (simp add: rq_shape_def)

lemma distinct_concat_upt:
  assumes "\<forall>i < n. (\<forall>t \<in> set (f i). g t = int i - c) \<and> distinct (f i)"
  shows "distinct (concat (map f [0..<n]))"
  using assms
proof (induction n)
  case (Suc n)
  have "t \<notin> set (f i)" if "t \<in> set (f n)" "i < n" for t i
  proof
    assume "t \<in> set (f i)"
    with that Suc.prems have "g t = int i - c" "g t = int n - c" by auto
    with that show False by simp
  qed
  with Suc show ?case by auto
qed simp

lemma ready_list_distinct: "rq_shape k \<Longrightarrow> distinct (ready_list k)"
  unfolding ready_list_def
  by (rule distinct_concat_upt [where g = "\<lambda>t. prio (threads k t)" and c = NUM_COOP_PRIO])
     (simp add: rq_shape_def)

lemma highest_ready_minimal:
  assumes "rq_shape k" "t \<in> set (ready_list k)"
  shows "prio (threads k (hd (ready_list k))) \<le> prio (threads k t)"
  using ready_list_sorted [OF assms(1)] assms(2) by (cases "ready_list k") auto

section \<open>What the operations leave alone\<close>

text \<open>Everything of the state but the queues, the bitmap and the cache.\<close>

definition same_but_ready :: "'a kernel_scheme \<Rightarrow> 'a kernel_scheme \<Rightarrow> bool" where
  "same_but_ready k k' \<longleftrightarrow>
     k' = k\<lparr>queues := queues k', prio_bmap := prio_bmap k', cache := cache k'\<rparr>"

lemma same_but_readyD:
  assumes "same_but_ready k k'"
  shows "threads k' = threads k" "timeouts k' = timeouts k" "nested k' = nested k"
    "current k' = current k" "timeout_q k' = timeout_q k" "handling_timeouts k' = handling_timeouts k"
    "idle_thread k' = idle_thread k" "kernel.more k' = kernel.more k"
    "time_slice_duration k' = time_slice_duration k" "time_slice_elapsed k' = time_slice_elapsed k"
    "time_slice_prio_ceiling k' = time_slice_prio_ceiling k"
    "sys_clock_tick_count k' = sys_clock_tick_count k"
proof -
  from assms obtain q b c where "k' = k\<lparr>queues := q, prio_bmap := b, cache := c\<rparr>"
    unfolding same_but_ready_def by blast
  then show "threads k' = threads k" "timeouts k' = timeouts k" "nested k' = nested k"
    "current k' = current k" "timeout_q k' = timeout_q k" "handling_timeouts k' = handling_timeouts k"
    "idle_thread k' = idle_thread k" "kernel.more k' = kernel.more k"
    "time_slice_duration k' = time_slice_duration k" "time_slice_elapsed k' = time_slice_elapsed k"
    "time_slice_prio_ceiling k' = time_slice_prio_ceiling k"
    "sys_clock_tick_count k' = sys_clock_tick_count k" by simp_all
qed

lemma same_add: "same_but_ready k (add_thread_to_ready_q t k)"
  by (simp add: same_but_ready_def add_thread_to_ready_q_def set_ready_q_prio_bit_def
      queue_append_def Let_def)

lemma same_remove: "same_but_ready k (remove_thread_from_ready_q t k)"
  by (simp add: same_but_ready_def remove_thread_from_ready_q_def clear_ready_q_prio_bit_def
      queue_remove_def Let_def)

lemma same_move: "same_but_ready k (move_thread_to_end_of_prio_q t k)"
  by (simp add: same_but_ready_def move_thread_to_end_of_prio_q_def
      queue_remove_def queue_append_def Let_def)

lemmas add_same [simp, kframe] = same_but_readyD [OF same_add]
lemmas remove_same [simp, kframe] = same_but_readyD [OF same_remove]
lemmas move_same [simp, kframe] = same_but_readyD [OF same_move]

lemma wait_queues_add [simp]: "queues (add_thread_to_ready_q t k) (WaitQ w) = queues k (WaitQ w)"
  by (simp add: add_thread_to_ready_q_def set_ready_q_prio_bit_def queue_append_def Let_def)

lemma wait_queues_remove [simp]:
  "queues (remove_thread_from_ready_q t k) (WaitQ w) = remove1 t (queues k (WaitQ w))"
  by (simp add: remove_thread_from_ready_q_def clear_ready_q_prio_bit_def queue_remove_def Let_def)

section \<open>Refinement\<close>

text \<open>An operation that changes one ready queue and its bit.\<close>

lemma rq_shape_upd:
  assumes k: "rq_shape k" and i: "i < 32"
    and q: "\<And>j. queues k' (ReadyQ j) = (if j = i then xs else queues k (ReadyQ j))"
    and len: "length (prio_bmap k') = 1"
    and b: "\<And>j. j < 32 \<Longrightarrow>
        bit (prio_bmap k' ! 0) j \<longleftrightarrow> (if j = i then xs \<noteq> [] else bit (prio_bmap k ! 0) j)"
    and p: "\<And>t. t \<in> set xs \<Longrightarrow> prio (threads k t) = int i - NUM_COOP_PRIO"
    and d: "distinct xs" and t: "threads k' = threads k"
  shows "rq_shape k'"
    and "ready_list k' = concat (map (\<lambda>i. queues k (ReadyQ i)) [0..<i]) @ xs @
           concat (map (\<lambda>i. queues k (ReadyQ i)) [Suc i..<32])"
proof -
  show "rq_shape k'"
    unfolding rq_shape_def using k len b p d i by (simp add: q t rq_shape_def)
  have "map (\<lambda>i. queues k' (ReadyQ i)) [0..<i] = map (\<lambda>i. queues k (ReadyQ i)) [0..<i]"
    and "map (\<lambda>i. queues k' (ReadyQ i)) [Suc i..<32] = map (\<lambda>i. queues k (ReadyQ i)) [Suc i..<32]"
    by (auto simp: q)
  moreover have "queues k' (ReadyQ i) = xs" by (simp add: q)
  ultimately show "ready_list k' = concat (map (\<lambda>i. queues k (ReadyQ i)) [0..<i]) @ xs @
           concat (map (\<lambda>i. queues k (ReadyQ i)) [Suc i..<32])"
    unfolding ready_list_cut [OF i, of k'] by (simp only:)
qed

lemma lower_queues_prio:
  assumes "rq_shape k" "t \<in> set (concat (map (\<lambda>i. queues k (ReadyQ i)) [0..<i]))"
  shows "prio (threads k t) < int i - NUM_COOP_PRIO"
proof -
  from assms(2) obtain j where "j < i" "t \<in> set (queues k (ReadyQ j))" by auto
  with rq_shapeD [OF assms(1) this(2)] show ?thesis by simp
qed

lemma higher_queues_prio:
  assumes "rq_shape k" "t \<in> set (concat (map (\<lambda>i. queues k (ReadyQ i)) [Suc i..<32]))"
  shows "int i - NUM_COOP_PRIO < prio (threads k t)"
proof -
  from assms(2) obtain j where "Suc i \<le> j" "t \<in> set (queues k (ReadyQ j))" by auto
  with rq_shapeD [OF assms(1) this(2)] show ?thesis by simp
qed

lemma queue_append_is_prio_insert:
  assumes k: "rq_shape k" and i: "i < 32" and t: "prio (threads k t) = int i - NUM_COOP_PRIO"
  shows "concat (map (\<lambda>i. queues k (ReadyQ i)) [0..<i]) @ (queues k (ReadyQ i) @ [t]) @
           concat (map (\<lambda>i. queues k (ReadyQ i)) [Suc i..<32]) =
         prio_insert (\<lambda>t. prio (threads k t)) t (ready_list k)"
proof -
  let ?A = "concat (map (\<lambda>i. queues k (ReadyQ i)) [0..<i])"
  let ?B = "concat (map (\<lambda>i. queues k (ReadyQ i)) [Suc i..<32])"
  have "prio_insert (\<lambda>t. prio (threads k t)) t ((?A @ queues k (ReadyQ i)) @ ?B) =
      (?A @ queues k (ReadyQ i)) @ t # ?B"
  proof (rule prio_insert_append)
    fix y assume "y \<in> set (?A @ queues k (ReadyQ i))"
    then show "prio (threads k y) \<le> prio (threads k t)"
      using lower_queues_prio [OF k, of y i] rq_shapeD(2) [OF k, of y i] t by fastforce
  next
    fix y assume "y \<in> set ?B"
    from higher_queues_prio [OF k this] t show "prio (threads k t) < prio (threads k y)" by simp
  qed
  then show ?thesis by (simp add: ready_list_cut [OF i])
qed

lemma add_shape:
  assumes k: "rq_shape k" and p: "prio_ok (prio (threads k t))" and t: "t \<notin> set (ready_list k)"
  shows "rq_shape (add_thread_to_ready_q t k)"
    and "ready_list (add_thread_to_ready_q t k) =
           prio_insert (\<lambda>t. prio (threads k t)) t (ready_list k)"
proof -
  let ?i = "get_ready_q_q_index (prio (threads k t))" and ?k = "add_thread_to_ready_q t k"
  note i = prio_index [OF p]
  have pt: "prio (threads k t) = int ?i - NUM_COOP_PRIO" using i by simp
  have len: "length (prio_bmap k) = 1" using k by (simp add: rq_shape_def)
  have q: "queues ?k (ReadyQ j) =
      (if j = ?i then queues k (ReadyQ ?i) @ [t] else queues k (ReadyQ j))" for j
    by (simp add: add_thread_to_ready_q_def set_ready_q_prio_bit_def queue_append_def Let_def)
  have b: "bit (prio_bmap ?k ! 0) j \<longleftrightarrow>
      (if j = ?i then queues k (ReadyQ ?i) @ [t] \<noteq> [] else bit (prio_bmap k ! 0) j)" for j
    using len by (simp add: add_thread_to_ready_q_def set_ready_q_prio_bit_def queue_append_def
        Let_def i(1) bit_or_iff prio_bit [OF p])
  have len': "length (prio_bmap ?k) = 1"
    using len by (simp add: add_thread_to_ready_q_def set_ready_q_prio_bit_def queue_append_def Let_def)
  have d: "distinct (queues k (ReadyQ ?i) @ [t])"
    using t k by (simp add: set_ready_list rq_shape_def)
  have pq: "prio (threads k u) = int ?i - NUM_COOP_PRIO" if "u \<in> set (queues k (ReadyQ ?i) @ [t])" for u
    using that rq_shapeD(2) [OF k] pt by auto
  show "rq_shape ?k"
    by (rule rq_shape_upd(1) [OF k i(2) q len' b pq d add_same(1)])
  have "ready_list ?k = concat (map (\<lambda>i. queues k (ReadyQ i)) [0..<?i]) @
      (queues k (ReadyQ ?i) @ [t]) @ concat (map (\<lambda>i. queues k (ReadyQ i)) [Suc ?i..<32])"
    by (rule rq_shape_upd(2) [OF k i(2) q len' b pq d add_same(1)])
  then show "ready_list ?k = prio_insert (\<lambda>t. prio (threads k t)) t (ready_list k)"
    by (simp only: queue_append_is_prio_insert [OF k i(2) pt])
qed

lemma cache_add:
  "cache (add_thread_to_ready_q t k) =
     (if prio (threads k t) < prio (threads k (cache k)) then t else cache k)"
  by (simp add: add_thread_to_ready_q_def set_ready_q_prio_bit_def queue_append_def Let_def prio_defs)

lemma add_ok:
  assumes k: "rq_ok k" and p: "prio_ok (prio (threads k t))" and t: "t \<notin> set (ready_list k)"
  shows "rq_ok (add_thread_to_ready_q t k)"
    and "ready_list (add_thread_to_ready_q t k) =
           prio_insert (\<lambda>t. prio (threads k t)) t (ready_list k)"
proof -
  from k have s: "rq_shape k" and ne: "ready_list k \<noteq> []" and c: "cache k = hd (ready_list k)"
    by (simp_all add: rq_ok_def)
  note a = add_shape [OF s p t]
  show "ready_list (add_thread_to_ready_q t k) =
      prio_insert (\<lambda>t. prio (threads k t)) t (ready_list k)" by (rule a)
  have "hd (prio_insert (\<lambda>t. prio (threads k t)) t (ready_list k)) =
      (if prio (threads k t) < prio (threads k (cache k)) then t else cache k)"
    using ne c by (cases "ready_list k") (simp_all add: prio_insert_Cons)
  then show "rq_ok (add_thread_to_ready_q t k)"
    unfolding rq_ok_def using a by (auto simp: cache_add prio_insert_def)
qed

text \<open>
  The first thread put on an empty queue: the kernel initialises the cache to it
  beforehand (\<^verbatim>\<open>prepare_multithreading\<close> in \<^verbatim>\<open>kernel/init.c\<close>).
\<close>

lemma add_first_ok:
  assumes k: "rq_shape k" and "ready_list k = []" and "cache k = t" and p: "prio_ok (prio (threads k t))"
  shows "rq_ok (add_thread_to_ready_q t k)" and "ready_list (add_thread_to_ready_q t k) = [t]"
proof -
  note a = add_shape [OF k p]
  from a assms show "ready_list (add_thread_to_ready_q t k) = [t]" by simp
  with a assms show "rq_ok (add_thread_to_ready_q t k)" by (simp add: rq_ok_def cache_add)
qed

lemma remove1_cut:
  assumes k: "rq_shape k" and i: "i < 32" and t: "prio (threads k t) = int i - NUM_COOP_PRIO"
  shows "concat (map (\<lambda>i. queues k (ReadyQ i)) [0..<i]) @ remove1 t (queues k (ReadyQ i)) @
           concat (map (\<lambda>i. queues k (ReadyQ i)) [Suc i..<32]) = remove1 t (ready_list k)"
proof -
  have "t \<notin> set (concat (map (\<lambda>i. queues k (ReadyQ i)) [0..<i]))"
    using lower_queues_prio [OF k, of t i] t by force
  moreover have "t \<notin> set (concat (map (\<lambda>i. queues k (ReadyQ i)) [Suc i..<32]))"
    using higher_queues_prio [OF k, of t i] t by force
  ultimately show ?thesis unfolding ready_list_cut [OF i] by (simp add: remove1_append)
qed

lemma remove1_other_queue:
  assumes k: "rq_shape k" and "j \<noteq> get_ready_q_q_index (prio (threads k t))"
  shows "remove1 t (queues k (ReadyQ j)) = queues k (ReadyQ j)"
  using rq_shapeD(3) [OF k, of t j] assms(2) by (intro remove1_idem) auto

lemma remove_shape:
  assumes k: "rq_shape k" and p: "prio_ok (prio (threads k t))"
  shows "rq_shape (remove_thread_from_ready_q t k)"
    and "ready_list (remove_thread_from_ready_q t k) = remove1 t (ready_list k)"
proof -
  let ?i = "get_ready_q_q_index (prio (threads k t))" and ?k = "remove_thread_from_ready_q t k"
  let ?xs = "remove1 t (queues k (ReadyQ ?i))"
  note i = prio_index [OF p]
  have pt: "prio (threads k t) = int ?i - NUM_COOP_PRIO" using i by simp
  have len: "length (prio_bmap k) = 1" using k by (simp add: rq_shape_def)
  have q: "queues ?k (ReadyQ j) = (if j = ?i then ?xs else queues k (ReadyQ j))" for j
    by (simp add: remove_thread_from_ready_q_def clear_ready_q_prio_bit_def queue_remove_def
        Let_def remove1_other_queue [OF k])
  have b: "bit (prio_bmap ?k ! 0) j \<longleftrightarrow> (if j = ?i then ?xs \<noteq> [] else bit (prio_bmap k ! 0) j)"
    if "j < 32" for j
  proof (cases "?xs = []")
    case True
    then show ?thesis
      using len by (simp add: remove_thread_from_ready_q_def clear_ready_q_prio_bit_def
          queue_remove_def Let_def i(1) bit_and_not_iff_word prio_bit [OF p])
  next
    case False
    then have "queues k (ReadyQ ?i) \<noteq> []" by auto
    with False k i(2) show ?thesis
      by (auto simp: remove_thread_from_ready_q_def queue_remove_def Let_def rq_shape_def)
  qed
  have len': "length (prio_bmap ?k) = 1"
    using len by (simp add: remove_thread_from_ready_q_def clear_ready_q_prio_bit_def
        queue_remove_def Let_def)
  have d: "distinct ?xs" using k by (simp add: rq_shape_def)
  have pq: "prio (threads k u) = int ?i - NUM_COOP_PRIO" if "u \<in> set ?xs" for u
    using that rq_shapeD(2) [OF k] notin_set_remove1 by metis
  show "rq_shape ?k"
    by (rule rq_shape_upd(1) [OF k i(2) q len' b pq d remove_same(1)])
  have "ready_list ?k = concat (map (\<lambda>i. queues k (ReadyQ i)) [0..<?i]) @ ?xs @
      concat (map (\<lambda>i. queues k (ReadyQ i)) [Suc ?i..<32])"
    by (rule rq_shape_upd(2) [OF k i(2) q len' b pq d remove_same(1)])
  then show "ready_list ?k = remove1 t (ready_list k)"
    by (simp only: remove1_cut [OF k i(2) pt])
qed

text \<open>The cache written by the operations that look for a new head when they move the cached thread.\<close>

lemma rq_shape_cache_irrelevant [simp]:
  "rq_shape (k\<lparr>cache := c\<rparr>) = rq_shape k" "ready_list (k\<lparr>cache := c\<rparr>) = ready_list k"
  by (simp_all add: rq_shape_def ready_list_def)

lemma rq_ok_recache:
  assumes "rq_shape k2" "ready_list k2 \<noteq> []"
    and "cache k2 \<noteq> t \<Longrightarrow> cache k2 = hd (ready_list k2)"
  shows "rq_ok (k2\<lparr>cache := (if cache k2 = t then get_ready_q_head k2 else cache k2)\<rparr>)"
  using assms highest_ready(2) [OF assms(1,2)] by (simp add: rq_ok_def)

lemma remove_ok:
  assumes k: "rq_ok k" and p: "prio_ok (prio (threads k t))" and ne: "remove1 t (ready_list k) \<noteq> []"
  shows "rq_ok (remove_thread_from_ready_q t k)"
    and "ready_list (remove_thread_from_ready_q t k) = remove1 t (ready_list k)"
proof -
  from k have s: "rq_shape k" and c: "cache k = hd (ready_list k)" by (simp_all add: rq_ok_def)
  note r = remove_shape [OF s p]
  show "ready_list (remove_thread_from_ready_q t k) = remove1 t (ready_list k)" by (rule r)
  define k2 where "k2 = (let k1 = queue_remove t k in
     if queues k1 (ReadyQ (get_ready_q_q_index (prio (threads k t)))) = []
     then clear_ready_q_prio_bit (prio (threads k t)) k1 else k1)"
  have e: "remove_thread_from_ready_q t k =
      k2\<lparr>cache := (if cache k2 = t then get_ready_q_head k2 else cache k2)\<rparr>"
    unfolding remove_thread_from_ready_q_def Let_def k2_def by (rule refl)
  have ck: "cache k2 = cache k"
    by (simp add: k2_def clear_ready_q_prio_bit_def queue_remove_def Let_def)
  have s2: "rq_shape k2" and l2: "ready_list k2 = remove1 t (ready_list k)"
    using r unfolding e by simp_all
  have "hd (remove1 t (ready_list k)) = hd (ready_list k)" if "hd (ready_list k) \<noteq> t"
    using that k by (cases "ready_list k") (auto simp: rq_ok_def)
  then show "rq_ok (remove_thread_from_ready_q t k)"
    unfolding e using s2 ne by (intro rq_ok_recache) (simp_all add: l2 ck c)
qed

lemma move_queue:
  assumes k: "rq_shape k" and t: "t \<in> set (ready_list k)"
  defines "i \<equiv> get_ready_q_q_index (prio (threads k t))"
  shows "queues (move_thread_to_end_of_prio_q t k) (ReadyQ j) =
           (if j = i then remove1 t (queues k (ReadyQ i)) @ [t] else queues k (ReadyQ j))"
proof (cases "last (queues k (ReadyQ i)) = t")
  case True
  have tq: "t \<in> set (queues k (ReadyQ i))" using t k by (simp add: set_ready_list i_def)
  then obtain ys where ys: "queues k (ReadyQ i) = ys @ [t]"
    using True by (metis append_butlast_last_id empty_iff list.set(1))
  moreover have "distinct (queues k (ReadyQ i))" using k by (simp add: rq_shape_def)
  ultimately have "remove1 t (queues k (ReadyQ i)) @ [t] = queues k (ReadyQ i)"
    by (simp add: remove1_append)
  moreover have "move_thread_to_end_of_prio_q t k = k"
    using True ys by (simp add: move_thread_to_end_of_prio_q_def i_def Let_def)
  ultimately show ?thesis by simp
next
  case False
  then show ?thesis
    unfolding i_def
    by (auto simp: move_thread_to_end_of_prio_q_def queue_append_def queue_remove_def Let_def
        remove1_other_queue [OF k])
qed

lemma move_shape:
  assumes k: "rq_shape k" and t: "t \<in> set (ready_list k)"
  shows "rq_shape (move_thread_to_end_of_prio_q t k)"
    and "ready_list (move_thread_to_end_of_prio_q t k) =
           prio_insert (\<lambda>t. prio (threads k t)) t (remove1 t (ready_list k))"
proof -
  let ?i = "get_ready_q_q_index (prio (threads k t))" and ?k = "move_thread_to_end_of_prio_q t k"
  let ?r = "remove_thread_from_ready_q t k"
  let ?xs = "remove1 t (queues k (ReadyQ ?i)) @ [t]"
  have p: "prio_ok (prio (threads k t))" using ready_list_prio [OF k t] .
  note i = prio_index [OF p] and q = move_queue [OF k t]
  have pt: "prio (threads k t) = int ?i - NUM_COOP_PRIO" using i by simp
  have tq: "t \<in> set (queues k (ReadyQ ?i))" using t k by (simp add: set_ready_list)
  have bm: "prio_bmap ?k = prio_bmap k"
    by (simp add: move_thread_to_end_of_prio_q_def queue_remove_def queue_append_def Let_def)
  have len: "length (prio_bmap ?k) = 1" using k by (simp add: bm rq_shape_def)
  have b: "bit (prio_bmap ?k ! 0) j \<longleftrightarrow> (if j = ?i then ?xs \<noteq> [] else bit (prio_bmap k ! 0) j)"
    if "j < 32" for j
    using that tq rq_shape_bit(1) [OF k that] by (auto simp: bm)
  have pq: "prio (threads k u) = int ?i - NUM_COOP_PRIO" if "u \<in> set ?xs" for u
    using that rq_shapeD(2) [OF k] pt notin_set_remove1 by (metis Un_iff empty_iff empty_set set_ConsD set_append)
  have d: "distinct ?xs" using rq_shape_bit(2) [OF k] by simp
  show "rq_shape ?k" by (rule rq_shape_upd(1) [OF k i(2) q len b pq d move_same(1)])
  have rq: "queues ?r (ReadyQ j) =
      (if j = ?i then remove1 t (queues k (ReadyQ ?i)) else queues k (ReadyQ j))" for j
    by (simp add: remove_thread_from_ready_q_def clear_ready_q_prio_bit_def queue_remove_def
        Let_def remove1_other_queue [OF k])
  have maps: "map (\<lambda>i. queues ?r (ReadyQ i)) [0..<?i] = map (\<lambda>i. queues k (ReadyQ i)) [0..<?i]"
    "map (\<lambda>i. queues ?r (ReadyQ i)) [Suc ?i..<32] = map (\<lambda>i. queues k (ReadyQ i)) [Suc ?i..<32]"
    "queues ?r (ReadyQ ?i) = remove1 t (queues k (ReadyQ ?i))"
    by (auto simp: rq)
  have "ready_list ?k = concat (map (\<lambda>i. queues k (ReadyQ i)) [0..<?i]) @ ?xs @
      concat (map (\<lambda>i. queues k (ReadyQ i)) [Suc ?i..<32])"
    by (rule rq_shape_upd(2) [OF k i(2) q len b pq d move_same(1)])
  also have "\<dots> = prio_insert (\<lambda>t. prio (threads ?r t)) t (ready_list ?r)"
    using queue_append_is_prio_insert [OF remove_shape(1) [OF k p] i(2), of t] pt
    unfolding maps by simp
  finally show "ready_list ?k = prio_insert (\<lambda>t. prio (threads k t)) t (remove1 t (ready_list k))"
    by (simp add: remove_shape(2) [OF k p])
qed

lemma move_ok:
  assumes k: "rq_ok k" and t: "t \<in> set (ready_list k)"
  shows "rq_ok (move_thread_to_end_of_prio_q t k)"
    and "ready_list (move_thread_to_end_of_prio_q t k) =
           prio_insert (\<lambda>t. prio (threads k t)) t (remove1 t (ready_list k))"
proof -
  from k have s: "rq_shape k" and c: "cache k = hd (ready_list k)" by (simp_all add: rq_ok_def)
  note r = move_shape [OF s t]
  show "ready_list (move_thread_to_end_of_prio_q t k) =
      prio_insert (\<lambda>t. prio (threads k t)) t (remove1 t (ready_list k))" by (rule r)
  have hd: "hd (prio_insert (\<lambda>t. prio (threads k t)) t (remove1 t (ready_list k))) = hd (ready_list k)"
    if "hd (ready_list k) \<noteq> t"
    using that t highest_ready_minimal [OF s t]
    by (cases "ready_list k") (auto simp: prio_insert_Cons)
  show "rq_ok (move_thread_to_end_of_prio_q t k)"
  proof (cases "move_thread_to_end_of_prio_q t k = k")
    case False
    define k2 where "k2 = queue_append (ReadyQ (get_ready_q_q_index (prio (threads k t)))) t
       (queue_remove t k)"
    from False have e: "move_thread_to_end_of_prio_q t k =
        k2\<lparr>cache := (if cache k2 = t then get_ready_q_head k2 else cache k2)\<rparr>"
      unfolding move_thread_to_end_of_prio_q_def Let_def k2_def by (simp split: if_splits)
    have ck: "cache k2 = cache k" by (simp add: k2_def queue_remove_def queue_append_def)
    have s2: "rq_shape k2" and
      l2: "ready_list k2 = prio_insert (\<lambda>t. prio (threads k t)) t (remove1 t (ready_list k))"
      using r unfolding e by simp_all
    show ?thesis
      unfolding e using s2 hd by (intro rq_ok_recache) (simp_all add: l2 ck c prio_insert_def)
  qed (use k in simp)
qed

section \<open>The interface of the ready queue\<close>

text \<open>
  What the scheduler relies on: a state holds the list of ready threads, ordered by key
  and first-come first-served within a key; \<open>add\<close> and \<open>rem\<close> act on that list, and
  \<open>front\<close> is its head.
\<close>

locale run_queue =
  fixes ok :: "'s \<Rightarrow> bool" and lst :: "'s \<Rightarrow> 't list" and key :: "'s \<Rightarrow> 't \<Rightarrow> int"
    and adm :: "'s \<Rightarrow> 't \<Rightarrow> bool" and front :: "'s \<Rightarrow> 't"
    and add :: "'t \<Rightarrow> 's \<Rightarrow> 's" and rem :: "'t \<Rightarrow> 's \<Rightarrow> 's"
  assumes ok_add: "ok s \<Longrightarrow> adm s t \<Longrightarrow> t \<notin> set (lst s) \<Longrightarrow>
      ok (add t s) \<and> lst (add t s) = prio_insert (key s) t (lst s)"
    and ok_rem: "ok s \<Longrightarrow> adm s t \<Longrightarrow> remove1 t (lst s) \<noteq> [] \<Longrightarrow>
      ok (rem t s) \<and> lst (rem t s) = remove1 t (lst s)"
    and key_add: "key (add t s) = key s" and key_rem: "key (rem t s) = key s"
    and adm_rem: "adm (rem t s) = adm s" and adm_add: "adm (add t s) = adm s"
    and ok_front: "ok s \<Longrightarrow> lst s \<noteq> [] \<and> front s = hd (lst s)"
    and ok_sorted: "ok s \<Longrightarrow> sorted_wrt (\<lambda>a b. key s a \<le> key s b) (lst s) \<and> distinct (lst s)"
begin

lemma front_minimal: "ok s \<Longrightarrow> t \<in> set (lst s) \<Longrightarrow> key s (front s) \<le> key s t"
  using ok_sorted [of s] ok_front [of s] by (cases "lst s") auto

lemma front_mem: "ok s \<Longrightarrow> front s \<in> set (lst s)"
  using ok_front [of s] by simp

lemma front_add:
  assumes "ok s" "adm s t" "t \<notin> set (lst s)"
  shows "front (add t s) = (if key s t < key s (front s) then t else front s)"
  using ok_add [OF assms] ok_front [of s] ok_front [of "add t s"] assms(1)
  by (cases "lst s") (auto simp: prio_insert_Cons)

lemma front_rem_other:
  assumes "ok s" "adm s t" "t \<noteq> front s"
  shows "front (rem t s) = front s"
proof -
  from ok_front [OF assms(1)] obtain xs where xs: "lst s = front s # xs" by (metis list.collapse)
  with assms have "remove1 t (lst s) = front s # remove1 t xs" by simp
  with ok_rem [OF assms(1,2)] ok_front [of "rem t s"] show ?thesis by simp
qed

lemma rem_add:
  assumes "ok s" "adm s t" "t \<notin> set (lst s)"
  shows "lst (rem t (add t s)) = lst s"
proof -
  note a = ok_add [OF assms]
  have "remove1 t (lst (add t s)) = lst s" using a assms(3) by (simp add: remove1_prio_insert)
  with a assms ok_front [OF assms(1)] ok_rem [of "add t s" t] show ?thesis by (simp add: adm_add)
qed

lemma rem_then_add:
  assumes "ok s" "adm s t" "remove1 t (lst s) \<noteq> []"
  shows "ok (add t (rem t s)) \<and> lst (add t (rem t s)) = prio_insert (key s) t (remove1 t (lst s))"
proof -
  note r = ok_rem [OF assms]
  have "t \<notin> set (lst (rem t s))" using r ok_sorted [OF assms(1)] by simp
  with r ok_add [of "rem t s" t] assms(2) show ?thesis by (simp add: adm_rem key_rem)
qed

end

interpretation rq: run_queue rq_ok ready_list "\<lambda>k t. prio (threads k t)"
  "\<lambda>k t. prio_ok (prio (threads k t))" get_next_ready_thread
  add_thread_to_ready_q remove_thread_from_ready_q
proof unfold_locales
  show "rq_ok k \<Longrightarrow> ready_list k \<noteq> [] \<and> get_next_ready_thread k = hd (ready_list k)"
    for k :: "'a kernel_scheme"
    by (simp add: rq_ok_def get_next_ready_thread_def)
  show "rq_ok k \<Longrightarrow> sorted_wrt (\<lambda>a b. prio (threads k a) \<le> prio (threads k b)) (ready_list k) \<and>
      distinct (ready_list k)" for k :: "'a kernel_scheme"
    by (simp add: rq_ok_def ready_list_sorted ready_list_distinct)
qed (simp_all add: add_ok remove_ok)

section \<open>A concrete state\<close>

text \<open>
  The state in which the kernel starts: the idle thread (0, lowest priority) and the main
  thread (2, priority 0) are ready and the main thread runs. The other thread names stand
  for memory that holds no thread yet; two of them have a priority, for later use.
\<close>

definition example_thread :: "int \<Rightarrow> u8 \<Rightarrow> k_thread" where
  "example_thread p s = \<lparr>user_options = 0, thread_state = s, prio = p, sched_locked = 0,
     swap_data = 0, swap_retval = 0, fn_abort = None\<rparr>"

definition example_threads :: "tid \<Rightarrow> k_thread" where
  "example_threads t =
     (if t = 0 then example_thread 15 0 else if t = 2 then example_thread 0 0
      else if t = 3 then example_thread 5 THREAD_PRESTART
      else if t = 4 then example_thread (- 2) THREAD_PRESTART
      else example_thread 0 THREAD_DUMMY)"

definition zero_kernel :: kernel where
  "zero_kernel = \<lparr>threads = example_threads,
     timeouts = (\<lambda>_. \<lparr>delta_ticks_from_prev = INACTIVE, to_thread = None, to_wait_q = None, to_func = None\<rparr>),
     nested = 0, current = 2, cache = 2, prio_bmap = [0], queues = (\<lambda>_. []), timeout_q = [],
     handling_timeouts = False, idle_thread = 0, time_slice_duration = 0, time_slice_elapsed = 0,
     time_slice_prio_ceiling = 0, sys_clock_tick_count = 0\<rparr>"

definition boot_kernel :: kernel where
  "boot_kernel = add_thread_to_ready_q 0 (add_thread_to_ready_q 2 zero_kernel)"

lemma zero_kernel_shape: "rq_shape zero_kernel" "ready_list zero_kernel = []" "cache zero_kernel = 2"
  by (simp_all add: rq_shape_def zero_kernel_def ready_list_def)

lemma threads_boot [simp]: "threads boot_kernel = example_threads" "current boot_kernel = 2"
  "idle_thread boot_kernel = 0" "timeout_q boot_kernel = []" "handling_timeouts boot_kernel = False"
  "nested boot_kernel = 0" "delta_ticks_from_prev (timeouts boot_kernel r) = INACTIVE"
  "queues boot_kernel (WaitQ w) = []" "time_slice_duration boot_kernel = 0"
  by (simp_all add: boot_kernel_def zero_kernel_def)

lemma prio_example [simp]:
  "prio (example_threads 0) = 15" "prio (example_threads 2) = 0"
  "prio (example_threads 3) = 5" "prio (example_threads 4) = - 2"
  by (simp_all add: example_threads_def example_thread_def)

lemma boot_rq_ok: "rq_ok boot_kernel" "ready_list boot_kernel = [2, 0]"
proof -
  have p: "prio_ok (prio (threads zero_kernel 2))" "prio_ok (prio (threads (add_thread_to_ready_q 2 zero_kernel) 0))"
    by (simp_all add: zero_kernel_def prio_ok_simps)
  note one = add_first_ok [OF zero_kernel_shape p(1)]
  have "0 \<notin> set (ready_list (add_thread_to_ready_q 2 zero_kernel))" by (simp add: one)
  note two = add_ok [OF one(1) p(2) this]
  show "rq_ok boot_kernel" unfolding boot_kernel_def by (rule two)
  have "threads zero_kernel = example_threads" by (simp add: zero_kernel_def)
  then show "ready_list boot_kernel = [2, 0]"
    unfolding boot_kernel_def two one by (simp add: prio_insert_Cons)
qed

lemma boot_cache [simp]: "cache boot_kernel = 2"
  using boot_rq_ok by (simp add: rq_ok_def)

section \<open>Properties\<close>

text \<open>
  C4. Putting a thread on the ready queue implements insertion by priority: on a
  well-formed ready queue that does not hold the thread, the new list of ready threads is
  the old one with the thread behind every thread of its own or a higher priority; the
  bitmap and the cache agree with it again, so the cache is the first thread of the new list.
\<close>

theorem add_thread_to_ready_q_refines:
  assumes "rq_ok k" and "prio_ok (prio (threads k t))" and "t \<notin> set (ready_list k)"
  shows "rq_ok (add_thread_to_ready_q t k) \<and>
    ready_list (add_thread_to_ready_q t k) = prio_insert (\<lambda>u. prio (threads k u)) t (ready_list k) \<and>
    get_next_ready_thread (add_thread_to_ready_q t k) =
      hd (prio_insert (\<lambda>u. prio (threads k u)) t (ready_list k))"
  using rq.ok_add [OF assms] rq.ok_front [of "add_thread_to_ready_q t k"] by simp

theorem add_thread_to_ready_q_refines_witness:
  "ready_list (add_thread_to_ready_q 3 boot_kernel) = [2, 3, 0]"
  using add_thread_to_ready_q_refines [OF boot_rq_ok(1), of 3]
  by (simp add: boot_rq_ok prio_ok_simps prio_insert_Cons)

text \<open>
  Taking a thread off the ready queue implements removal from the list of ready
  threads: the other threads keep their order, the bit of a priority that has no thread
  left is cleared, and the cache is the first thread of what is left.
\<close>

theorem remove_thread_from_ready_q_refines:
  assumes "rq_ok k" and "t \<in> set (ready_list k)" and "remove1 t (ready_list k) \<noteq> []"
  shows "rq_ok (remove_thread_from_ready_q t k) \<and>
    ready_list (remove_thread_from_ready_q t k) = remove1 t (ready_list k) \<and>
    get_next_ready_thread (remove_thread_from_ready_q t k) = hd (remove1 t (ready_list k))"
  using rq.ok_rem [OF assms(1) _ assms(3)] rq.ok_front [of "remove_thread_from_ready_q t k"]
    ready_list_prio [OF _ assms(2)] assms(1,3)
  by (simp add: rq_ok_def)

theorem remove_thread_from_ready_q_refines_witness:
  "ready_list (remove_thread_from_ready_q 2 boot_kernel) = [0] \<and>
   get_next_ready_thread (remove_thread_from_ready_q 2 boot_kernel) = 0"
  using remove_thread_from_ready_q_refines [OF boot_rq_ok(1), of 2] by (simp add: boot_rq_ok)

text \<open>
  Moving a thread from one queue to another with the list operations of \<^verbatim>\<open>dlist.h\<close>
  implements the move on the queues of the model: the pointers of every ready and wait
  queue are again those of the lists, and no other queue has changed.
\<close>

theorem queue_move_pointers:
  assumes r: "krepr h k" and t: "t \<in> set (queues k q)"
  shows "krepr (sys_dlist_append (QHead q') (KQNode t) (sys_dlist_remove (KQNode t) h))
      (queue_append q' t (queue_remove t k)) \<and>
    (\<forall>p. p \<noteq> q \<and> p \<noteq> q' \<longrightarrow> queues (queue_append q' t (queue_remove t k)) p = queues k p)"
proof (intro conjI allI impI)
  have "t \<notin> set (queues (queue_remove t k) p)" for p
    using krepr_distinct [OF r, of p] by (simp add: queue_remove_def)
  then show "krepr (sys_dlist_append (QHead q') (KQNode t) (sys_dlist_remove (KQNode t) h))
      (queue_append q' t (queue_remove t k))"
    by (rule krepr_append [OF krepr_remove [OF r t]])
next
  fix p assume p: "p \<noteq> q \<and> p \<noteq> q'"
  then have "t \<notin> set (queues k p)" using krepr_disjoint [OF r t, of p] by auto
  with p show "queues (queue_append q' t (queue_remove t k)) p = queues k p"
    by (simp add: queue_append_def queue_remove_def remove1_idem)
qed

definition empty_pointers :: "kaddr dheap" where
  "empty_pointers = \<lparr>nxt = id, prv = id\<rparr>"

lemma krepr_empty: "(\<And>q. queues k q = []) \<Longrightarrow> krepr empty_pointers k"
  by (auto simp: krepr_def dlists_def dlist_def kqueues_def empty_pointers_def)

definition queued_kernel :: kernel where
  "queued_kernel = queue_append (ReadyQ 3) 2 zero_kernel"

definition queued_pointers :: "kaddr dheap" where
  "queued_pointers = sys_dlist_append (QHead (ReadyQ 3)) (KQNode 2) empty_pointers"

lemma queued_krepr: "krepr queued_pointers queued_kernel"
  unfolding queued_pointers_def queued_kernel_def
  by (intro krepr_append krepr_empty) (simp_all add: zero_kernel_def)

theorem queue_move_pointers_witness:
  "krepr (sys_dlist_append (QHead (WaitQ 7)) (KQNode 2) (sys_dlist_remove (KQNode 2) queued_pointers))
    (queue_append (WaitQ 7) 2 (queue_remove 2 queued_kernel))"
  using queue_move_pointers [OF queued_krepr, of 2 "ReadyQ 3" "WaitQ 7"]
  by (simp add: queued_kernel_def queue_append_def)

end
