(* ===== verification/Wait_Queue.thy ===== *)
theory Wait_Queue
  imports Ready_Queue
begin

text \<open>
  Readying, unpending and reprioritising threads (\<^verbatim>\<open>kernel/include/ksched.h\<close>), and the
  invariant that ties the state of a thread to the queue it is on: a thread is on a
  ready queue exactly when it is ready, on one wait queue exactly when it is pending,
  and on the timeout queue exactly when its timeout counts. A thread that an operation
  has in hand, off one queue and not yet on another, is in the set \<open>S\<close> of the
  invariant.
\<close>

section \<open>Operations\<close>

definition ready_thread :: "tid \<Rightarrow> 'a kernel_scheme \<Rightarrow> 'a kernel_scheme" where
  "ready_thread t k =
     (let k1 = mark_thread_as_started t k
      in if is_thread_ready k1 t then add_thread_to_ready_q t k1 else k1)"

definition set_prio :: "tid \<Rightarrow> int \<Rightarrow> 'a kernel_scheme \<Rightarrow> 'a kernel_scheme" where
  "set_prio t p k = upd_thread t (prio_update (\<lambda>_. to_s8 p)) k"

definition thread_priority_set :: "tid \<Rightarrow> int \<Rightarrow> 'a kernel_scheme \<Rightarrow> 'a kernel_scheme" where
  "thread_priority_set t p k =
     (if is_thread_ready k t
      then add_thread_to_ready_q t (set_prio t p (remove_thread_from_ready_q t k))
      else set_prio t p k)"

definition peek_first_pending_thread :: "'a kernel_scheme \<Rightarrow> waddr \<Rightarrow> tid option" where
  "peek_first_pending_thread k w = (case queues k (WaitQ w) of [] \<Rightarrow> None | t # _ \<Rightarrow> Some t)"

text \<open>
  While expired timeouts are being handled, threads whose timeout has expired are
  passed over; the search starts after the thread \<open>from\<close>.
\<close>

definition find_first_thread_to_unpend :: "'a kernel_scheme \<Rightarrow> waddr \<Rightarrow> tid option \<Rightarrow> tid option" where
  "find_first_thread_to_unpend k w from =
     (if handling_timeouts k
      then find (\<lambda>t. \<not> is_thread_timeout_expired k t)
             (case from of None \<Rightarrow> queues k (WaitQ w)
              | Some f \<Rightarrow> tl (dropWhile (\<lambda>t. t \<noteq> f) (queues k (WaitQ w))))
      else (case queues k (WaitQ w) of [] \<Rightarrow> None | t # _ \<Rightarrow> Some t))"

definition unpend_thread :: "tid \<Rightarrow> 'a kernel_scheme \<Rightarrow> 'a kernel_scheme" where
  "unpend_thread t k = mark_thread_as_not_pending t (queue_remove t k)"

definition unpend_first_thread :: "waddr \<Rightarrow> 'a kernel_scheme \<Rightarrow> tid option \<times> 'a kernel_scheme" where
  "unpend_first_thread w k =
     (let thread = find_first_thread_to_unpend k w None
      in (thread, case thread of Some t \<Rightarrow> unpend_thread t k | None \<Rightarrow> k))"

section \<open>The invariant\<close>

abbreviation delta :: "'a kernel_scheme \<Rightarrow> toref \<Rightarrow> int" where
  "delta k r \<equiv> delta_ticks_from_prev (timeouts k r)"

definition ready_inv :: "tid set \<Rightarrow> 'a kernel_scheme \<Rightarrow> bool" where
  "ready_inv S k \<longleftrightarrow>
     rq_ok k \<and> (\<forall>t. t \<in> set (ready_list k) \<longleftrightarrow> is_thread_ready k t \<and> t \<notin> S)"

definition wait_inv :: "tid set \<Rightarrow> 'a kernel_scheme \<Rightarrow> bool" where
  "wait_inv S k \<longleftrightarrow>
     (\<forall>t. (\<exists>w. t \<in> set (queues k (WaitQ w))) \<longleftrightarrow> st k t 1 \<and> t \<notin> S) \<and>
     (\<forall>t w w'. t \<in> set (queues k (WaitQ w)) \<longrightarrow> t \<in> set (queues k (WaitQ w')) \<longrightarrow> w = w') \<and>
     (\<forall>w. distinct (queues k (WaitQ w)))"

text \<open>
  The timeouts on the timeout queue are those that count down; the first has at least a
  tick to go. The timeout of a thread names the thread and the wait queue it is pending
  on.
\<close>

definition delta_inv :: "'a kernel_scheme \<Rightarrow> bool" where
  "delta_inv k \<longleftrightarrow>
     distinct (timeout_q k) \<and> (\<forall>r. r \<in> set (timeout_q k) \<longleftrightarrow> 0 \<le> delta k r) \<and>
     (\<forall>r. EXPIRED \<le> delta k r) \<and> (timeout_q k \<noteq> [] \<longrightarrow> 0 < delta k (hd (timeout_q k)))"

definition timeout_link :: "'a kernel_scheme \<Rightarrow> tid \<Rightarrow> bool" where
  "timeout_link k t \<longleftrightarrow>
     to_thread (timeouts k (ThreadTO t)) = Some t \<and>
     (case to_wait_q (timeouts k (ThreadTO t)) of
        None \<Rightarrow> \<not> st k t 1 | Some w \<Rightarrow> t \<in> set (queues k (WaitQ w)))"

definition link_inv :: "tid set \<Rightarrow> 'a kernel_scheme \<Rightarrow> bool" where
  "link_inv S k \<longleftrightarrow> (\<forall>t. t \<notin> S \<longrightarrow> delta k (ThreadTO t) \<noteq> INACTIVE \<longrightarrow> timeout_link k t)"

definition thread_inv :: "tid set \<Rightarrow> 'a kernel_scheme \<Rightarrow> bool" where
  "thread_inv S k \<longleftrightarrow>
     (\<forall>t. prio_ok (prio (threads k t))) \<and> is_thread_ready k (idle_thread k) \<and> idle_thread k \<notin> S"

definition kinv :: "tid set \<Rightarrow> 'a kernel_scheme \<Rightarrow> bool" where
  "kinv S k \<longleftrightarrow> ready_inv S k \<and> wait_inv S k \<and> delta_inv k \<and> link_inv S k \<and> thread_inv S k"

lemmas kinv_defs = kinv_def ready_inv_def wait_inv_def delta_inv_def link_inv_def thread_inv_def

section \<open>Consequences of the invariant\<close>

lemma kinvD:
  assumes "kinv S k"
  shows "ready_inv S k" "wait_inv S k" "delta_inv k" "link_inv S k" "thread_inv S k" "rq_ok k" "rq_shape k"
  using assms by (simp_all add: kinv_def ready_inv_def rq_ok_def)

lemma kinv_prio: "kinv S k \<Longrightarrow> prio_ok (prio (threads k t))"
  by (simp add: kinv_def thread_inv_def)

lemma kinv_ready_iff: "kinv S k \<Longrightarrow> t \<in> set (ready_list k) \<longleftrightarrow> is_thread_ready k t \<and> t \<notin> S"
  by (simp add: kinv_def ready_inv_def)

lemma kinv_waiting_iff: "kinv S k \<Longrightarrow> (\<exists>w. t \<in> set (queues k (WaitQ w))) \<longleftrightarrow> st k t 1 \<and> t \<notin> S"
  by (simp add: kinv_def wait_inv_def)

lemma kinv_waiting: "kinv S k \<Longrightarrow> t \<in> set (queues k (WaitQ w)) \<Longrightarrow> st k t 1 \<and> t \<notin> S"
  using kinv_waiting_iff by blast

lemma kinv_wait_unique:
  "kinv S k \<Longrightarrow> t \<in> set (queues k (WaitQ w)) \<Longrightarrow> t \<in> set (queues k (WaitQ w')) \<Longrightarrow> w = w'"
  by (simp add: kinv_def wait_inv_def)

lemma kinv_wait_distinct: "kinv S k \<Longrightarrow> distinct (queues k (WaitQ w))"
  by (simp add: kinv_def wait_inv_def)

lemma kinv_idle: "kinv S k \<Longrightarrow> is_thread_ready k (idle_thread k) \<and> idle_thread k \<notin> S"
  by (simp add: kinv_def thread_inv_def)

lemma kinv_idle_listed: "kinv S k \<Longrightarrow> idle_thread k \<in> set (ready_list k)"
  by (simp add: kinv_ready_iff kinv_idle)

lemma kinv_not_ready_queues:
  assumes "kinv S k" "\<not> is_thread_ready k t \<or> t \<in> S"
  shows "t \<notin> set (queues k (ReadyQ i))"
  using assms kinv_ready_iff [OF assms(1), of t] kinvD(7) [OF assms(1)]
  by (auto simp: set_ready_list_iff)

text \<open>No thread is on two lists: the lists the kernel keeps are a family in the sense of \<open>Sys_Dlist\<close>.\<close>

lemma kinv_one_queue:
  assumes k: "kinv S k" and t: "t \<in> set (queues k q)" "t \<in> set (queues k q')"
  shows "q = q'"
proof -
  have ready: "is_thread_ready k t" if "t \<in> set (queues k (ReadyQ i))" for i
    using that kinv_not_ready_queues [OF k] by blast
  have wait: "\<not> is_thread_ready k t" if "t \<in> set (queues k (WaitQ w))" for w
    using kinv_waiting [OF k that] by (simp add: is_thread_ready_iff)
  show ?thesis
    using t ready wait rq_shapeD(3) [OF kinvD(7) [OF k]] kinv_wait_unique [OF k]
    by (cases q; cases q') (auto, blast+)
qed

lemma kinv_queue_distinct: "kinv S k \<Longrightarrow> distinct (queues k q)"
  by (cases q) (simp_all add: rq_shape_bit(2) kinvD(7) kinv_wait_distinct)

section \<open>Changes that leave the ready queue alone\<close>

lemma ready_list_cong:
  assumes "\<And>i. queues k' (ReadyQ i) = queues k (ReadyQ i)"
  shows "ready_list k' = ready_list k"
  by (simp add: ready_list_def assms)

lemma rq_ok_cong:
  assumes "\<And>i. queues k' (ReadyQ i) = queues k (ReadyQ i)" "prio_bmap k' = prio_bmap k"
    "cache k' = cache k"
    "\<And>t. t \<in> set (ready_list k) \<Longrightarrow> prio (threads k' t) = prio (threads k t)" and "rq_ok k"
  shows "rq_ok k'"
proof -
  have l: "ready_list k' = ready_list k" using assms(1) by (rule ready_list_cong)
  have s: "rq_shape k" using assms by (simp add: rq_ok_def)
  have "rq_shape k'" unfolding rq_shape_def
  proof (intro conjI allI ballI)
    fix i t assume "t \<in> set (queues k' (ReadyQ i))"
    then have t: "t \<in> set (queues k (ReadyQ i))" by (simp add: assms(1))
    then have "t \<in> set (ready_list k)" using s by (auto simp: set_ready_list_iff)
    with assms(4) rq_shapeD [OF s t]
    show "i < 32" "prio (threads k' t) = int i - NUM_COOP_PRIO" by auto
  qed (use s in \<open>simp_all add: assms rq_shape_bit\<close>)
  with l assms(3,5) show ?thesis by (simp add: rq_ok_def)
qed

lemma timeout_link_cong:
  assumes "timeouts k' (ThreadTO t) = timeouts k (ThreadTO t)" "st k' t 1 \<longleftrightarrow> st k t 1"
    "\<And>w. t \<in> set (queues k' (WaitQ w)) \<longleftrightarrow> t \<in> set (queues k (WaitQ w))"
  shows "timeout_link k' t \<longleftrightarrow> timeout_link k t"
  using assms by (simp add: timeout_link_def split: option.split)

lemma wait_inv_cong:
  assumes "\<And>w. queues k' (WaitQ w) = queues k (WaitQ w)"
    "\<And>u. st k' u 1 \<and> u \<notin> S' \<longleftrightarrow> st k u 1 \<and> u \<notin> S" and "wait_inv S k"
  shows "wait_inv S' k'"
  using assms(3) by (simp add: wait_inv_def assms(1,2) [simplified])

lemma delta_inv_cong:
  "timeouts k' = timeouts k \<Longrightarrow> timeout_q k' = timeout_q k \<Longrightarrow> delta_inv k' \<longleftrightarrow> delta_inv k"
  by (simp add: delta_inv_def)

section \<open>Projections of the operations\<close>

lemma queue_remove_simps [simp]:
  "queues (queue_remove t k) q = remove1 t (queues k q)" "threads (queue_remove t k) = threads k"
  "timeouts (queue_remove t k) = timeouts k" "timeout_q (queue_remove t k) = timeout_q k"
  "idle_thread (queue_remove t k) = idle_thread k" "prio_bmap (queue_remove t k) = prio_bmap k"
  "cache (queue_remove t k) = cache k" "current (queue_remove t k) = current k"
  by (simp_all add: queue_remove_def)

lemma upd_thread_simps [simp]:
  "queues (upd_thread t f k) = queues k" "timeouts (upd_thread t f k) = timeouts k"
  "timeout_q (upd_thread t f k) = timeout_q k" "idle_thread (upd_thread t f k) = idle_thread k"
  "prio_bmap (upd_thread t f k) = prio_bmap k" "cache (upd_thread t f k) = cache k"
  "current (upd_thread t f k) = current k" "handling_timeouts (upd_thread t f k) = handling_timeouts k"
  "nested (upd_thread t f k) = nested k" "kernel.more (upd_thread t f k) = kernel.more k"
  "ready_list (upd_thread t f k) = ready_list k"
  "threads (upd_thread t f k) u = (if u = t then f (threads k t) else threads k u)"
  by (simp_all add: upd_thread_def ready_list_def)

lemma upd_timeout_simps [simp]:
  "queues (upd_timeout r f k) = queues k" "threads (upd_timeout r f k) = threads k"
  "timeout_q (upd_timeout r f k) = timeout_q k" "idle_thread (upd_timeout r f k) = idle_thread k"
  "prio_bmap (upd_timeout r f k) = prio_bmap k" "cache (upd_timeout r f k) = cache k"
  "current (upd_timeout r f k) = current k" "handling_timeouts (upd_timeout r f k) = handling_timeouts k"
  "nested (upd_timeout r f k) = nested k" "kernel.more (upd_timeout r f k) = kernel.more k"
  "ready_list (upd_timeout r f k) = ready_list k"
  "timeouts (upd_timeout r f k) u = (if u = r then f (timeouts k r) else timeouts k u)"
  by (simp_all add: upd_timeout_def ready_list_def)

lemma st_mark:
  "st (mark_thread_as_not_pending t k) u n \<longleftrightarrow> st k u n \<and> \<not> (u = t \<and> n = 1)"
  "st (mark_thread_as_pending t k) u n \<longleftrightarrow> st k u n \<or> u = t \<and> n = 1"
  "st (mark_thread_as_started t k) u n \<longleftrightarrow> st k u n \<and> \<not> (u = t \<and> n = 2)"
  "st (mark_thread_as_suspended t k) u n \<longleftrightarrow> st k u n \<or> u = t \<and> n = 4"
  "st (mark_thread_as_not_suspended t k) u n \<longleftrightarrow> st k u n \<and> \<not> (u = t \<and> n = 4)"
  by (auto simp: mark_thread_as_not_pending_def mark_thread_as_pending_def mark_thread_as_started_def
      mark_thread_as_suspended_def mark_thread_as_not_suspended_def bit_and_not_iff_word bit_or_iff)

lemma mark_simps [simp]:
  "queues (mark_thread_as_not_pending t k) = queues k" "timeouts (mark_thread_as_not_pending t k) = timeouts k"
  "queues (mark_thread_as_pending t k) = queues k" "timeouts (mark_thread_as_pending t k) = timeouts k"
  "queues (mark_thread_as_started t k) = queues k" "timeouts (mark_thread_as_started t k) = timeouts k"
  "queues (mark_thread_as_suspended t k) = queues k" "timeouts (mark_thread_as_suspended t k) = timeouts k"
  "queues (mark_thread_as_not_suspended t k) = queues k"
  "timeouts (mark_thread_as_not_suspended t k) = timeouts k"
  by (simp_all add: mark_thread_as_not_pending_def mark_thread_as_pending_def
      mark_thread_as_started_def mark_thread_as_suspended_def mark_thread_as_not_suspended_def)

text \<open>An update of one thread that leaves its priority alone.\<close>

lemma rq_ok_upd_thread:
  "rq_ok k \<Longrightarrow> prio (f (threads k t)) = prio (threads k t) \<Longrightarrow> rq_ok (upd_thread t f k)"
  by (rule rq_ok_cong [of _ k]) simp_all

section \<open>The operations preserve the invariant\<close>

lemma unpend_thread_simps [simp]:
  "queues (unpend_thread t k) q = remove1 t (queues k q)" "timeouts (unpend_thread t k) = timeouts k"
  "timeout_q (unpend_thread t k) = timeout_q k" "idle_thread (unpend_thread t k) = idle_thread k"
  "prio_bmap (unpend_thread t k) = prio_bmap k" "cache (unpend_thread t k) = cache k"
  "current (unpend_thread t k) = current k" "prio (threads (unpend_thread t k) u) = prio (threads k u)"
  by (simp_all add: unpend_thread_def mark_thread_as_not_pending_def)

lemma st_unpend: "st (unpend_thread t k) u n \<longleftrightarrow> st k u n \<and> \<not> (u = t \<and> n = 1)"
  by (simp add: unpend_thread_def st_mark)

lemma is_thread_ready_unpend:
  "u \<noteq> t \<Longrightarrow> is_thread_ready (unpend_thread t k) u \<longleftrightarrow> is_thread_ready k u"
  by (simp add: is_thread_ready_iff st_unpend)

lemma timeout_link_unpend: "u \<noteq> t \<Longrightarrow> timeout_link (unpend_thread t k) u \<longleftrightarrow> timeout_link k u"
  by (rule timeout_link_cong) (simp_all add: st_unpend)

lemma unpend_ready_list:
  assumes "kinv S k" "\<not> is_thread_ready k t \<or> t \<in> S"
  shows "queues (unpend_thread t k) (ReadyQ i) = queues k (ReadyQ i)"
    and "ready_list (unpend_thread t k) = ready_list k"
proof -
  show q: "queues (unpend_thread t k) (ReadyQ i) = queues k (ReadyQ i)" for i
    using kinv_not_ready_queues [OF assms] by (simp add: remove1_idem)
  show "ready_list (unpend_thread t k) = ready_list k" by (rule ready_list_cong) (rule q)
qed

lemma unpend_kinv:
  assumes k: "kinv S k" and t: "st k t 1" "t \<notin> S"
  shows "kinv (insert t S) (unpend_thread t k)"
proof -
  have nr: "\<not> is_thread_ready k t" using t by (simp add: is_thread_ready_iff)
  note q = unpend_ready_list [OF k disjI1 [OF nr]]
  have idle: "idle_thread k \<noteq> t" using kinv_idle [OF k] nr by auto
  have "rq_ok (unpend_thread t k)"
    by (rule rq_ok_cong [OF q(1)]) (use k in \<open>simp_all add: kinvD\<close>)
  moreover have "u \<in> set (ready_list k) \<longleftrightarrow> is_thread_ready (unpend_thread t k) u \<and> u \<notin> insert t S" for u
    using kinv_ready_iff [OF k, of u] nr by (cases "u = t") (simp_all add: is_thread_ready_unpend)
  ultimately have "ready_inv (insert t S) (unpend_thread t k)"
    by (simp add: ready_inv_def q)
  moreover have "wait_inv (insert t S) (unpend_thread t k)"
  proof -
    have "(\<exists>w. u \<in> set (queues (unpend_thread t k) (WaitQ w))) \<longleftrightarrow>
        st (unpend_thread t k) u 1 \<and> u \<notin> insert t S" for u
      using kinv_waiting_iff [OF k, of u] kinv_wait_distinct [OF k] by (auto simp: st_unpend)
    moreover have "w = w'" if "u \<in> set (queues (unpend_thread t k) (WaitQ w))"
      "u \<in> set (queues (unpend_thread t k) (WaitQ w'))" for u w w'
      using that kinv_wait_unique [OF k, of u w w'] by (simp add: kinv_wait_distinct [OF k])
    ultimately show ?thesis
      unfolding wait_inv_def using kinv_wait_distinct [OF k] by (simp add: unpend_thread_simps)
  qed
  moreover have "delta_inv (unpend_thread t k)"
    using kinvD(3) [OF k] by (simp add: delta_inv_def)
  moreover have "link_inv (insert t S) (unpend_thread t k)"
    using kinvD(4) [OF k] by (simp add: link_inv_def timeout_link_unpend)
  moreover have "thread_inv (insert t S) (unpend_thread t k)"
    using kinvD(5) [OF k] idle by (auto simp: thread_inv_def is_thread_ready_unpend)
  ultimately show ?thesis by (simp add: kinv_def)
qed

text \<open>
  A thread that is neither ready nor pending is on no queue: an operation may take it in
  hand.
\<close>

lemma detach_kinv:
  assumes k: "kinv S k" and t: "\<not> is_thread_ready k t" "\<not> st k t 1"
  shows "kinv (insert t S) k"
proof -
  have "idle_thread k \<noteq> t" using kinv_idle [OF k] t by auto
  then have "thread_inv (insert t S) k" using kinvD(5) [OF k] by (simp add: thread_inv_def)
  moreover have "ready_inv (insert t S) k"
    unfolding ready_inv_def using kinvD(6) [OF k] kinv_ready_iff [OF k] t by auto
  moreover have "wait_inv (insert t S) k"
    by (rule wait_inv_cong [OF refl _ kinvD(2) [OF k]]) (use t in auto)
  moreover have "link_inv (insert t S) k" using kinvD(4) [OF k] by (simp add: link_inv_def)
  ultimately show ?thesis using kinvD(3) [OF k] by (simp add: kinv_def)
qed

text \<open>Conversely, such a thread may be let go of.\<close>

lemma attach_kinv:
  assumes k: "kinv (insert t S) k" and t: "\<not> is_thread_ready k t" "\<not> st k t 1"
    and l: "delta k (ThreadTO t) \<noteq> INACTIVE \<Longrightarrow> timeout_link k t"
  shows "kinv S k"
proof -
  have "thread_inv S k" using kinvD(5) [OF k] by (simp add: thread_inv_def)
  moreover have "ready_inv S k"
    unfolding ready_inv_def using kinvD(6) [OF k] kinv_ready_iff [OF k] t by auto
  moreover have "wait_inv S k"
    by (rule wait_inv_cong [OF refl _ kinvD(2) [OF k]]) (use t in auto)
  moreover have "link_inv S k"
    using kinvD(4) [OF k] l unfolding link_inv_def by (metis insert_iff)
  ultimately show ?thesis using kinvD(3) [OF k] by (simp add: kinv_def)
qed

lemma ready_thread_frame:
  shows "timeouts (ready_thread t k) = timeouts k" "timeout_q (ready_thread t k) = timeout_q k"
    "idle_thread (ready_thread t k) = idle_thread k" "current (ready_thread t k) = current k"
    "queues (ready_thread t k) (WaitQ w) = queues k (WaitQ w)"
    "prio (threads (ready_thread t k) u) = prio (threads k u)"
    "handling_timeouts (ready_thread t k) = handling_timeouts k" "nested (ready_thread t k) = nested k"
    "kernel.more (ready_thread t k) = kernel.more k"
  by (simp_all add: ready_thread_def Let_def mark_thread_as_started_def)

lemma st_ready_thread: "st (ready_thread t k) u n \<longleftrightarrow> st k u n \<and> \<not> (u = t \<and> n = 2)"
proof -
  have "threads (ready_thread t k) = threads (mark_thread_as_started t k)"
    by (simp add: ready_thread_def Let_def)
  then show ?thesis by (simp add: st_mark)
qed

lemma is_thread_ready_ready_thread:
  "is_thread_ready (ready_thread t k) u \<longleftrightarrow>
     (if u = t then is_thread_ready (mark_thread_as_started t k) t else is_thread_ready k u)"
  by (auto simp: is_thread_ready_iff st_ready_thread st_mark ready_thread_frame)

lemma ready_thread_kinv:
  assumes k: "kinv (insert t S) k" and t: "t \<notin> S" "\<not> st k t 1" "delta k (ThreadTO t) = INACTIVE"
  shows "kinv S (ready_thread t k)"
proof -
  let ?k1 = "mark_thread_as_started t k" and ?k = "ready_thread t k"
  have r1: "rq_ok ?k1"
    unfolding mark_thread_as_started_def by (rule rq_ok_upd_thread) (simp_all add: kinvD(6) [OF k])
  have l1: "ready_list ?k1 = ready_list k" by (simp add: mark_thread_as_started_def)
  have nt: "t \<notin> set (ready_list k)" using kinv_ready_iff [OF k, of t] by simp
  have p1: "prio_ok (prio (threads ?k1 t))"
    using kinv_prio [OF k, of t] by (simp add: mark_thread_as_started_def)
  have rl: "rq_ok ?k \<and> set (ready_list ?k) =
      (if is_thread_ready ?k1 t then insert t (set (ready_list k)) else set (ready_list k))"
    using add_ok [OF r1 p1] nt r1 by (simp add: ready_thread_def Let_def l1)
  have "u \<in> set (ready_list ?k) \<longleftrightarrow> is_thread_ready ?k u \<and> u \<notin> S" for u
  proof (cases "u = t")
    case True
    then show ?thesis using rl nt t(1) by (simp add: is_thread_ready_ready_thread)
  next
    case False
    then show ?thesis
      using rl kinv_ready_iff [OF k, of u] by (simp add: is_thread_ready_ready_thread)
  qed
  with rl have "ready_inv S ?k" by (simp add: ready_inv_def)
  moreover have "wait_inv S ?k"
    by (rule wait_inv_cong [OF ready_thread_frame(5) _ kinvD(2) [OF k]])
       (use t in \<open>auto simp: st_ready_thread\<close>)
  moreover have "delta_inv ?k" using kinvD(3) [OF k] by (simp add: delta_inv_def ready_thread_frame)
  moreover have "timeout_link ?k u \<longleftrightarrow> timeout_link k u" for u
    by (rule timeout_link_cong) (simp_all add: ready_thread_frame st_ready_thread)
  then have "link_inv S ?k"
    using kinvD(4) [OF k] t(3) unfolding link_inv_def ready_thread_frame by (metis insert_iff)
  moreover have "thread_inv S ?k"
    using kinvD(5) [OF k] by (auto simp: thread_inv_def ready_thread_frame is_thread_ready_ready_thread)
  ultimately show ?thesis by (simp add: kinv_def)
qed

lemma remove_kinv:
  assumes k: "kinv S k" and t: "is_thread_ready k t" "t \<notin> S" "t \<noteq> idle_thread k"
  shows "kinv (insert t S) (remove_thread_from_ready_q t k)"
    and "ready_list (remove_thread_from_ready_q t k) = remove1 t (ready_list k)"
proof -
  let ?k = "remove_thread_from_ready_q t k"
  have "idle_thread k \<in> set (remove1 t (ready_list k))"
    using kinv_idle_listed [OF k] t(3) by (metis in_set_remove1)
  then have ne: "remove1 t (ready_list k) \<noteq> []" by auto
  note r = remove_ok [OF kinvD(6) [OF k] kinv_prio [OF k] ne]
  show "ready_list ?k = remove1 t (ready_list k)" by (rule r)
  have rdy: "is_thread_ready ?k u \<longleftrightarrow> is_thread_ready k u" for u by (simp add: is_thread_ready_iff)
  have "set (ready_list ?k) = set (ready_list k) - {t}"
    using r ready_list_distinct [OF kinvD(7) [OF k]] by simp
  then have "ready_inv (insert t S) ?k"
    using r(1) kinv_ready_iff [OF k] by (auto simp: ready_inv_def rdy)
  moreover have w: "queues ?k (WaitQ w) = queues k (WaitQ w)" for w
    using kinv_waiting [OF k, of t w] t by (auto simp: is_thread_ready_iff intro: remove1_idem)
  moreover have "wait_inv (insert t S) ?k"
    by (rule wait_inv_cong [OF w _ kinvD(2) [OF k]]) (use t in \<open>auto simp: is_thread_ready_iff\<close>)
  moreover have "delta_inv ?k" using kinvD(3) [OF k] by (simp add: delta_inv_def)
  moreover have "timeout_link ?k u \<longleftrightarrow> timeout_link k u" for u
    by (rule timeout_link_cong) (simp_all add: w del: wait_queues_remove)
  then have "link_inv (insert t S) ?k"
    using kinvD(4) [OF k] by (simp add: link_inv_def)
  moreover have "thread_inv (insert t S) ?k"
    using kinvD(5) [OF k] t(3) by (auto simp: thread_inv_def rdy)
  ultimately show "kinv (insert t S) ?k" by (simp add: kinv_def)
qed

lemma mark_started_id: "\<not> st k t 2 \<Longrightarrow> mark_thread_as_started t k = k"
proof -
  assume a: "\<not> st k t 2"
  have "thread_state (threads k t) AND NOT THREAD_PRESTART = thread_state (threads k t)"
    by (rule bit_eqI) (use a in \<open>auto simp: bit_and_not_iff_word\<close>)
  then have "thread_state_update (\<lambda>s. s AND NOT THREAD_PRESTART) (threads k t) = threads k t"
    by (cases "threads k t") simp
  then show ?thesis by (simp add: mark_thread_as_started_def upd_thread_def)
qed

lemma ready_thread_eq_add: "is_thread_ready k t \<Longrightarrow> ready_thread t k = add_thread_to_ready_q t k"
  by (simp add: ready_thread_def mark_started_id is_thread_ready_iff)

lemma add_kinv:
  assumes "kinv (insert t S) k" "t \<notin> S" "is_thread_ready k t"
  shows "kinv S (add_thread_to_ready_q t k)"
  using ready_thread_kinv [OF assms(1,2)] assms(3)
  by (simp add: ready_thread_eq_add) (simp add: is_thread_ready_iff)

text \<open>An update of a thread that is on no ready queue and that leaves its state alone.\<close>

lemma upd_thread_kinv:
  assumes k: "kinv S k" and f: "thread_state (f (threads k t)) = thread_state (threads k t)"
    and p: "prio_ok (prio (f (threads k t)))"
    and r: "prio (f (threads k t)) = prio (threads k t) \<or> t \<notin> set (ready_list k)"
  shows "kinv S (upd_thread t f k)"
proof -
  let ?k = "upd_thread t f k"
  have st: "st ?k u n \<longleftrightarrow> st k u n" for u n using f by simp
  have rdy: "is_thread_ready ?k u \<longleftrightarrow> is_thread_ready k u" for u
    unfolding is_thread_ready_iff st by simp
  have "rq_ok ?k" by (rule rq_ok_cong [of _ k]) (use r kinvD(6) [OF k] in auto)
  then have "ready_inv S ?k" using kinv_ready_iff [OF k] by (simp add: ready_inv_def rdy)
  moreover have "wait_inv S ?k"
    by (rule wait_inv_cong [OF _ _ kinvD(2) [OF k]]) (simp, simp only: st)
  moreover have "delta_inv ?k" using kinvD(3) [OF k] by (subst delta_inv_cong [of _ k]) simp_all
  moreover have "timeout_link ?k u \<longleftrightarrow> timeout_link k u" for u
    by (rule timeout_link_cong) (simp, simp only: st, simp)
  then have "link_inv S ?k" using kinvD(4) [OF k] by (simp add: link_inv_def)
  moreover have "thread_inv S ?k"
    using kinvD(5) [OF k] p by (auto simp: thread_inv_def rdy)
  ultimately show ?thesis by (simp add: kinv_def)
qed

lemma to_s8_prio: "prio_ok p \<Longrightarrow> to_s8 p = p"
  by (rule to_s8_id) (auto simp: prio_ok_simps)

lemma set_prio_kinv:
  assumes "kinv S k" "prio_ok p" "t \<notin> set (ready_list k)"
  shows "kinv S (set_prio t p k)"
  unfolding set_prio_def using assms by (intro upd_thread_kinv) (simp_all add: to_s8_prio)

lemma thread_priority_set_kinv:
  assumes k: "kinv S k" and p: "prio_ok p" and t: "t \<noteq> idle_thread k" "t \<notin> S"
  shows "kinv S (thread_priority_set t p k)"
proof (cases "is_thread_ready k t")
  case True
  note r = remove_kinv [OF k True t(2,1)]
  let ?k1 = "remove_thread_from_ready_q t k"
  have "t \<notin> set (ready_list ?k1)" using kinv_ready_iff [OF r(1), of t] by simp
  with r p have "kinv (insert t S) (set_prio t p ?k1)" by (intro set_prio_kinv)
  moreover have "is_thread_ready (set_prio t p ?k1) t"
    using True by (simp add: is_thread_ready_iff set_prio_def)
  ultimately show ?thesis using True t by (simp add: thread_priority_set_def add_kinv)
next
  case False
  with k have "t \<notin> set (ready_list k)" by (simp add: kinv_ready_iff)
  with False k p show ?thesis by (simp add: thread_priority_set_def set_prio_kinv)
qed

text \<open>Where the thread is afterwards: behind the threads that have the priority it is given.\<close>

lemma thread_priority_set_list:
  assumes k: "kinv S k" and p: "prio_ok p" and t: "t \<noteq> idle_thread k" "t \<notin> S"
  shows "ready_list (thread_priority_set t p k) =
    (if is_thread_ready k t
     then prio_insert (\<lambda>u. if u = t then p else prio (threads k u)) t (remove1 t (ready_list k))
     else ready_list k)"
proof (cases "is_thread_ready k t")
  case True
  note r = remove_kinv [OF k True t(2,1)]
  let ?k1 = "remove_thread_from_ready_q t k"
  have nt: "t \<notin> set (ready_list ?k1)" using kinv_ready_iff [OF r(1), of t] by simp
  with r p have k2: "kinv (insert t S) (set_prio t p ?k1)" by (intro set_prio_kinv)
  have "ready_list (add_thread_to_ready_q t (set_prio t p ?k1)) =
      prio_insert (\<lambda>u. prio (threads (set_prio t p ?k1) u)) t (ready_list (set_prio t p ?k1))"
    using nt by (intro add_ok(2) kinvD(6) [OF k2] kinv_prio [OF k2]) (simp add: set_prio_def)
  also have "\<dots> = prio_insert (\<lambda>u. if u = t then p else prio (threads k u)) t (remove1 t (ready_list k))"
    by (simp add: set_prio_def r(2) to_s8_prio [OF p] if_distrib cong: if_cong)
  finally show ?thesis using True by (simp add: thread_priority_set_def)
qed (simp add: thread_priority_set_def set_prio_def)

lemma unpend_first_kinv:
  assumes k: "kinv S k" and t: "unpend_first_thread w k = (Some t, k')"
  shows "t \<in> set (queues k (WaitQ w))" "k' = unpend_thread t k" "kinv (insert t S) k'" "t \<notin> S"
    "\<not> st k' t 1" "t \<noteq> idle_thread k"
proof -
  from t have f: "find_first_thread_to_unpend k w None = Some t" and k': "k' = unpend_thread t k"
    by (auto simp: unpend_first_thread_def Let_def)
  from f show m: "t \<in> set (queues k (WaitQ w))"
    by (auto simp: find_first_thread_to_unpend_def find_Some_iff split: if_splits list.splits)
  from kinv_waiting [OF k m] have p: "st k t 1" and n: "t \<notin> S" by simp_all
  show "k' = unpend_thread t k" "t \<notin> S" by (fact k' n)+
  from k p n show "kinv (insert t S) k'" unfolding k' by (intro unpend_kinv)
  show "\<not> st k' t 1" by (simp add: k' st_unpend)
  show "t \<noteq> idle_thread k" using kinv_idle [OF k] p by (auto simp: is_thread_ready_iff)
qed

end
