(* ===== verification/Timeout_Queue.thy ===== *)
theory Timeout_Queue
  imports Wait_Queue
begin

text \<open>
  The timeout queue (\<^verbatim>\<open>kernel/include/timeout_q.h\<close>): the timeouts that count down, in
  order of expiry, each holding the number of ticks between the expiry of its
  predecessor and its own. The specification is the list \<open>expiries\<close> of the timeouts with
  the ticks that remain to each: adding a timeout inserts it in front of those that expire on
  the same tick or later, and neither adding nor aborting a timeout moves any other.

  A timeout that belongs to no thread calls a function when it expires; that function
  is the parameter \<open>call\<close> of the operations, applied to the name of the function and the
  timeout. Deltas are integers: the bound on them is a theorem.
\<close>

section \<open>Operations\<close>

definition init_timeout :: "toref \<Rightarrow> nat option \<Rightarrow> 'a kernel_scheme \<Rightarrow> 'a kernel_scheme" where
  "init_timeout r func k =
     upd_timeout r (\<lambda>t. t\<lparr>delta_ticks_from_prev := INACTIVE, to_wait_q := None,
       to_thread := None, to_func := func\<rparr>) k"

definition init_thread_timeout :: "tid \<Rightarrow> 'a kernel_scheme \<Rightarrow> 'a kernel_scheme" where
  "init_thread_timeout t k = init_timeout (ThreadTO t) None k"

definition unpend_thread_timing_out :: "tid \<Rightarrow> toref \<Rightarrow> 'a kernel_scheme \<Rightarrow> 'a kernel_scheme" where
  "unpend_thread_timing_out t r k =
     (if to_wait_q (timeouts k r) \<noteq> None
      then upd_timeout (ThreadTO t) (to_wait_q_update (\<lambda>_. None)) (unpend_thread t k)
      else k)"

abbreviation dt :: "k_timeout \<Rightarrow> int" where
  "dt \<equiv> delta_ticks_from_prev"

definition with_delta :: "(toref \<Rightarrow> k_timeout) \<Rightarrow> toref \<Rightarrow> int \<Rightarrow> toref \<Rightarrow> k_timeout" where
  "with_delta T r d = T(r := (T r)\<lparr>delta_ticks_from_prev := d\<rparr>)"

definition set_delta :: "toref \<Rightarrow> int \<Rightarrow> 'a kernel_scheme \<Rightarrow> 'a kernel_scheme" where
  "set_delta r d k = k\<lparr>timeouts := with_delta (timeouts k) r d\<rparr>"

definition handle_one_expired_timeout ::
  "(nat \<Rightarrow> toref \<Rightarrow> 'a kernel_scheme \<Rightarrow> 'a kernel_scheme) \<Rightarrow> toref \<Rightarrow> 'a kernel_scheme \<Rightarrow> 'a kernel_scheme" where
  "handle_one_expired_timeout call r k =
     (let thread = to_thread (timeouts k r);
          k1 = set_delta r INACTIVE k
      in case thread of
           Some t \<Rightarrow> ready_thread t (unpend_thread_timing_out t r k1)
         | None \<Rightarrow> (case to_func (timeouts k1 r) of Some f \<Rightarrow> call f r k1 | None \<Rightarrow> k1))"

fun handle_expired_timeouts ::
  "(nat \<Rightarrow> toref \<Rightarrow> 'a kernel_scheme \<Rightarrow> 'a kernel_scheme) \<Rightarrow> toref list \<Rightarrow> 'a kernel_scheme \<Rightarrow> 'a kernel_scheme" where
  "handle_expired_timeouts call [] k = k"
| "handle_expired_timeouts call (r # rs) k =
     handle_expired_timeouts call rs (handle_one_expired_timeout call r k)"

text \<open>\<^verbatim>\<open>sys_dlist_peek_next\<close> on the timeout queue.\<close>

fun list_next :: "'b \<Rightarrow> 'b list \<Rightarrow> 'b option" where
  "list_next x (y # z # zs) = (if y = x then Some z else list_next x (z # zs))"
| "list_next x _ = None"

text \<open>
  Aborting a timeout that is on the timeout queue or inactive. One that has expired and waits in the loop of
  \<^verbatim>\<open>_handle_expired_timeouts\<close> to be handled is on a list that is local to the caller, and the source adds to the field of
  whatever follows it there; the local list is not part of the state, and the results on this operation are about timeouts
  that are not \<^verbatim>\<open>_EXPIRED\<close>, which is the case whenever no interrupt is being served.
\<close>

definition abort_timeout :: "toref \<Rightarrow> 'a kernel_scheme \<Rightarrow> int \<times> 'a kernel_scheme" where
  "abort_timeout r k =
     (if delta k r = INACTIVE then (INACTIVE, k)
      else
        let k1 = (if \<not> (timeout_q k \<noteq> [] \<and> last (timeout_q k) = r)
                  then (case list_next r (timeout_q k) of
                          Some n \<Rightarrow> set_delta n (delta k n + delta k r) k
                        | None \<Rightarrow> k)
                  else k);
            k2 = k1\<lparr>timeout_q := remove1 r (timeout_q k1)\<rparr>
        in (0, set_delta r INACTIVE k2))"

definition abort_thread_timeout :: "tid \<Rightarrow> 'a kernel_scheme \<Rightarrow> int \<times> 'a kernel_scheme" where
  "abort_thread_timeout t k = abort_timeout (ThreadTO t) k"

text \<open>
  The loop of \<^verbatim>\<open>_add_timeout\<close> over the queue: \<open>insert_timeout T r qs\<close> is the queue and
  the timeouts after it.
\<close>

fun insert_timeout :: "(toref \<Rightarrow> k_timeout) \<Rightarrow> toref \<Rightarrow> toref list \<Rightarrow> toref list \<times> (toref \<Rightarrow> k_timeout)" where
  "insert_timeout T r [] = ([r], T)"
| "insert_timeout T r (q # qs) =
     (if dt (T r) \<le> dt (T q) then (r # q # qs, with_delta T q (dt (T q) - dt (T r)))
      else let (qs', T') = insert_timeout (with_delta T r (dt (T r) - dt (T q))) r qs
           in (q # qs', T'))"

definition arm_timeout ::
  "(toref \<Rightarrow> k_timeout) \<Rightarrow> toref \<Rightarrow> tid option \<Rightarrow> waddr option \<Rightarrow> int \<Rightarrow> toref \<Rightarrow> k_timeout" where
  "arm_timeout T r thread w ticks =
     T(r := (T r)\<lparr>delta_ticks_from_prev := ticks, to_thread := thread, to_wait_q := w\<rparr>)"

definition add_timeout ::
  "(nat \<Rightarrow> toref \<Rightarrow> 'a kernel_scheme \<Rightarrow> 'a kernel_scheme) \<Rightarrow> tid option \<Rightarrow> toref \<Rightarrow> waddr option \<Rightarrow>
   int \<Rightarrow> 'a kernel_scheme \<Rightarrow> 'a kernel_scheme" where
  "add_timeout call thread r w timeout_in_ticks k =
     (let k1 = k\<lparr>timeouts := arm_timeout (timeouts k) r thread w timeout_in_ticks\<rparr>
      in if timeout_in_ticks = 0 then handle_one_expired_timeout call r k1
         else let (qs, T) = insert_timeout (timeouts k1) r (timeout_q k1)
              in k1\<lparr>timeout_q := qs, timeouts := T\<rparr>)"

text \<open>The timeout of a thread never calls a function.\<close>

definition thread_call :: "nat \<Rightarrow> toref \<Rightarrow> 'a kernel_scheme \<Rightarrow> 'a kernel_scheme" where
  "thread_call f r k = k"

definition add_thread_timeout :: "tid \<Rightarrow> waddr option \<Rightarrow> int \<Rightarrow> 'a kernel_scheme \<Rightarrow> 'a kernel_scheme" where
  "add_thread_timeout t w timeout_in_ticks k =
     add_timeout thread_call (Some t) (ThreadTO t) w timeout_in_ticks k"

definition get_next_timeout_expiry :: "'a kernel_scheme \<Rightarrow> int" where
  "get_next_timeout_expiry k = (case timeout_q k of [] \<Rightarrow> K_FOREVER | r # _ \<Rightarrow> delta k r)"

section \<open>Specification\<close>

fun expiries :: "(toref \<Rightarrow> k_timeout) \<Rightarrow> int \<Rightarrow> toref list \<Rightarrow> (toref \<times> int) list" where
  "expiries T a [] = []"
| "expiries T a (q # qs) =
     (q, a + delta_ticks_from_prev (T q)) # expiries T (a + delta_ticks_from_prev (T q)) qs"

definition remaining :: "'a kernel_scheme \<Rightarrow> (toref \<times> int) list" where
  "remaining k = expiries (timeouts k) 0 (timeout_q k)"

definition expiry_insert :: "toref \<Rightarrow> int \<Rightarrow> (toref \<times> int) list \<Rightarrow> (toref \<times> int) list" where
  "expiry_insert r e xs =
     takeWhile (\<lambda>(_, e'). e' < e) xs @ (r, e) # dropWhile (\<lambda>(_, e'). e' < e) xs"

lemma expiries_cong:
  "(\<And>q. q \<in> set qs \<Longrightarrow> delta_ticks_from_prev (T' q) = delta_ticks_from_prev (T q)) \<Longrightarrow>
   expiries T' a qs = expiries T a qs"
  by (induction qs arbitrary: a) auto

lemma map_fst_expiries [simp]: "map fst (expiries T a qs) = qs"
  by (induction qs arbitrary: a) auto

lemma with_delta_simps [simp]:
  "dt (with_delta T r d x) = (if x = r then d else dt (T x))"
  "to_thread (with_delta T r d x) = to_thread (T x)" "to_wait_q (with_delta T r d x) = to_wait_q (T x)"
  "to_func (with_delta T r d x) = to_func (T x)" "x \<noteq> r \<Longrightarrow> with_delta T r d x = T x"
  by (simp_all add: with_delta_def)

lemma expiries_with_delta [simp]: "r \<notin> set qs \<Longrightarrow> expiries (with_delta T r d) a qs = expiries T a qs"
  by (rule expiries_cong) auto

lemmas insert_timeout_step = case_prod_unfold Let_def

lemma insert_timeout_other:
  "x \<noteq> r \<Longrightarrow> x \<notin> set qs \<Longrightarrow> snd (insert_timeout T r qs) x = T x"
  by (induction T r qs rule: insert_timeout.induct) (auto simp: insert_timeout_step)

lemma insert_timeout_links:
  "to_thread (snd (insert_timeout T r qs) x) = to_thread (T x)"
  "to_wait_q (snd (insert_timeout T r qs) x) = to_wait_q (T x)"
  "to_func (snd (insert_timeout T r qs) x) = to_func (T x)"
  by (induction T r qs rule: insert_timeout.induct) (auto simp: insert_timeout_step)

lemma set_insert_timeout: "set (fst (insert_timeout T r qs)) = insert r (set qs)"
  by (induction T r qs rule: insert_timeout.induct) (auto simp: insert_timeout_step)

lemma distinct_insert_timeout:
  "distinct qs \<Longrightarrow> r \<notin> set qs \<Longrightarrow> distinct (fst (insert_timeout T r qs))"
  by (induction T r qs rule: insert_timeout.induct)
     (auto simp: insert_timeout_step set_insert_timeout)

lemma insert_timeout_expiries:
  assumes "r \<notin> set qs" "distinct qs"
  shows "expiries (snd (insert_timeout T r qs)) a (fst (insert_timeout T r qs)) =
    expiry_insert r (a + dt (T r)) (expiries T a qs)"
  using assms
proof (induction T r qs arbitrary: a rule: insert_timeout.induct)
  case (2 T r q qs)
  show ?case
  proof (cases "dt (T r) \<le> dt (T q)")
    case True
    with 2 show ?thesis by (simp add: expiry_insert_def)
  next
    case False
    let ?i = "insert_timeout (with_delta T r (dt (T r) - dt (T q))) r qs"
    have "q \<noteq> r" using 2 by auto
    then have q: "snd ?i q = T q" using 2 by (simp add: insert_timeout_other)
    have "expiries (snd ?i) (a + dt (T q)) (fst ?i) =
        expiry_insert r (a + dt (T r)) (expiries T (a + dt (T q)) qs)"
      using 2 False by simp
    with False q show ?thesis by (simp add: expiry_insert_def insert_timeout_step)
  qed
qed (simp add: expiry_insert_def)

text \<open>The new timeout keeps at least a tick, and no delta becomes negative.\<close>

lemma insert_timeout_nonneg:
  assumes "r \<notin> set qs" "distinct qs" "0 < dt (T r)" "\<forall>q \<in> set qs. 0 \<le> dt (T q)"
  shows "\<forall>x \<in> insert r (set qs). 0 \<le> dt (snd (insert_timeout T r qs) x)"
  using assms
proof (induction T r qs rule: insert_timeout.induct)
  case (2 T r q qs)
  show ?case
  proof (cases "dt (T r) \<le> dt (T q)")
    case True
    with 2 show ?thesis by (auto simp: less_imp_le)
  next
    case False
    let ?i = "insert_timeout (with_delta T r (dt (T r) - dt (T q))) r qs"
    have "q \<noteq> r" using 2 by auto
    then have "snd ?i q = T q" using 2 by (simp add: insert_timeout_other)
    moreover have "\<forall>x \<in> insert r (set qs). 0 \<le> dt (snd ?i x)" using 2 False by simp
    ultimately show ?thesis using 2 False by (simp add: insert_timeout_step)
  qed
qed auto

lemma insert_timeout_head:
  assumes "r \<notin> set qs" "distinct qs" "0 < dt (T r)" "qs \<noteq> [] \<longrightarrow> 0 < dt (T (hd qs))"
  shows "0 < dt (snd (insert_timeout T r qs) (hd (fst (insert_timeout T r qs))))"
  using assms by (cases qs) (auto simp: insert_timeout_step insert_timeout_other)

section \<open>Adding a timeout\<close>

lemma set_delta_simps [simp]:
  "queues (set_delta r d k) = queues k" "threads (set_delta r d k) = threads k"
  "timeout_q (set_delta r d k) = timeout_q k" "idle_thread (set_delta r d k) = idle_thread k"
  "prio_bmap (set_delta r d k) = prio_bmap k" "cache (set_delta r d k) = cache k"
  "current (set_delta r d k) = current k" "handling_timeouts (set_delta r d k) = handling_timeouts k"
  "nested (set_delta r d k) = nested k" "kernel.more (set_delta r d k) = kernel.more k"
  "ready_list (set_delta r d k) = ready_list k"
  "timeouts (set_delta r d k) = with_delta (timeouts k) r d"
  by (simp_all add: set_delta_def ready_list_def)

lemma arm_timeout_simps [simp]:
  "dt (arm_timeout T r th w ticks x) = (if x = r then ticks else dt (T x))"
  "to_thread (arm_timeout T r th w ticks x) = (if x = r then th else to_thread (T x))"
  "to_wait_q (arm_timeout T r th w ticks x) = (if x = r then w else to_wait_q (T x))"
  "to_func (arm_timeout T r th w ticks x) = to_func (T x)"
  "x \<noteq> r \<Longrightarrow> arm_timeout T r th w ticks x = T x"
  by (simp_all add: arm_timeout_def)

lemma add_timeout_eq:
  assumes "ticks \<noteq> 0"
  shows "add_timeout call th r w ticks k =
    k\<lparr>timeout_q := fst (insert_timeout (arm_timeout (timeouts k) r th w ticks) r (timeout_q k)),
      timeouts := snd (insert_timeout (arm_timeout (timeouts k) r th w ticks) r (timeout_q k))\<rparr>"
  using assms by (simp add: add_timeout_def Let_def case_prod_unfold)

lemma add_timeout_frame:
  assumes "ticks \<noteq> 0"
  shows "queues (add_timeout call th r w ticks k) = queues k"
    "threads (add_timeout call th r w ticks k) = threads k"
    "idle_thread (add_timeout call th r w ticks k) = idle_thread k"
    "prio_bmap (add_timeout call th r w ticks k) = prio_bmap k"
    "cache (add_timeout call th r w ticks k) = cache k"
    "current (add_timeout call th r w ticks k) = current k"
    "ready_list (add_timeout call th r w ticks k) = ready_list k"
    "nested (add_timeout call th r w ticks k) = nested k"
    "handling_timeouts (add_timeout call th r w ticks k) = handling_timeouts k"
    "kernel.more (add_timeout call th r w ticks k) = kernel.more k"
  using assms by (simp_all add: add_timeout_eq ready_list_def)

lemma add_timeout_links:
  assumes "ticks \<noteq> 0"
  shows "to_thread (timeouts (add_timeout call th r w ticks k) x) =
      (if x = r then th else to_thread (timeouts k x))"
    "to_wait_q (timeouts (add_timeout call th r w ticks k) x) =
      (if x = r then w else to_wait_q (timeouts k x))"
    "to_func (timeouts (add_timeout call th r w ticks k) x) = to_func (timeouts k x)"
    "set (timeout_q (add_timeout call th r w ticks k)) = insert r (set (timeout_q k))"
    "x \<noteq> r \<Longrightarrow> x \<notin> set (timeout_q k) \<Longrightarrow> timeouts (add_timeout call th r w ticks k) x = timeouts k x"
  using assms by (simp_all add: add_timeout_eq insert_timeout_links insert_timeout_other set_insert_timeout)

lemma add_timeout_remaining:
  assumes "ticks \<noteq> 0" "r \<notin> set (timeout_q k)" "distinct (timeout_q k)"
  shows "remaining (add_timeout call th r w ticks k) = expiry_insert r ticks (remaining k)"
proof -
  let ?T = "arm_timeout (timeouts k) r th w ticks"
  have "expiries ?T 0 (timeout_q k) = expiries (timeouts k) 0 (timeout_q k)"
    using assms(2) by (intro expiries_cong) auto
  then show ?thesis
    using assms insert_timeout_expiries [OF assms(2,3), of ?T 0]
    by (simp add: remaining_def add_timeout_eq)
qed

lemma add_timeout_delta_inv:
  assumes k: "delta_inv k" and r: "r \<notin> set (timeout_q k)" and t: "0 < ticks"
  shows "delta_inv (add_timeout call th r w ticks k)"
proof -
  let ?T = "arm_timeout (timeouts k) r th w ticks"
  let ?i = "insert_timeout ?T r (timeout_q k)"
  have d: "distinct (timeout_q k)" "timeout_q k \<noteq> [] \<longrightarrow> 0 < dt (?T (hd (timeout_q k)))"
    "\<forall>q \<in> set (timeout_q k). 0 \<le> dt (?T q)"
    using k r t by (auto simp: delta_inv_def)
  have nn: "\<forall>x \<in> insert r (set (timeout_q k)). 0 \<le> dt (snd ?i x)"
    using insert_timeout_nonneg [OF r d(1) _ d(3)] t by simp
  have out: "snd ?i x = timeouts k x" if "x \<notin> insert r (set (timeout_q k))" for x
    using that by (simp add: insert_timeout_other)
  have "x \<in> insert r (set (timeout_q k)) \<longleftrightarrow> 0 \<le> dt (snd ?i x)" for x
    using nn out [of x] k by (cases "x \<in> insert r (set (timeout_q k))") (auto simp: delta_inv_def)
  moreover have "EXPIRED \<le> dt (snd ?i x)" for x
    using nn out [of x] k by (cases "x \<in> insert r (set (timeout_q k))")
      (auto simp: delta_inv_def EXPIRED_def intro: order_trans [of _ 0])
  moreover have "0 < dt (snd ?i (hd (fst ?i)))"
    using insert_timeout_head [OF r d(1), of ?T] d(2) t by simp
  ultimately show ?thesis
    using t d(1) r
    by (simp add: delta_inv_def add_timeout_eq set_insert_timeout distinct_insert_timeout)
qed

section \<open>Aborting a timeout\<close>

lemma list_next_split:
  "r \<notin> set us \<Longrightarrow> list_next r (us @ r # vs) = (case vs of [] \<Rightarrow> None | v # _ \<Rightarrow> Some v)"
proof (induction us)
  case (Cons u us)
  then show ?case by (cases us) auto
qed (cases vs, auto)

lemma filter_expiries: "r \<notin> set qs \<Longrightarrow> filter (\<lambda>(x, _). x \<noteq> r) (expiries T a qs) = expiries T a qs"
  by (induction qs arbitrary: a) auto

lemma expiries_drop_last:
  "r \<notin> set us \<Longrightarrow> filter (\<lambda>(x, _). x \<noteq> r) (expiries T a (us @ [r])) = expiries T a us"
  by (induction us arbitrary: a) auto

lemma expiries_merge:
  assumes "distinct (us @ r # v # ws)"
  shows "expiries (with_delta T v (dt (T v) + dt (T r))) a (us @ v # ws) =
    filter (\<lambda>(x, _). x \<noteq> r) (expiries T a (us @ r # v # ws))"
  using assms
proof (induction us arbitrary: a)
  case Nil
  then have "v \<noteq> r" by auto
  with Nil show ?case by (simp add: filter_expiries algebra_simps)
qed (auto simp: algebra_simps)

lemma abort_timeout_split:
  assumes "timeout_q k = us @ r # vs" "distinct (timeout_q k)" "delta k r \<noteq> INACTIVE"
  shows "abort_timeout r k =
    (0, k\<lparr>timeout_q := us @ vs, timeouts := with_delta
           (case vs of [] \<Rightarrow> timeouts k | v # _ \<Rightarrow> with_delta (timeouts k) v (delta k v + delta k r)) r INACTIVE\<rparr>)"
  using assms
  by (cases vs) (auto simp: abort_timeout_def Let_def list_next_split remove1_append set_delta_def
      split: if_splits)

lemma abort_timeout_remaining:
  assumes q: "r \<in> set (timeout_q k)" and d: "delta_inv k"
  shows "remaining (snd (abort_timeout r k)) = filter (\<lambda>(x, _). x \<noteq> r) (remaining k)"
proof -
  from q obtain us vs where e: "timeout_q k = us @ r # vs" by (meson split_list)
  from d e have dist: "distinct (us @ r # vs)" by (simp add: delta_inv_def)
  have "delta k r \<noteq> INACTIVE" using d q by (auto simp: delta_inv_def INACTIVE_def)
  note a = abort_timeout_split [OF e _ this]
  show ?thesis
  proof (cases vs)
    case Nil
    with a e dist show ?thesis by (simp add: remaining_def expiries_drop_last)
  next
    case (Cons v ws)
    with a e dist show ?thesis by (simp add: remaining_def expiries_merge)
  qed
qed

lemma abort_timeout_inactive: "delta k r = INACTIVE \<Longrightarrow> abort_timeout r k = (INACTIVE, k)"
  by (simp add: abort_timeout_def)

lemma abort_timeout_delta_inv:
  assumes k: "delta_inv k" and r: "r \<in> set (timeout_q k)"
  shows "delta_inv (snd (abort_timeout r k))"
proof -
  from r obtain us vs where e: "timeout_q k = us @ r # vs" by (meson split_list)
  have dist: "distinct (us @ r # vs)" using k e by (simp add: delta_inv_def)
  have mem: "x \<in> set us \<or> x = r \<or> x \<in> set vs \<longleftrightarrow> 0 \<le> delta k x" for x
    using k e by (auto simp: delta_inv_def)
  have low: "EXPIRED \<le> delta k x" for x using k by (simp add: delta_inv_def)
  have hd: "0 < delta k (hd (us @ r # vs))" using k e by (simp add: delta_inv_def)
  have "delta k r \<noteq> INACTIVE" using mem [of r] by (simp add: INACTIVE_def)
  note a = abort_timeout_split [OF e _ this]
  show ?thesis
  proof (cases vs)
    case Nil
    have "x \<in> set us \<longleftrightarrow> 0 \<le> (if x = r then INACTIVE else delta k x)" for x
      using mem [of x] dist Nil by (auto simp: INACTIVE_def)
    moreover have "us \<noteq> [] \<longrightarrow> hd us \<noteq> r \<and> 0 < delta k (hd us)"
      using hd dist by (cases us) auto
    ultimately show ?thesis
      using a dist e low Nil by (auto simp: delta_inv_def EXPIRED_def INACTIVE_def)
  next
    case (Cons v ws)
    let ?d = "\<lambda>x. if x = r then INACTIVE else if x = v then delta k v + delta k r else delta k x"
    have vr: "v \<noteq> r" "0 \<le> delta k v" "0 \<le> delta k r"
      using dist Cons mem [of v] mem [of r] by auto
    have "x \<in> set (us @ vs) \<longleftrightarrow> 0 \<le> ?d x" for x
      using mem [of x] dist vr Cons by (auto simp: INACTIVE_def)
    moreover have "EXPIRED \<le> ?d x" for x
      using low [of x] vr by (auto simp: EXPIRED_def INACTIVE_def)
    moreover have "0 < ?d (hd (us @ vs))"
      using hd dist vr Cons by (cases us) auto
    moreover have "distinct (us @ vs)" using dist Cons by auto
    moreover have q: "timeout_q (snd (abort_timeout r k)) = us @ vs"
      and d: "delta (snd (abort_timeout r k)) x = ?d x" for x
      using a dist e Cons by simp_all
    ultimately show ?thesis
      unfolding delta_inv_def q d by (intro conjI allI impI)
  qed
qed

lemma abort_timeout_frame:
  "queues (snd (abort_timeout r k)) = queues k" "threads (snd (abort_timeout r k)) = threads k"
  "idle_thread (snd (abort_timeout r k)) = idle_thread k"
  "prio_bmap (snd (abort_timeout r k)) = prio_bmap k" "cache (snd (abort_timeout r k)) = cache k"
  "current (snd (abort_timeout r k)) = current k" "ready_list (snd (abort_timeout r k)) = ready_list k"
  "nested (snd (abort_timeout r k)) = nested k"
  "handling_timeouts (snd (abort_timeout r k)) = handling_timeouts k"
  "kernel.more (snd (abort_timeout r k)) = kernel.more k"
  "to_thread (timeouts (snd (abort_timeout r k)) x) = to_thread (timeouts k x)"
  "to_wait_q (timeouts (snd (abort_timeout r k)) x) = to_wait_q (timeouts k x)"
  by (simp_all add: abort_timeout_def Let_def ready_list_def split: option.split)

lemma abort_timeout_delta:
  "delta (snd (abort_timeout r k)) r = INACTIVE"
  by (auto simp: abort_timeout_def Let_def)

section \<open>The operations preserve the invariant\<close>

text \<open>A change of the timeouts only.\<close>

lemma timeouts_change_kinv:
  assumes k: "kinv S k"
    and same: "queues k' = queues k" "threads k' = threads k" "idle_thread k' = idle_thread k"
      "prio_bmap k' = prio_bmap k" "cache k' = cache k"
    and d: "delta_inv k'"
    and ready: "\<And>u. u \<notin> S \<Longrightarrow> is_thread_ready k' u \<longleftrightarrow> is_thread_ready k u"
    and link: "\<And>u. u \<notin> S \<Longrightarrow> delta k' (ThreadTO u) \<noteq> INACTIVE \<Longrightarrow> timeout_link k' u"
  shows "kinv S k'"
proof -
  have l: "ready_list k' = ready_list k" by (rule ready_list_cong) (simp add: same)
  have "rq_ok k'" by (rule rq_ok_cong [of _ k]) (simp_all add: same kinvD [OF k])
  then have "ready_inv S k'" using kinv_ready_iff [OF k] ready by (auto simp: ready_inv_def l)
  moreover have "wait_inv S k'" using kinvD(2) [OF k] by (simp add: wait_inv_def same)
  moreover have "link_inv S k'" using link by (simp add: link_inv_def)
  moreover have "thread_inv S k'" using kinvD(5) [OF k] ready by (simp add: thread_inv_def same)
  ultimately show ?thesis using d by (simp add: kinv_def)
qed

lemma timeout_link_frame:
  assumes "queues k' = queues k" "threads k' = threads k"
    "to_thread (timeouts k' (ThreadTO u)) = to_thread (timeouts k (ThreadTO u))"
    "to_wait_q (timeouts k' (ThreadTO u)) = to_wait_q (timeouts k (ThreadTO u))"
  shows "timeout_link k' u \<longleftrightarrow> timeout_link k u"
  using assms by (simp add: timeout_link_def split: option.split)

lemma list_next_mem: "list_next r qs = Some n \<Longrightarrow> n \<in> set qs"
  by (induction r qs rule: list_next.induct) (auto split: if_splits)

lemma abort_timeout_queue:
  "timeout_q (snd (abort_timeout r k)) = (if delta k r = INACTIVE then timeout_q k else remove1 r (timeout_q k))"
  by (simp add: abort_timeout_def Let_def split: option.split)

lemma abort_timeout_other:
  assumes "x \<noteq> r" "x \<notin> set (timeout_q k)"
  shows "delta (snd (abort_timeout r k)) x = delta k x"
  using assms by (auto simp: abort_timeout_def Let_def dest: list_next_mem split: option.split)

lemma delta_inv_cases:
  assumes "delta_inv k"
  shows "x \<in> set (timeout_q k) \<longleftrightarrow> delta k x \<noteq> INACTIVE \<and> delta k x \<noteq> EXPIRED"
proof -
  from assms have "x \<in> set (timeout_q k) \<longleftrightarrow> 0 \<le> delta k x" "- 2 \<le> delta k x"
    by (auto simp: delta_inv_def EXPIRED_def)
  then show ?thesis by (auto simp: INACTIVE_def EXPIRED_def)
qed

lemma abort_timeout_active_iff:
  assumes k: "delta_inv k" and r: "delta k r \<noteq> EXPIRED" and x: "x \<noteq> r"
  shows "delta (snd (abort_timeout r k)) x = INACTIVE \<longleftrightarrow> delta k x = INACTIVE"
proof (cases "delta k r = INACTIVE")
  case False
  then have rq: "r \<in> set (timeout_q k)" using r by (simp add: delta_inv_cases [OF k])
  let ?k = "snd (abort_timeout r k)"
  have k': "delta_inv ?k" by (rule abort_timeout_delta_inv [OF k rq])
  have "x \<in> set (timeout_q ?k) \<longleftrightarrow> x \<in> set (timeout_q k)"
    using x False by (simp add: abort_timeout_queue)
  then show ?thesis
    using delta_inv_cases [OF k, of x] delta_inv_cases [OF k', of x] abort_timeout_other [OF x]
    by metis
qed (simp add: abort_timeout_inactive)

lemma abort_timeout_inv:
  assumes k: "delta_inv k" and r: "delta k r \<noteq> EXPIRED"
  shows "delta_inv (snd (abort_timeout r k))"
  using assms abort_timeout_delta_inv [OF k]
  by (cases "delta k r = INACTIVE") (simp_all add: abort_timeout_inactive delta_inv_cases)

lemma abort_thread_timeout_kinv:
  assumes k: "kinv S k" and t: "t \<in> S" and e: "delta k (ThreadTO t) \<noteq> EXPIRED"
  shows "kinv S (snd (abort_thread_timeout t k))"
proof (rule timeouts_change_kinv [OF k])
  let ?k = "snd (abort_thread_timeout t k)"
  note d = kinvD(3) [OF k]
  show "delta_inv ?k" unfolding abort_thread_timeout_def by (rule abort_timeout_inv [OF d e])
  fix u assume u: "u \<notin> S"
  with t have "ThreadTO u \<noteq> ThreadTO t" by auto
  note a = abort_timeout_active_iff [OF d e this]
  show "is_thread_ready ?k u \<longleftrightarrow> is_thread_ready k u"
    by (simp add: is_thread_ready_iff abort_thread_timeout_def a abort_timeout_frame)
  have "timeout_link ?k u \<longleftrightarrow> timeout_link k u"
    by (rule timeout_link_frame) (simp_all add: abort_thread_timeout_def abort_timeout_frame)
  then show "timeout_link ?k u" if "delta ?k (ThreadTO u) \<noteq> INACTIVE"
    using that u kinvD(4) [OF k] a by (simp add: link_inv_def abort_thread_timeout_def)
qed (simp_all add: abort_thread_timeout_def abort_timeout_frame)

lemma add_timeout_active_iff:
  assumes k: "delta_inv k" and r: "delta k r = INACTIVE" and t: "0 < ticks"
  shows "delta (add_timeout call th r w ticks k) x = INACTIVE \<longleftrightarrow> x \<noteq> r \<and> delta k x = INACTIVE"
proof -
  let ?k = "add_timeout call th r w ticks k"
  have rq: "r \<notin> set (timeout_q k)" using r by (simp add: delta_inv_cases [OF k])
  have k': "delta_inv ?k" by (rule add_timeout_delta_inv [OF k rq t])
  have "x \<in> set (timeout_q ?k) \<longleftrightarrow> x = r \<or> x \<in> set (timeout_q k)"
    using t by (simp add: add_timeout_links)
  then show ?thesis
    using delta_inv_cases [OF k, of x] delta_inv_cases [OF k', of x] t
      add_timeout_links(5) [of ticks x r k call th w]
    by (cases "x = r") (simp, metis less_irrefl)
qed

lemma add_thread_timeout_frame:
  assumes "0 < ticks"
  shows "queues (add_thread_timeout t w ticks k) = queues k"
    "threads (add_thread_timeout t w ticks k) = threads k"
    "idle_thread (add_thread_timeout t w ticks k) = idle_thread k"
    "cache (add_thread_timeout t w ticks k) = cache k"
    "current (add_thread_timeout t w ticks k) = current k"
    "ready_list (add_thread_timeout t w ticks k) = ready_list k"
    "handling_timeouts (add_thread_timeout t w ticks k) = handling_timeouts k"
    "nested (add_thread_timeout t w ticks k) = nested k"
    "kernel.more (add_thread_timeout t w ticks k) = kernel.more k"
  using assms by (simp_all add: add_thread_timeout_def add_timeout_frame)

text \<open>
  Arming the timeout of a thread: after it the thread is on the timeout queue, and
  linked to the wait queue it is pending on, or to none.
\<close>

lemma add_thread_timeout_kinv:
  assumes k: "kinv (insert t S) k \<or> kinv S k \<and> st k t 1"
    and t: "t \<notin> S" "delta k (ThreadTO t) = INACTIVE" and ticks: "0 < ticks"
    and w: "case w of None \<Rightarrow> \<not> st k t 1 | Some q \<Rightarrow> t \<in> set (queues k (WaitQ q))"
    and idle: "t \<noteq> idle_thread k"
  shows "kinv S (add_thread_timeout t w ticks k)"
proof -
  let ?k = "add_thread_timeout t w ticks k"
  have d: "delta_inv k" using k kinvD(3) by blast
  have rq: "ThreadTO t \<notin> set (timeout_q k)" using t by (simp add: delta_inv_cases [OF d])
  have d': "delta_inv ?k"
    unfolding add_thread_timeout_def by (rule add_timeout_delta_inv [OF d rq ticks])
  have act: "delta ?k x = INACTIVE \<longleftrightarrow> x \<noteq> ThreadTO t \<and> delta k x = INACTIVE" for x
    unfolding add_thread_timeout_def by (rule add_timeout_active_iff [OF d t(2) ticks])
  have ready: "is_thread_ready ?k u \<longleftrightarrow> u \<noteq> t \<and> is_thread_ready k u" for u
    using ticks by (auto simp: is_thread_ready_iff act add_thread_timeout_frame)
  have link_t: "timeout_link ?k t"
    using w ticks unfolding timeout_link_def
    by (auto simp: add_thread_timeout_def add_timeout_links add_timeout_frame split: option.splits)
  have link_u: "timeout_link ?k u \<longleftrightarrow> timeout_link k u" if "u \<noteq> t" for u
    by (rule timeout_link_frame)
       (use that ticks in \<open>simp_all add: add_thread_timeout_def add_timeout_links add_timeout_frame\<close>)
  note same = add_thread_timeout_frame [OF ticks]
  have bm: "prio_bmap ?k = prio_bmap k" using ticks by (simp add: add_thread_timeout_def add_timeout_frame)
  from k show ?thesis
  proof
    assume k: "kinv (insert t S) k"
    have k2: "kinv (insert t S) ?k"
      by (rule timeouts_change_kinv [OF k same(1-3) bm same(4) d'])
         (use kinvD(4) [OF k] in \<open>auto simp: ready link_u act link_inv_def\<close>)
    have "\<not> st k t 1" using kinv_waiting [OF k, of t] w by (auto split: option.splits)
    then have "\<not> st ?k t 1" by (simp add: same)
    then show ?thesis by (rule attach_kinv [OF k2, rotated]) (simp_all add: ready link_t)
  next
    assume "kinv S k \<and> st k t 1"
    then have k: "kinv S k" and np: "\<not> is_thread_ready k t" by (simp_all add: is_thread_ready_iff)
    show ?thesis
    proof (rule timeouts_change_kinv [OF k same(1-3) bm same(4) d'])
      fix u assume u: "u \<notin> S"
      show "is_thread_ready ?k u \<longleftrightarrow> is_thread_ready k u" using np by (auto simp: ready)
      show "timeout_link ?k u" if "delta ?k (ThreadTO u) \<noteq> INACTIVE"
        using that u link_t kinvD(4) [OF k] by (cases "u = t") (auto simp: act link_u link_inv_def)
    qed
  qed
qed

text \<open>The timeouts of timers and of work items concern no thread.\<close>

lemma add_object_timeout_kinv:
  assumes k: "kinv S k" and r: "\<forall>t. r \<noteq> ThreadTO t" "delta k r = INACTIVE" and ticks: "0 < ticks"
  shows "kinv S (add_timeout call None r w ticks k)"
    and "is_thread_ready (add_timeout call None r w ticks k) u \<longleftrightarrow> is_thread_ready k u"
proof -
  let ?k = "add_timeout call None r w ticks k"
  note d = kinvD(3) [OF k]
  have rq: "r \<notin> set (timeout_q k)" using r by (simp add: delta_inv_cases [OF d])
  have act: "delta ?k (ThreadTO u) = INACTIVE \<longleftrightarrow> delta k (ThreadTO u) = INACTIVE" for u
    using r add_timeout_active_iff [OF d r(2) ticks, of call None w "ThreadTO u"] by metis
  show ready: "is_thread_ready ?k u \<longleftrightarrow> is_thread_ready k u" for u
    using ticks act by (simp add: is_thread_ready_iff add_timeout_frame)
  have link: "timeout_link ?k u \<longleftrightarrow> timeout_link k u" for u
    by (rule timeout_link_frame) (use r(1) ticks in \<open>auto simp: add_timeout_links add_timeout_frame\<close>)
  show "kinv S ?k"
    by (rule timeouts_change_kinv [OF k _ _ _ _ _ add_timeout_delta_inv [OF d rq ticks]])
       (use ticks kinvD(4) [OF k] in \<open>auto simp: add_timeout_frame ready link act link_inv_def\<close>)
qed

lemma abort_object_timeout_kinv:
  assumes k: "kinv S k" and r: "\<forall>t. r \<noteq> ThreadTO t" "delta k r \<noteq> EXPIRED"
  shows "kinv S (snd (abort_timeout r k))"
    and "delta (snd (abort_timeout r k)) (ThreadTO u) = INACTIVE \<longleftrightarrow> delta k (ThreadTO u) = INACTIVE"
    and "is_thread_ready (snd (abort_timeout r k)) u \<longleftrightarrow> is_thread_ready k u"
proof -
  let ?k = "snd (abort_timeout r k)"
  note d = kinvD(3) [OF k]
  have act: "delta ?k (ThreadTO u) = INACTIVE \<longleftrightarrow> delta k (ThreadTO u) = INACTIVE" for u
    using r(1) by (intro abort_timeout_active_iff [OF d r(2)]) auto
  then show "delta ?k (ThreadTO u) = INACTIVE \<longleftrightarrow> delta k (ThreadTO u) = INACTIVE" .
  show ready: "is_thread_ready ?k u \<longleftrightarrow> is_thread_ready k u" for u
    using act by (simp add: is_thread_ready_iff abort_timeout_frame)
  have link: "timeout_link ?k u \<longleftrightarrow> timeout_link k u" for u
    by (rule timeout_link_frame) (simp_all add: abort_timeout_frame)
  show "kinv S ?k"
    by (rule timeouts_change_kinv [OF k _ _ _ _ _ abort_timeout_inv [OF d r(2)]])
       (use kinvD(4) [OF k] in \<open>auto simp: abort_timeout_frame ready link act link_inv_def\<close>)
qed

lemma set_delta_expired_kinv:
  assumes k: "kinv S k" and t: "t \<in> S \<or> st k t 1" and e: "delta k (ThreadTO t) = EXPIRED"
  shows "kinv S (set_delta (ThreadTO t) INACTIVE k)"
proof (rule timeouts_change_kinv [OF k])
  let ?k = "set_delta (ThreadTO t) INACTIVE k"
  have "ThreadTO t \<notin> set (timeout_q k)" using e by (simp add: delta_inv_cases [OF kinvD(3) [OF k]])
  then show "delta_inv ?k"
    using kinvD(3) [OF k] by (auto simp: delta_inv_def EXPIRED_def INACTIVE_def)
  fix u assume u: "u \<notin> S"
  show "is_thread_ready ?k u \<longleftrightarrow> is_thread_ready k u"
    using t u by (cases "u = t") (simp_all add: is_thread_ready_iff)
  have "timeout_link ?k u \<longleftrightarrow> timeout_link k u" by (rule timeout_link_frame) simp_all
  then show "timeout_link ?k u" if "delta ?k (ThreadTO u) \<noteq> INACTIVE"
    using that u kinvD(4) [OF k] by (auto simp: link_inv_def split: if_splits)
qed simp_all

lemma clear_wait_q_kinv:
  assumes k: "kinv S k" and t: "t \<in> S"
  shows "kinv S (upd_timeout (ThreadTO t) (to_wait_q_update (\<lambda>_. None)) k)"
proof (rule timeouts_change_kinv [OF k])
  let ?k = "upd_timeout (ThreadTO t) (to_wait_q_update (\<lambda>_. None)) k"
  have dl: "delta ?k x = delta k x" for x by simp
  show "delta_inv ?k" using kinvD(3) [OF k] unfolding delta_inv_def dl by simp
  fix u assume u: "u \<notin> S"
  show "is_thread_ready ?k u \<longleftrightarrow> is_thread_ready k u" unfolding is_thread_ready_iff dl by simp
  have "timeout_link ?k u \<longleftrightarrow> timeout_link k u" using u t by (intro timeout_link_frame) auto
  then show "timeout_link ?k u" if "delta ?k (ThreadTO u) \<noteq> INACTIVE"
    using that u kinvD(4) [OF k] unfolding dl by (simp add: link_inv_def)
qed simp_all

text \<open>Handling the expired timeout of a thread that sleeps or waits.\<close>

lemma handle_thread_timeout_kinv:
  assumes k: "kinv {} k" and e: "delta k (ThreadTO t) = EXPIRED"
  shows "kinv {} (handle_one_expired_timeout call (ThreadTO t) k)"
proof -
  let ?r = "ThreadTO t" and ?k1 = "set_delta (ThreadTO t) INACTIVE k"
  have l: "timeout_link k t"
    using kinvD(4) [OF k] e by (simp add: link_inv_def EXPIRED_def INACTIVE_def)
  then have th: "to_thread (timeouts k ?r) = Some t" by (simp add: timeout_link_def)
  have h: "handle_one_expired_timeout call ?r k = ready_thread t (unpend_thread_timing_out t ?r ?k1)"
    by (simp add: handle_one_expired_timeout_def th)
  show ?thesis
  proof (cases "to_wait_q (timeouts k ?r)")
    case None
    with l have "\<not> st k t 1" by (simp add: timeout_link_def)
    moreover have "\<not> is_thread_ready k t"
      using e by (simp add: is_thread_ready_iff EXPIRED_def INACTIVE_def)
    ultimately have "kinv {t} k" using k by (intro detach_kinv)
    then have "kinv {t} ?k1" using e by (intro set_delta_expired_kinv) simp_all
    with \<open>\<not> st k t 1\<close> show ?thesis
      unfolding h by (simp add: unpend_thread_timing_out_def None ready_thread_kinv)
  next
    case (Some w)
    with l have "t \<in> set (queues k (WaitQ w))" by (simp add: timeout_link_def)
    from kinv_waiting [OF k this] have p: "st k t 1" by simp
    with k e have "kinv {} ?k1" by (intro set_delta_expired_kinv) simp_all
    with p have "kinv {t} (unpend_thread t ?k1)" by (intro unpend_kinv) simp_all
    then have "kinv {t} (unpend_thread_timing_out t ?r ?k1)"
      by (simp add: unpend_thread_timing_out_def Some clear_wait_q_kinv)
    then show ?thesis
      unfolding h by (rule ready_thread_kinv)
        (simp_all add: unpend_thread_timing_out_def Some st_unpend)
  qed
qed

section \<open>No timeout is left expired\<close>

text \<open>
  A thread's timeout is marked expired only while the clock handles expired timeouts, and
  during that time the wait queues pass such threads over.
\<close>

definition settled :: "'a kernel_scheme \<Rightarrow> bool" where
  "settled k \<longleftrightarrow> handling_timeouts k \<or> (\<forall>t. delta k (ThreadTO t) \<noteq> EXPIRED)"

lemma settled_cong:
  "timeouts k' = timeouts k \<Longrightarrow> handling_timeouts k' = handling_timeouts k \<Longrightarrow> settled k' \<longleftrightarrow> settled k"
  by (simp add: settled_def)

lemma settled_abort:
  assumes k: "delta_inv k" and r: "delta k r \<noteq> EXPIRED" and s: "settled k"
  shows "settled (snd (abort_timeout r k))"
proof -
  let ?k = "snd (abort_timeout r k)"
  have "delta ?k x \<noteq> EXPIRED" if x: "delta k x \<noteq> EXPIRED" for x
  proof (cases "x \<in> set (timeout_q ?k)")
    case True
    then show ?thesis by (simp add: delta_inv_cases [OF abort_timeout_inv [OF k r]])
  next
    case False
    show ?thesis
    proof (cases "x = r")
      case True
      then show ?thesis by (simp add: abort_timeout_delta) (simp add: INACTIVE_def EXPIRED_def)
    next
      case ne: False
      then have "x \<notin> set (timeout_q k)" using False by (simp add: abort_timeout_queue split: if_splits)
      with x ne show ?thesis by (simp add: abort_timeout_other)
    qed
  qed
  with s show ?thesis by (auto simp: settled_def abort_timeout_frame)
qed

lemma settled_add:
  assumes k: "delta_inv k" and r: "delta k r = INACTIVE" and t: "0 < ticks" and s: "settled k"
  shows "settled (add_timeout call th r w ticks k)"
proof -
  let ?k = "add_timeout call th r w ticks k"
  have rq: "r \<notin> set (timeout_q k)" using r by (simp add: delta_inv_cases [OF k])
  have k': "delta_inv ?k" by (rule add_timeout_delta_inv [OF k rq t])
  have q: "set (timeout_q ?k) = insert r (set (timeout_q k))" using t by (simp add: add_timeout_links)
  have "delta ?k x \<noteq> EXPIRED" if x: "delta k x \<noteq> EXPIRED" for x
  proof (cases "x \<in> set (timeout_q ?k)")
    case True
    then show ?thesis by (simp add: delta_inv_cases [OF k'])
  next
    case False
    then have "x \<noteq> r" "x \<notin> set (timeout_q k)" by (simp_all add: q)
    then have "timeouts ?k x = timeouts k x" using t by (intro add_timeout_links(5)) simp_all
    with x show ?thesis by simp
  qed
  moreover have "handling_timeouts ?k = handling_timeouts k" using t by (simp add: add_timeout_frame)
  ultimately show ?thesis using s by (auto simp: settled_def)
qed

text \<open>A thread the wait queue hands out has not timed out.\<close>

lemma unpend_first_not_expired:
  assumes "settled k" and "unpend_first_thread w k = (Some t, k')"
  shows "delta k (ThreadTO t) \<noteq> EXPIRED"
  using assms
  by (auto simp: settled_def unpend_first_thread_def Let_def find_first_thread_to_unpend_def
      is_thread_timeout_expired_def find_Some_iff split: if_splits list.splits)

section \<open>Properties\<close>

lemma delta_le_expiry:
  "\<forall>q \<in> set qs. 0 \<le> dt (T q) \<Longrightarrow> (r, e) \<in> set (expiries T a qs) \<Longrightarrow> 0 \<le> a \<Longrightarrow> dt (T r) \<le> e \<and> a \<le> e"
proof (induction qs arbitrary: a)
  case (Cons q qs)
  show ?case
  proof (cases "(r, e) = (q, a + dt (T q))")
    case False
    then have "(r, e) \<in> set (expiries T (a + dt (T q)) qs)" using Cons.prems(2) by auto
    with Cons.IH [of "a + dt (T q)"] Cons.prems show ?thesis by auto
  qed (use Cons.prems in auto)
qed simp

lemma set_expiry_insert: "set (expiry_insert r e xs) = insert (r, e) (set xs)"
proof -
  have "set xs = set (takeWhile (\<lambda>(_, e'). e' < e) xs) \<union> set (dropWhile (\<lambda>(_, e'). e' < e) xs)"
    by (metis set_append takeWhile_dropWhile_id)
  then show ?thesis by (auto simp: expiry_insert_def)
qed

lemma remaining_delta_bound:
  assumes "delta_inv k" "\<forall>(_, e) \<in> set (remaining k). e \<le> b" "q \<in> set (timeout_q k)"
  shows "0 \<le> delta k q \<and> delta k q \<le> b"
proof -
  have "q \<in> fst ` set (remaining k)"
    using assms(3) unfolding remaining_def set_map [symmetric] by simp
  then obtain e where e: "(q, e) \<in> set (remaining k)" by force
  have "\<forall>q \<in> set (timeout_q k). 0 \<le> delta k q" using assms(1) by (simp add: delta_inv_def)
  with delta_le_expiry [of "timeout_q k" "timeouts k" q e 0] e assms show ?thesis
    by (auto simp: remaining_def)
qed

text \<open>
  C21. Adding a timeout implements insertion into the list of remaining times: it goes in
  front of those that expire with it or after it, the ticks that remain to every other
  timeout are unchanged, and the difference each timeout stores lies between zero and the
  largest time, so none overflows when the times do not.
\<close>

theorem add_timeout_refines:
  assumes d: "delta_inv k" and r: "r \<notin> set (timeout_q k)" and t: "0 < ticks" "ticks \<le> b"
    and b: "\<forall>(_, e) \<in> set (remaining k). e \<le> b"
  shows "delta_inv (add_timeout call th r w ticks k) \<and>
    remaining (add_timeout call th r w ticks k) = expiry_insert r ticks (remaining k) \<and>
    (\<forall>q \<in> set (timeout_q (add_timeout call th r w ticks k)).
       0 \<le> delta (add_timeout call th r w ticks k) q \<and> delta (add_timeout call th r w ticks k) q \<le> b)"
proof (intro conjI ballI)
  let ?k = "add_timeout call th r w ticks k"
  show d': "delta_inv ?k" by (rule add_timeout_delta_inv [OF d r t(1)])
  show e: "remaining ?k = expiry_insert r ticks (remaining k)"
    using t r d by (intro add_timeout_remaining) (simp_all add: delta_inv_def)
  have "\<forall>(_, e) \<in> set (remaining ?k). e \<le> b" using b t(2) by (simp add: e set_expiry_insert)
  then show "0 \<le> delta ?k q" "delta ?k q \<le> b" if "q \<in> set (timeout_q ?k)" for q
    using remaining_delta_bound [OF d' _ that] by simp_all
qed

lemma boot_delta_inv: "delta_inv boot_kernel"
  by (simp add: delta_inv_def INACTIVE_def EXPIRED_def)

lemma boot_remaining: "remaining boot_kernel = []"
  by (simp add: remaining_def)

theorem add_timeout_refines_witness:
  "remaining (add_timeout thread_call (Some 3) (ThreadTO 3) None 6 boot_kernel) = [(ThreadTO 3, 6)]"
  using add_timeout_refines [OF boot_delta_inv, of "ThreadTO 3" 6 6 thread_call "Some 3" None]
  by (simp add: boot_remaining expiry_insert_def)

text \<open>
  Aborting a timeout that counts down removes it from the list of remaining times and
  leaves the ticks that remain to every other timeout unchanged; it is inactive afterwards,
  and aborting it again reports that and changes nothing.
\<close>

theorem abort_timeout_refines:
  assumes d: "delta_inv k" and r: "r \<in> set (timeout_q k)"
  shows "fst (abort_timeout r k) = 0 \<and> delta_inv (snd (abort_timeout r k)) \<and>
    remaining (snd (abort_timeout r k)) = filter (\<lambda>(x, _). x \<noteq> r) (remaining k) \<and>
    abort_timeout r (snd (abort_timeout r k)) = (INACTIVE, snd (abort_timeout r k))"
proof -
  have "delta k r \<noteq> INACTIVE" using d r by (auto simp: delta_inv_def INACTIVE_def)
  then have "fst (abort_timeout r k) = 0" by (simp add: abort_timeout_def Let_def)
  moreover have "delta (snd (abort_timeout r k)) r = INACTIVE" by (simp add: abort_timeout_delta)
  ultimately show ?thesis
    using abort_timeout_delta_inv [OF d r] abort_timeout_remaining [OF r d] by (simp add: abort_timeout_inactive)
qed

definition armed_kernel :: kernel where
  "armed_kernel = add_timeout thread_call (Some 4) (ThreadTO 4) None 9
     (add_timeout thread_call (Some 3) (ThreadTO 3) None 6 boot_kernel)"

lemma armed_facts: "timeout_q armed_kernel = [ThreadTO 3, ThreadTO 4]"
  "remaining armed_kernel = [(ThreadTO 3, 6), (ThreadTO 4, 9)]"
  by code_simp+

lemma armed_delta_inv: "delta_inv armed_kernel"
  unfolding armed_kernel_def
  by (intro add_timeout_delta_inv boot_delta_inv) (simp_all add: add_timeout_links)

theorem abort_timeout_refines_witness:
  "remaining (snd (abort_timeout (ThreadTO 3) armed_kernel)) = [(ThreadTO 4, 9)]"
  using abort_timeout_refines [OF armed_delta_inv, of "ThreadTO 3"] by (simp add: armed_facts)

end
