(* ===== verification/Scheduler.thy ===== *)
theory Scheduler
  imports Timeout_Queue
begin

text \<open>
  The scheduler's operations (\<^verbatim>\<open>kernel/sched.c\<close>): pending threads on wait queues, the
  context switch, the scheduler lock, and the thread calls \<^verbatim>\<open>k_yield\<close>, \<^verbatim>\<open>k_sleep\<close>,
  \<^verbatim>\<open>k_wakeup\<close> and \<^verbatim>\<open>k_thread_priority_set\<close>. A call that ends in \<^verbatim>\<open>_Swap\<close> is modelled up
  to the switch: the state it returns has the thread that runs next as \<^verbatim>\<open>_current\<close>.
  Assertions of the source are preconditions of the theorems.
\<close>

section \<open>Time conversion (\<^verbatim>\<open>include/kernel.h\<close>)\<close>

definition ms_per_tick :: int where
  "ms_per_tick = 1000 div 100"

definition ms_to_ticks :: "int \<Rightarrow> int" where
  "ms_to_ticks ms =
     sint (((word_of_int ms :: u32) + (word_of_int ms_per_tick - 1)) div word_of_int ms_per_tick)"

definition TICK_ALIGN :: int where
  "TICK_ALIGN = 1"

definition ticks_to_ms :: "int \<Rightarrow> int" where
  "ticks_to_ms ticks = sint ((word_of_int ticks :: u64) * word_of_int ms_per_tick)"

section \<open>Pending\<close>

definition pend_thread :: "tid \<Rightarrow> waddr \<Rightarrow> int \<Rightarrow> 'a kernel_scheme \<Rightarrow> 'a kernel_scheme" where
  "pend_thread t w timeout k =
     (let k1 = (case find (\<lambda>pending. is_t1_higher_prio_than_t2 k t pending) (queues k (WaitQ w)) of
                  Some pending \<Rightarrow> queue_insert_before (WaitQ w) pending t k
                | None \<Rightarrow> queue_append (WaitQ w) t k);
          k2 = mark_thread_as_pending t k1
      in if timeout \<noteq> K_FOREVER
         then (let ticks = TICK_ALIGN + ms_to_ticks timeout in add_thread_timeout t (Some w) ticks k2)
         else k2)"

definition pend_current_thread :: "waddr \<Rightarrow> int \<Rightarrow> 'a kernel_scheme \<Rightarrow> 'a kernel_scheme" where
  "pend_current_thread w timeout k =
     pend_thread (current k) w timeout (remove_thread_from_ready_q (current k) k)"

section \<open>Context switch\<close>

definition update_time_slice_before_swap :: "'a kernel_scheme \<Rightarrow> 'a kernel_scheme" where
  "update_time_slice_before_swap k = k\<lparr>time_slice_elapsed := 0\<rparr>"

text \<open>
  \<^verbatim>\<open>_Swap\<close>: the outgoing thread's return value is preset to \<^verbatim>\<open>-EAGAIN\<close> and the thread in
  the cache becomes the current one.
\<close>

definition Swap :: "'a kernel_scheme \<Rightarrow> 'a kernel_scheme" where
  "Swap k =
     (let k1 = update_time_slice_before_swap k;
          k2 = set_thread_return_value (current k1) (- EAGAIN) k1
      in k2\<lparr>current := get_next_ready_thread k2\<rparr>)"

definition reschedule_threads :: "'a kernel_scheme \<Rightarrow> 'a kernel_scheme" where
  "reschedule_threads k = (if must_switch_threads k then Swap k else k)"

section \<open>The scheduler lock\<close>

definition sched_lock :: "'a kernel_scheme \<Rightarrow> 'a kernel_scheme" where
  "sched_lock k = upd_thread (current k) (sched_locked_update (\<lambda>n. n - 1)) k"

definition k_sched_lock :: "'a kernel_scheme \<Rightarrow> 'a kernel_scheme" where
  "k_sched_lock k = sched_lock k"

definition sched_unlock_no_reschedule :: "'a kernel_scheme \<Rightarrow> 'a kernel_scheme" where
  "sched_unlock_no_reschedule k = upd_thread (current k) (sched_locked_update (\<lambda>n. n + 1)) k"

definition k_sched_unlock :: "'a kernel_scheme \<Rightarrow> 'a kernel_scheme" where
  "k_sched_unlock k =
     reschedule_threads (upd_thread (current k) (sched_locked_update (\<lambda>n. n + 1)) k)"

section \<open>Thread calls\<close>

definition k_thread_priority_get :: "'a kernel_scheme \<Rightarrow> tid \<Rightarrow> int" where
  "k_thread_priority_get k t = prio (threads k t)"

definition k_thread_priority_set :: "tid \<Rightarrow> int \<Rightarrow> 'a kernel_scheme \<Rightarrow> 'a kernel_scheme" where
  "k_thread_priority_set t p k = reschedule_threads (thread_priority_set t p k)"

definition k_yield :: "'a kernel_scheme \<Rightarrow> 'a kernel_scheme" where
  "k_yield k =
     (let k1 = move_thread_to_end_of_prio_q (current k) k
      in if current k1 = get_next_ready_thread k1 then k1 else Swap k1)"

definition k_sleep :: "int \<Rightarrow> 'a kernel_scheme \<Rightarrow> 'a kernel_scheme" where
  "k_sleep duration k =
     (if duration = 0 then k_yield k
      else
        let ticks = TICK_ALIGN + ms_to_ticks duration;
            k1 = remove_thread_from_ready_q (current k) k;
            k2 = add_thread_timeout (current k) None ticks k1
        in Swap k2)"

definition k_wakeup :: "tid \<Rightarrow> 'a kernel_scheme \<Rightarrow> 'a kernel_scheme" where
  "k_wakeup t k =
     (if is_thread_pending k t then k
      else
        let (r, k1) = abort_thread_timeout t k
        in if r = INACTIVE then k1
           else let k2 = ready_thread t k1
                in if is_in_isr k2 then k2 else reschedule_threads k2)"

definition k_current_get :: "'a kernel_scheme \<Rightarrow> tid" where
  "k_current_get k = current k"

definition k_is_preempt_thread :: "'a kernel_scheme \<Rightarrow> bool" where
  "k_is_preempt_thread k \<longleftrightarrow> \<not> is_in_isr k \<and> is_preempt k (current k)"

section \<open>Time slicing\<close>

definition k_sched_time_slice_set :: "int \<Rightarrow> int \<Rightarrow> 'a kernel_scheme \<Rightarrow> 'a kernel_scheme" where
  "k_sched_time_slice_set duration_in_ms p k =
     k\<lparr>time_slice_duration := duration_in_ms, time_slice_elapsed := 0, time_slice_prio_ceiling := p\<rparr>"

definition is_thread_time_slicing :: "'a kernel_scheme \<Rightarrow> tid \<Rightarrow> bool" where
  "is_thread_time_slicing k t \<longleftrightarrow>
     (if \<not> (time_slice_duration k > 0) \<or> is_idle_thread_ptr k t \<or>
         is_prio_higher (prio (threads k t)) (time_slice_prio_ceiling k)
      then False
      else length (queues k (ReadyQ (get_ready_q_q_index (prio (threads k t))))) > 1)"

section \<open>Ticks\<close>

lemma ms_to_ticks_bounds: "0 \<le> ms_to_ticks ms \<and> ms_to_ticks ms \<le> 429496730"
proof -
  let ?w = "(word_of_int ms :: u32) + 9"
  have u: "uint (?w div 10) = uint ?w div 10" by (simp add: uint_div_distrib)
  have "uint ?w < 2 ^ 32" using uint_lt2p [of ?w] by simp
  then have le: "uint ?w div 10 \<le> 429496730" by simp
  have "0 \<le> uint ?w div 10" by (simp add: pos_imp_zdiv_nonneg_iff)
  then have "sint (?w div 10) = uint ?w div 10"
    using le sint_small [of "?w div 10"] by (simp add: u)
  with le \<open>0 \<le> uint ?w div 10\<close> show ?thesis by (simp add: ms_to_ticks_def ms_per_tick_def)
qed

lemma timeout_ticks_pos: "0 < TICK_ALIGN + ms_to_ticks ms"
  using ms_to_ticks_bounds [of ms] by (simp add: TICK_ALIGN_def)

lemma ms_to_ticks_ceiling:
  assumes "0 \<le> ms" "ms < 2 ^ 31"
  shows "ms_to_ticks ms = (ms + 9) div 10"
proof -
  let ?w = "(word_of_int ms :: u32) + 9"
  have "uint ?w = (ms + 9) mod 2 ^ 32" by (simp add: uint_word_ariths uint_word_of_int mod_simps)
  with assms have w: "uint ?w = ms + 9" by simp
  have "sint (?w div 10) = (ms + 9) div 10"
    using assms sint_small [of "?w div 10"] by (simp add: uint_div_distrib w)
  then show ?thesis by (simp add: ms_to_ticks_def ms_per_tick_def)
qed

lemma ticks_to_ms_exact:
  assumes "0 \<le> ticks" "ticks < 2 ^ 59"
  shows "ticks_to_ms ticks = ticks * 10"
proof -
  have "uint ((word_of_int ticks :: u64) * 10) = ticks * 10"
    using assms by (simp add: uint_word_ariths uint_word_of_int)
  then show ?thesis
    using assms sint_small [of "(word_of_int ticks :: u64) * 10"] by (simp add: ticks_to_ms_def ms_per_tick_def)
qed

section \<open>Pending is insertion by priority\<close>

lemma find_insert_before:
  "(case find (\<lambda>p. f t < (f p :: int)) xs of Some p \<Rightarrow> list_insert_before p t xs | None \<Rightarrow> xs @ [t]) =
   prio_insert f t xs"
proof (induction xs)
  case (Cons y ys)
  show ?case
  proof (cases "f t < f y")
    case False
    have "y \<noteq> p" if "find (\<lambda>p. f t < f p) ys = Some p" for p
      using that False by (auto simp: find_Some_iff)
    then show ?thesis
      using False Cons.IH by (auto simp: prio_insert_Cons split: option.splits)
  qed (simp add: prio_insert_Cons)
qed simp

lemma pend_thread_frame:
  "threads (pend_thread t w timeout k) = threads (mark_thread_as_pending t k)"
  "idle_thread (pend_thread t w timeout k) = idle_thread k"
  "cache (pend_thread t w timeout k) = cache k" "current (pend_thread t w timeout k) = current k"
  "ready_list (pend_thread t w timeout k) = ready_list k"
  "handling_timeouts (pend_thread t w timeout k) = handling_timeouts k"
  "nested (pend_thread t w timeout k) = nested k"
  "kernel.more (pend_thread t w timeout k) = kernel.more k"
  using timeout_ticks_pos [of timeout]
  by (simp_all add: pend_thread_def Let_def add_thread_timeout_frame mark_thread_as_pending_def
      queue_insert_before_def queue_append_def upd_thread_def ready_list_def split: option.split)

lemma pend_thread_queues:
  "queues (pend_thread t w timeout k) =
     (queues k)(WaitQ w := prio_insert (\<lambda>u. prio (threads k u)) t (queues k (WaitQ w)))"
proof -
  have "queues (case find (\<lambda>pending. is_t1_higher_prio_than_t2 k t pending) (queues k (WaitQ w)) of
      Some pending \<Rightarrow> queue_insert_before (WaitQ w) pending t k | None \<Rightarrow> queue_append (WaitQ w) t k) =
    (queues k)(WaitQ w := prio_insert (\<lambda>u. prio (threads k u)) t (queues k (WaitQ w)))"
    using find_insert_before [where f = "\<lambda>u. prio (threads k u)" and t = t and xs = "queues k (WaitQ w)"]
    by (auto simp: prio_defs queue_insert_before_def queue_append_def split: option.splits)
  then show ?thesis
    using timeout_ticks_pos [of timeout]
    by (simp add: pend_thread_def Let_def add_thread_timeout_frame)
qed

text \<open>Marking a thread pending once it is on a wait queue, and before its timeout is armed.\<close>

definition enqueue_pending :: "tid \<Rightarrow> waddr \<Rightarrow> 'a kernel_scheme \<Rightarrow> 'a kernel_scheme" where
  "enqueue_pending t w k = pend_thread t w K_FOREVER k"

lemma pend_thread_split:
  "pend_thread t w timeout k =
     (if timeout = K_FOREVER then enqueue_pending t w k
      else add_thread_timeout t (Some w) (TICK_ALIGN + ms_to_ticks timeout) (enqueue_pending t w k))"
  by (simp add: enqueue_pending_def pend_thread_def Let_def)

lemma enqueue_pending_timeouts:
  "timeouts (enqueue_pending t w k) = timeouts k" "timeout_q (enqueue_pending t w k) = timeout_q k"
  "prio_bmap (enqueue_pending t w k) = prio_bmap k"
  by (simp_all add: enqueue_pending_def pend_thread_def Let_def mark_thread_as_pending_def
      queue_insert_before_def queue_append_def split: option.split)

lemma enqueue_pending_kinv:
  assumes k: "kinv (insert t S) k" and t: "t \<notin> S" "\<not> st k t 1" "delta k (ThreadTO t) = INACTIVE"
  shows "kinv S (enqueue_pending t w k)"
proof -
  let ?k = "enqueue_pending t w k"
  have q: "queues ?k = (queues k)(WaitQ w := prio_insert (\<lambda>u. prio (threads k u)) t (queues k (WaitQ w)))"
    unfolding enqueue_pending_def by (rule pend_thread_queues)
  have th: "threads ?k = threads (mark_thread_as_pending t k)"
    unfolding enqueue_pending_def by (rule pend_thread_frame)
  note fr = pend_thread_frame [of t w K_FOREVER k, folded enqueue_pending_def]
  have st: "st ?k u n \<longleftrightarrow> st k u n \<or> u = t \<and> n = 1" for u n unfolding th by (rule st_mark)
  have pr: "prio (threads ?k u) = prio (threads k u)" for u
    by (simp add: th mark_thread_as_pending_def)
  have nq: "t \<notin> set (queues k (WaitQ w'))" for w'
    using kinv_waiting [OF k, of t w'] by auto
  have rdy: "is_thread_ready ?k u \<longleftrightarrow> u \<noteq> t \<and> is_thread_ready k u" for u
    unfolding is_thread_ready_iff st enqueue_pending_timeouts by auto
  have idle: "idle_thread k \<noteq> t" using kinv_idle [OF k] by auto
  have "rq_ok ?k"
    by (rule rq_ok_cong [of _ k]) (simp_all add: q enqueue_pending_timeouts fr(3) pr kinvD(6) [OF k])
  moreover have "u \<in> set (ready_list ?k) \<longleftrightarrow> is_thread_ready ?k u \<and> u \<notin> S" for u
    using kinv_ready_iff [OF k, of u] by (auto simp: fr(5) rdy)
  ultimately have "ready_inv S ?k" by (simp add: ready_inv_def)
  moreover have "wait_inv S ?k"
  proof -
    have mem: "u \<in> set (queues ?k (WaitQ w')) \<longleftrightarrow> u \<in> set (queues k (WaitQ w')) \<or> u = t \<and> w' = w" for u w'
      by (auto simp: q)
    have "(\<exists>w'. u \<in> set (queues ?k (WaitQ w'))) \<longleftrightarrow> st ?k u 1 \<and> u \<notin> S" for u
      using kinv_waiting_iff [OF k, of u] t(1) unfolding mem st by (cases "u = t") auto
    moreover have "w1 = w2" if "u \<in> set (queues ?k (WaitQ w1))" "u \<in> set (queues ?k (WaitQ w2))" for u w1 w2
      using that nq kinv_wait_unique [OF k, of u w1 w2] unfolding mem by auto
    moreover have "distinct (queues ?k (WaitQ w'))" for w'
      using nq kinv_wait_distinct [OF k] by (simp add: q)
    ultimately show ?thesis unfolding wait_inv_def by blast
  qed
  moreover have "delta_inv ?k"
    using kinvD(3) [OF k] by (subst delta_inv_cong [of _ k]) (simp_all add: enqueue_pending_timeouts)
  moreover have "timeout_link ?k u \<longleftrightarrow> timeout_link k u" if "u \<noteq> t" for u
    using that by (intro timeout_link_cong) (auto simp: enqueue_pending_timeouts st q)
  then have "link_inv S ?k"
    using kinvD(4) [OF k] t(3) unfolding link_inv_def enqueue_pending_timeouts by (metis insert_iff)
  moreover have "thread_inv S ?k"
    using kinvD(5) [OF k] idle by (simp add: thread_inv_def fr(2) rdy pr)
  ultimately show ?thesis by (simp add: kinv_def)
qed

lemma pend_thread_kinv:
  assumes k: "kinv (insert t S) k" and t: "t \<notin> S" "\<not> st k t 1" "delta k (ThreadTO t) = INACTIVE"
  shows "kinv S (pend_thread t w timeout k)"
proof -
  let ?k = "enqueue_pending t w k"
  have k1: "kinv S ?k" by (rule enqueue_pending_kinv [OF k t])
  have m: "t \<in> set (queues ?k (WaitQ w))" by (simp add: enqueue_pending_def pend_thread_queues)
  have p: "st ?k t 1" using kinv_waiting [OF k1 m] by simp
  have "t \<noteq> idle_thread ?k" using kinv_idle [OF k1] p by (auto simp: is_thread_ready_iff)
  then show ?thesis
    unfolding pend_thread_split
    using k1 p m t(1,3) timeout_ticks_pos [of timeout]
    by (auto intro!: add_thread_timeout_kinv simp: enqueue_pending_timeouts)
qed

section \<open>Who runs\<close>

text \<open>
  What the kernel guarantees whenever a thread runs: the invariant holds with no thread in
  hand and no timeout left expired, the running thread is ready, and unless it cannot be preempted (it is cooperative
  or holds the scheduler lock) no ready thread has a higher priority.
\<close>

definition sched_ok :: "'a kernel_scheme \<Rightarrow> bool" where
  "sched_ok k \<longleftrightarrow>
     kinv {} k \<and> settled k \<and> is_thread_ready k (current k) \<and>
     (is_preempt k (current k) \<longrightarrow>
        (\<forall>t. is_thread_ready k t \<longrightarrow> prio (threads k (current k)) \<le> prio (threads k t)))"

lemma kinv_other_fields [simp]:
  "kinv S (k\<lparr>current := c\<rparr>) = kinv S k" "kinv S (k\<lparr>time_slice_elapsed := e\<rparr>) = kinv S k"
  "kinv S (k\<lparr>time_slice_duration := e\<rparr>) = kinv S k" "kinv S (k\<lparr>time_slice_prio_ceiling := p\<rparr>) = kinv S k"
  "kinv S (k\<lparr>handling_timeouts := h\<rparr>) = kinv S k" "kinv S (k\<lparr>sys_clock_tick_count := n\<rparr>) = kinv S k"
  by (simp_all add: kinv_defs rq_ok_def rq_shape_def ready_list_def is_thread_ready_iff timeout_link_def
      cong: option.case_cong)

lemma Swap_simps [simp]:
  "queues (Swap k) = queues k" "timeouts (Swap k) = timeouts k" "timeout_q (Swap k) = timeout_q k"
  "idle_thread (Swap k) = idle_thread k" "cache (Swap k) = cache k" "prio_bmap (Swap k) = prio_bmap k"
  "ready_list (Swap k) = ready_list k" "current (Swap k) = cache k"
  "thread_state (threads (Swap k) t) = thread_state (threads k t)"
  "prio (threads (Swap k) t) = prio (threads k t)"
  "sched_locked (threads (Swap k) t) = sched_locked (threads k t)"
  "swap_data (threads (Swap k) t) = swap_data (threads k t)"
  "swap_retval (threads (Swap k) t) = (if t = current k then - EAGAIN else swap_retval (threads k t))"
  "handling_timeouts (Swap k) = handling_timeouts k" "nested (Swap k) = nested k"
  "kernel.more (Swap k) = kernel.more k" "time_slice_elapsed (Swap k) = 0"
  by (simp_all add: Swap_def update_time_slice_before_swap_def set_thread_return_value_def
      upd_thread_def get_next_ready_thread_def ready_list_def Let_def)

lemma is_thread_ready_Swap [simp]: "is_thread_ready (Swap k) t \<longleftrightarrow> is_thread_ready k t"
  by (simp add: is_thread_ready_iff)

lemma Swap_kinv:
  assumes "kinv S k" shows "kinv S (Swap k)"
proof -
  have "kinv S (upd_thread (current k) (swap_retval_update (\<lambda>_. - EAGAIN)) (k\<lparr>time_slice_elapsed := 0\<rparr>))"
    using assms by (intro upd_thread_kinv) (simp_all add: kinv_prio [OF assms])
  then show ?thesis
    by (simp add: Swap_def update_time_slice_before_swap_def set_thread_return_value_def Let_def)
qed

lemma kinv_cache:
  assumes "kinv S k"
  shows "is_thread_ready k (cache k)" "cache k \<notin> S" "cache k \<in> set (ready_list k)"
    "\<And>t. is_thread_ready k t \<Longrightarrow> t \<notin> S \<Longrightarrow> prio (threads k (cache k)) \<le> prio (threads k t)"
proof -
  have c: "cache k = hd (ready_list k)" "ready_list k \<noteq> []"
    using kinvD(6) [OF assms] by (simp_all add: rq_ok_def)
  then show m: "cache k \<in> set (ready_list k)" by simp
  then show "is_thread_ready k (cache k)" "cache k \<notin> S" by (simp_all add: kinv_ready_iff [OF assms])
  fix t assume "is_thread_ready k t" "t \<notin> S"
  then show "prio (threads k (cache k)) \<le> prio (threads k t)"
    using highest_ready_minimal [OF kinvD(7) [OF assms]] c by (simp add: kinv_ready_iff [OF assms])
qed

text \<open>After a context switch the thread that runs has the highest priority of all.\<close>

lemma settled_Swap [simp]: "settled (Swap k) \<longleftrightarrow> settled k"
  by (rule settled_cong) simp_all

lemma Swap_ok: "kinv {} k \<Longrightarrow> settled k \<Longrightarrow> sched_ok (Swap k)"
  using kinv_cache [of "{}" k] by (simp add: sched_ok_def Swap_kinv)

lemma must_switch_iff:
  assumes "kinv S k"
  shows "must_switch_threads' k \<longleftrightarrow> prio (threads k (cache k)) < prio (threads k (current k))"
  using highest_ready(1) [OF kinvD(7) [OF assms]] kinvD(6) [OF assms]
  by (simp add: must_switch_threads'_def prio_defs rq_ok_def)

lemma reschedule_ok:
  assumes k: "kinv {} k" and s: "settled k" and c: "is_thread_ready k (current k)"
  shows "sched_ok (reschedule_threads k)"
proof (cases "must_switch_threads k")
  case False
  then have "is_preempt k (current k) \<Longrightarrow> prio (threads k (current k)) \<le> prio (threads k (cache k))"
    by (auto simp: must_switch_threads_def must_switch_iff [OF k])
  then have "is_preempt k (current k) \<Longrightarrow> is_thread_ready k t \<Longrightarrow>
      prio (threads k (current k)) \<le> prio (threads k t)" for t
    using kinv_cache(4) [OF k, of t] by force
  with False k s c show ?thesis by (simp add: sched_ok_def reschedule_threads_def)
qed (simp add: reschedule_threads_def Swap_ok [OF k s])

lemma sched_okD:
  assumes "sched_ok k"
  shows "kinv {} k" "is_thread_ready k (current k)" "current k \<in> set (ready_list k)" "settled k"
proof -
  show k: "kinv {} k" and r: "is_thread_ready k (current k)" and "settled k"
    using assms by (simp_all add: sched_ok_def)
  show "current k \<in> set (ready_list k)" using r by (simp add: kinv_ready_iff [OF k])
qed

section \<open>Blocking the current thread\<close>

text \<open>
  The idle thread never blocks: it is the only thread that must not call the functions
  that do.
\<close>

lemma pend_current_kinv:
  assumes k: "kinv {} k" and c: "is_thread_ready k (current k)" "current k \<noteq> idle_thread k"
  shows "kinv {} (pend_current_thread w timeout k)"
proof -
  let ?k = "remove_thread_from_ready_q (current k) k"
  have "kinv {current k} ?k" using remove_kinv(1) [OF k c(1) _ c(2)] by simp
  then show ?thesis
    unfolding pend_current_thread_def by (rule pend_thread_kinv) (use c in \<open>simp_all add: is_thread_ready_iff\<close>)
qed

lemma pend_current_simps:
  "current (pend_current_thread w timeout k) = current k"
  "idle_thread (pend_current_thread w timeout k) = idle_thread k"
  "prio (threads (pend_current_thread w timeout k) t) = prio (threads k t)"
  "handling_timeouts (pend_current_thread w timeout k) = handling_timeouts k"
  "nested (pend_current_thread w timeout k) = nested k"
  "kernel.more (pend_current_thread w timeout k) = kernel.more k"
  "st (pend_current_thread w timeout k) t n \<longleftrightarrow> st k t n \<or> t = current k \<and> n = 1"
  by (simp_all add: pend_current_thread_def pend_thread_frame st_mark)
     (simp add: mark_thread_as_pending_def)

lemma pend_current_queue:
  assumes k: "kinv {} k" and c: "is_thread_ready k (current k)"
  shows "queues (pend_current_thread w timeout k) (WaitQ w') =
     (if w' = w then prio_insert (\<lambda>u. prio (threads k u)) (current k) (queues k (WaitQ w))
      else queues k (WaitQ w'))"
proof -
  have "remove1 (current k) (queues k (WaitQ w')) = queues k (WaitQ w')" for w'
    using kinv_waiting [OF k, of "current k" w'] c by (auto simp: is_thread_ready_iff intro: remove1_idem)
  then show ?thesis by (simp add: pend_current_thread_def pend_thread_queues)
qed

section \<open>The thread calls\<close>

lemma move_wait_queues:
  assumes k: "kinv S k" and t: "is_thread_ready k t"
  shows "queues (move_thread_to_end_of_prio_q t k) (WaitQ w) = queues k (WaitQ w)"
proof -
  have "t \<notin> set (queues k (WaitQ w))"
    using kinv_waiting [OF k, of t w] t by (auto simp: is_thread_ready_iff)
  then show ?thesis
    by (simp add: move_thread_to_end_of_prio_q_def queue_append_def Let_def remove1_idem)
qed

lemma set_move: "x \<in> set xs \<Longrightarrow> distinct xs \<Longrightarrow> set (prio_insert f x (remove1 x xs)) = set xs"
  by auto

lemma move_kinv:
  assumes k: "kinv S k" and t: "is_thread_ready k t" "t \<notin> S"
  shows "kinv S (move_thread_to_end_of_prio_q t k)"
proof -
  let ?k = "move_thread_to_end_of_prio_q t k"
  have tl: "t \<in> set (ready_list k)" using t by (simp add: kinv_ready_iff [OF k])
  note m = move_ok [OF kinvD(6) [OF k] tl]
  have rdy: "is_thread_ready ?k u \<longleftrightarrow> is_thread_ready k u" for u by (simp add: is_thread_ready_iff)
  have "set (ready_list ?k) = set (ready_list k)"
    using m(2) tl ready_list_distinct [OF kinvD(7) [OF k]] by (simp add: set_move insert_absorb)
  with m(1) have "ready_inv S ?k" using kinv_ready_iff [OF k] by (simp add: ready_inv_def rdy)
  moreover have w: "queues ?k (WaitQ w) = queues k (WaitQ w)" for w by (rule move_wait_queues [OF k t(1)])
  moreover have "wait_inv S ?k" by (rule wait_inv_cong [OF w _ kinvD(2) [OF k]]) simp
  moreover have "delta_inv ?k" using kinvD(3) [OF k] by (subst delta_inv_cong [of _ k]) simp_all
  moreover have "timeout_link ?k u \<longleftrightarrow> timeout_link k u" for u
    by (rule timeout_link_cong) (simp_all add: w)
  then have "link_inv S ?k" using kinvD(4) [OF k] by (simp add: link_inv_def)
  moreover have "thread_inv S ?k" using kinvD(5) [OF k] by (simp add: thread_inv_def rdy)
  ultimately show ?thesis by (simp add: kinv_def)
qed

lemma k_yield_spec:
  assumes "sched_ok k"
  shows "sched_ok (k_yield k)"
    and "ready_list (k_yield k) =
      prio_insert (\<lambda>u. prio (threads k u)) (current k) (remove1 (current k) (ready_list k))"
    and "current (k_yield k) = hd (ready_list (k_yield k))"
proof -
  note k = sched_okD [OF assms]
  let ?k = "move_thread_to_end_of_prio_q (current k) k"
  have m: "kinv {} ?k" using k by (intro move_kinv) simp_all
  have l: "ready_list ?k =
      prio_insert (\<lambda>u. prio (threads k u)) (current k) (remove1 (current k) (ready_list k))"
    using move_ok(2) [OF kinvD(6) [OF k(1)] k(3)] .
  have c: "cache ?k = hd (ready_list ?k)" using kinvD(6) [OF m] by (simp add: rq_ok_def)
  have r: "is_thread_ready ?k (current ?k)" using k(2) by (simp add: is_thread_ready_iff)
  show "ready_list (k_yield k) =
      prio_insert (\<lambda>u. prio (threads k u)) (current k) (remove1 (current k) (ready_list k))"
    by (simp add: k_yield_def Let_def l)
  show "current (k_yield k) = hd (ready_list (k_yield k))"
    using c by (simp add: k_yield_def Let_def get_next_ready_thread_def)
  have s: "settled ?k" using k(4) by (subst settled_cong [of _ k]) simp_all
  have "sched_ok ?k" if "current ?k = cache ?k"
    using m r s kinv_cache(4) [OF m] that by (simp add: sched_ok_def)
  then show "sched_ok (k_yield k)"
    by (simp add: k_yield_def Let_def get_next_ready_thread_def Swap_ok [OF m s])
qed

lemma k_sleep_spec:
  assumes s: "sched_ok k" and c: "current k \<noteq> idle_thread k" and d: "duration \<noteq> 0"
  shows "sched_ok (k_sleep duration k)"
    and "remaining (k_sleep duration k) =
      expiry_insert (ThreadTO (current k)) (TICK_ALIGN + ms_to_ticks duration) (remaining k)"
    and "ready_list (k_sleep duration k) = remove1 (current k) (ready_list k)"
    and "current (k_sleep duration k) = hd (remove1 (current k) (ready_list k))"
proof -
  note k = sched_okD [OF s]
  let ?t = "current k" and ?ticks = "TICK_ALIGN + ms_to_ticks duration"
  let ?k1 = "remove_thread_from_ready_q ?t k"
  let ?k2 = "add_thread_timeout ?t None ?ticks ?k1"
  have e: "k_sleep duration k = Swap ?k2" using d by (simp add: k_sleep_def Let_def)
  note r = remove_kinv [OF k(1,2) _ c]
  have k1: "kinv {?t} ?k1" using r(1) by simp
  have in1: "delta ?k1 (ThreadTO ?t) = INACTIVE" "\<not> st ?k1 ?t 1"
    using k(2) by (simp_all add: is_thread_ready_iff)
  have k2: "kinv {} ?k2"
    using k1 in1 c timeout_ticks_pos [of duration] by (intro add_thread_timeout_kinv) simp_all
  moreover have "settled ?k2"
    unfolding add_thread_timeout_def
    by (rule settled_add [OF kinvD(3) [OF k1] in1(1) timeout_ticks_pos])
       (use k(4) in \<open>simp add: settled_cong [of ?k1 k]\<close>)
  ultimately show "sched_ok (k_sleep duration k)" unfolding e by (rule Swap_ok)
  have l: "ready_list ?k2 = remove1 ?t (ready_list k)"
    using timeout_ticks_pos [of duration] by (simp add: add_thread_timeout_frame r(2))
  then show "ready_list (k_sleep duration k) = remove1 ?t (ready_list k)" by (simp add: e)
  show "current (k_sleep duration k) = hd (remove1 ?t (ready_list k))"
    using kinvD(6) [OF k2] l by (simp add: e rq_ok_def)
  note di = kinvD(3) [OF k1]
  have nq: "ThreadTO ?t \<notin> set (timeout_q ?k1)" using in1 delta_inv_cases [OF di] by metis
  have dist: "distinct (timeout_q ?k1)" using di by (simp add: delta_inv_def)
  have "remaining ?k2 = expiry_insert (ThreadTO ?t) ?ticks (remaining ?k1)"
    unfolding add_thread_timeout_def
    by (rule add_timeout_remaining [OF _ nq dist]) (use timeout_ticks_pos [of duration] in simp)
  then show "remaining (k_sleep duration k) = expiry_insert (ThreadTO ?t) ?ticks (remaining k)"
    by (simp add: e remaining_def)
qed

text \<open>
  Waking a thread that sleeps: its timeout is taken off the queue without moving any
  other, and it is ready again unless it is suspended or dead.
\<close>

lemma wake_kinv:
  assumes k: "kinv {} k" and p: "\<not> st k t 1" and d: "0 \<le> delta k (ThreadTO t)"
  defines "k1 \<equiv> snd (abort_thread_timeout t k)"
  shows "kinv {} (ready_thread t k1)"
    and "fst (abort_thread_timeout t k) = 0"
    and "remaining (ready_thread t k1) = filter (\<lambda>(r, _). r \<noteq> ThreadTO t) (remaining k)"
    and "is_thread_ready (ready_thread t k1) t \<longleftrightarrow> \<not> st k t 0 \<and> \<not> st k t 3 \<and> \<not> st k t 4"
proof -
  have na: "delta k (ThreadTO t) \<noteq> INACTIVE" "delta k (ThreadTO t) \<noteq> EXPIRED"
    using d by (auto simp: INACTIVE_def EXPIRED_def)
  have "\<not> is_thread_ready k t" using na by (simp add: is_thread_ready_iff)
  then have "kinv {t} k" using k p by (intro detach_kinv)
  then have k1: "kinv {t} k1" unfolding k1_def using na by (intro abort_thread_timeout_kinv) simp_all
  have d1: "delta k1 (ThreadTO t) = INACTIVE" "\<not> st k1 t 1"
    using p by (simp_all add: k1_def abort_thread_timeout_def abort_timeout_delta abort_timeout_frame)
  show "kinv {} (ready_thread t k1)" using k1 d1 by (intro ready_thread_kinv) simp_all
  show "fst (abort_thread_timeout t k) = 0"
    using na by (simp add: abort_thread_timeout_def abort_timeout_def Let_def)
  have "ThreadTO t \<in> set (timeout_q k)" using d kinvD(3) [OF k] by (simp add: delta_inv_def)
  then have "remaining k1 = filter (\<lambda>(r, _). r \<noteq> ThreadTO t) (remaining k)"
    unfolding k1_def abort_thread_timeout_def by (rule abort_timeout_remaining [OF _ kinvD(3) [OF k]])
  then show "remaining (ready_thread t k1) = filter (\<lambda>(r, _). r \<noteq> ThreadTO t) (remaining k)"
    by (simp add: remaining_def ready_thread_frame)
  show "is_thread_ready (ready_thread t k1) t \<longleftrightarrow> \<not> st k t 0 \<and> \<not> st k t 3 \<and> \<not> st k t 4"
    using d1 p by (simp add: is_thread_ready_iff st_ready_thread ready_thread_frame)
      (simp add: k1_def abort_thread_timeout_def abort_timeout_frame)
qed

lemma reschedule_simps [simp]:
  "queues (reschedule_threads k) = queues k" "timeouts (reschedule_threads k) = timeouts k"
  "timeout_q (reschedule_threads k) = timeout_q k" "ready_list (reschedule_threads k) = ready_list k"
  "thread_state (threads (reschedule_threads k) t) = thread_state (threads k t)"
  "prio (threads (reschedule_threads k) t) = prio (threads k t)"
  "nested (reschedule_threads k) = nested k" "kernel.more (reschedule_threads k) = kernel.more k"
  by (simp_all add: reschedule_threads_def)

lemma is_thread_ready_reschedule [simp]: "is_thread_ready (reschedule_threads k) t \<longleftrightarrow> is_thread_ready k t"
  by (simp add: reschedule_threads_def)

lemma ready_thread_ready_mono: "is_thread_ready k u \<Longrightarrow> is_thread_ready (ready_thread t k) u"
  by (auto simp: is_thread_ready_iff st_ready_thread ready_thread_frame)

lemma k_wakeup_spec:
  assumes s: "sched_ok k" and isr: "\<not> is_in_isr k" and p: "\<not> st k t 1"
    and d: "delta k (ThreadTO t) \<noteq> EXPIRED"
  shows "sched_ok (k_wakeup t k)"
    and "remaining (k_wakeup t k) = filter (\<lambda>(r, _). r \<noteq> ThreadTO t) (remaining k)"
    and "is_thread_ready (k_wakeup t k) t \<longleftrightarrow>
      is_thread_ready k t \<or> delta k (ThreadTO t) \<noteq> INACTIVE \<and> \<not> st k t 0 \<and> \<not> st k t 3 \<and> \<not> st k t 4"
proof -
  note k = sched_okD [OF s]
  let ?k1 = "snd (abort_thread_timeout t k)" and ?k = "k_wakeup t k"
  have "sched_ok ?k \<and> remaining ?k = filter (\<lambda>(r, _). r \<noteq> ThreadTO t) (remaining k) \<and>
      (is_thread_ready ?k t \<longleftrightarrow> is_thread_ready k t \<or>
        delta k (ThreadTO t) \<noteq> INACTIVE \<and> \<not> st k t 0 \<and> \<not> st k t 3 \<and> \<not> st k t 4)"
  proof (cases "delta k (ThreadTO t) = INACTIVE")
    case True
    then have "?k = k"
      using p by (simp add: k_wakeup_def abort_thread_timeout_def abort_timeout_inactive)
    moreover have "ThreadTO t \<notin> set (timeout_q k)"
      using True by (simp add: delta_inv_cases [OF kinvD(3) [OF k(1)]])
    ultimately show ?thesis
      using s True by (simp add: remaining_def filter_expiries)
  next
    case False
    then have "0 \<le> delta k (ThreadTO t)"
      using d kinvD(3) [OF k(1)] by (metis delta_inv_cases delta_inv_def)
    note w = wake_kinv [OF k(1) p this]
    have nr: "\<not> is_thread_ready k t" using False by (simp add: is_thread_ready_iff)
    have isr': "\<not> is_in_isr (ready_thread t ?k1)"
      using isr by (simp add: is_in_isr_def ready_thread_frame abort_thread_timeout_def abort_timeout_frame)
    have e: "?k = reschedule_threads (ready_thread t ?k1)"
      using p w(2) isr' by (simp add: k_wakeup_def case_prod_unfold Let_def INACTIVE_def)
    have cur: "is_thread_ready (ready_thread t ?k1) (current (ready_thread t ?k1))"
    proof -
      have "current k \<noteq> t" using k(2) nr by auto
      then have "is_thread_ready ?k1 (current k)"
        using k(2) abort_timeout_active_iff [OF kinvD(3) [OF k(1)] d, of "ThreadTO (current k)"]
        by (simp add: is_thread_ready_iff abort_thread_timeout_def abort_timeout_frame)
      then show ?thesis
        by (simp add: ready_thread_ready_mono ready_thread_frame)
           (simp add: abort_thread_timeout_def abort_timeout_frame ready_thread_ready_mono)
    qed
    have "settled ?k1"
      unfolding abort_thread_timeout_def by (rule settled_abort [OF kinvD(3) [OF k(1)] d k(4)])
    then have "settled (ready_thread t ?k1)"
      by (subst settled_cong [of _ ?k1]) (simp_all add: ready_thread_frame)
    from reschedule_ok [OF w(1) this cur] w(3,4) False nr show ?thesis
      by (simp add: e) (simp add: remaining_def)
  qed
  then show "sched_ok ?k" "remaining ?k = filter (\<lambda>(r, _). r \<noteq> ThreadTO t) (remaining k)"
    "is_thread_ready ?k t \<longleftrightarrow> is_thread_ready k t \<or>
        delta k (ThreadTO t) \<noteq> INACTIVE \<and> \<not> st k t 0 \<and> \<not> st k t 3 \<and> \<not> st k t 4" by blast+
qed

lemma is_thread_ready_set_prio [simp]:
  "is_thread_ready (thread_priority_set t p k) u \<longleftrightarrow> is_thread_ready k u"
  by (simp add: is_thread_ready_iff thread_priority_set_def set_prio_def)

lemma thread_priority_set_simps [simp]:
  "current (thread_priority_set t p k) = current k" "idle_thread (thread_priority_set t p k) = idle_thread k"
  "timeouts (thread_priority_set t p k) = timeouts k" "timeout_q (thread_priority_set t p k) = timeout_q k"
  "nested (thread_priority_set t p k) = nested k"
  "handling_timeouts (thread_priority_set t p k) = handling_timeouts k"
  "thread_state (threads (thread_priority_set t p k) u) = thread_state (threads k u)"
  "sched_locked (threads (thread_priority_set t p k) u) = sched_locked (threads k u)"
  "prio (threads (thread_priority_set t p k) u) = (if u = t then to_s8 p else prio (threads k u))"
  "kernel.more (thread_priority_set t p k) = kernel.more k"
  by (simp_all add: thread_priority_set_def set_prio_def)

lemma k_thread_priority_set_spec:
  assumes s: "sched_ok k" and p: "prio_ok p" and t: "t \<noteq> idle_thread k"
  shows "sched_ok (k_thread_priority_set t p k)"
    and "k_thread_priority_get (k_thread_priority_set t p k) t = p"
    and "u \<noteq> t \<Longrightarrow> k_thread_priority_get (k_thread_priority_set t p k) u = k_thread_priority_get k u"
proof -
  have "kinv {} (thread_priority_set t p k)"
    using sched_okD(1) [OF s] p t by (intro thread_priority_set_kinv) simp_all
  then show "sched_ok (k_thread_priority_set t p k)"
    unfolding k_thread_priority_set_def using sched_okD(2,4) [OF s]
    by (intro reschedule_ok) (simp_all add: settled_cong [of "thread_priority_set t p k" k])
qed (simp_all add: k_thread_priority_get_def k_thread_priority_set_def to_s8_prio [OF p])

section \<open>The scheduler lock\<close>

lemma reschedule_locked: "\<not> is_preempt k (current k) \<Longrightarrow> reschedule_threads k = k"
  by (simp add: reschedule_threads_def must_switch_threads_def)

lemma is_preempt_kinv:
  assumes "kinv S k"
  shows "is_preempt k t \<longleftrightarrow> sched_locked (threads k t) = 0 \<and> 0 \<le> prio (threads k t)"
  using kinv_prio [OF assms, of t] by (intro is_preempt_iff) (auto simp: prio_ok_simps)

lemma upd_lock_kinv:
  "kinv S k \<Longrightarrow> kinv S (upd_thread t (sched_locked_update f) k)"
  by (rule upd_thread_kinv) (simp_all add: kinv_prio)

lemma is_thread_ready_upd_lock [simp]:
  "is_thread_ready (upd_thread t (sched_locked_update f) k) u \<longleftrightarrow> is_thread_ready k u"
  by (simp add: is_thread_ready_iff)

lemma sched_lock_spec:
  assumes s: "sched_ok k" and l: "sched_locked (threads k (current k)) \<noteq> 1"
  shows "sched_ok (k_sched_lock k)" and "\<not> is_preempt (k_sched_lock k) (current (k_sched_lock k))"
    and "current (k_sched_lock k) = current k"
proof -
  note k = sched_okD [OF s]
  have kl: "kinv {} (k_sched_lock k)"
    unfolding k_sched_lock_def sched_lock_def by (rule upd_lock_kinv [OF k(1)])
  have c: "current (k_sched_lock k) = current k" by (simp add: k_sched_lock_def sched_lock_def)
  have "sched_locked (threads (k_sched_lock k) (current k)) = sched_locked (threads k (current k)) - 1"
    by (simp add: k_sched_lock_def sched_lock_def)
  with l have "sched_locked (threads (k_sched_lock k) (current k)) \<noteq> 0" by simp
  then show np: "\<not> is_preempt (k_sched_lock k) (current (k_sched_lock k))"
    by (simp add: is_preempt_kinv [OF kl] c)
  show "sched_ok (k_sched_lock k)"
    using kl np k(2,4) by (simp add: sched_ok_def c)
      (simp add: k_sched_lock_def sched_lock_def settled_cong [of "upd_thread t f k" k for t f k])
  show "current (k_sched_lock k) = current k" by (rule c)
qed

lemma sched_unlock_spec:
  assumes s: "kinv {} k" "is_thread_ready k (current k)" "settled k"
  shows "sched_ok (k_sched_unlock k)"
  unfolding k_sched_unlock_def
  by (rule reschedule_ok)
     (use s in \<open>simp_all add: upd_lock_kinv settled_cong [of "upd_thread t f k" k for t f k]\<close>)

lemma sched_lock_unlock:
  "upd_thread (current k) (sched_locked_update (\<lambda>n. n + 1)) (sched_lock k) = k"
proof -
  have e: "sched_locked_update ((\<lambda>n. n + 1) \<circ> (\<lambda>n. n - 1)) th = th" for th :: k_thread
    by (cases th) (simp add: comp_def)
  show ?thesis by (simp add: sched_lock_def upd_thread_def e)
qed

text \<open>A thread that may keep running is not switched out.\<close>

lemma reschedule_id: "sched_ok k \<Longrightarrow> reschedule_threads k = k"
proof -
  assume s: "sched_ok k"
  note k = sched_okD [OF s]
  have "\<not> must_switch_threads k"
    using s kinv_cache(1) [OF k(1)]
    by (auto simp: must_switch_threads_def must_switch_iff [OF k(1)] sched_ok_def not_less)
  then show ?thesis by (simp add: reschedule_threads_def)
qed

lemma lock_unlock_id: "sched_ok k \<Longrightarrow> k_sched_unlock (sched_lock k) = k"
proof -
  assume s: "sched_ok k"
  have "current (sched_lock k) = current k" by (simp add: sched_lock_def)
  then show ?thesis by (simp add: k_sched_unlock_def sched_lock_unlock reschedule_id [OF s])
qed

lemma sched_lock_simps [simp]:
  "queues (sched_lock k) = queues k" "timeouts (sched_lock k) = timeouts k" "timeout_q (sched_lock k) = timeout_q k"
  "current (sched_lock k) = current k" "idle_thread (sched_lock k) = idle_thread k"
  "prio (threads (sched_lock k) t) = prio (threads k t)" "nested (sched_lock k) = nested k"
  "thread_state (threads (sched_lock k) t) = thread_state (threads k t)"
  "swap_retval (threads (sched_lock k) t) = swap_retval (threads k t)"
  "handling_timeouts (sched_lock k) = handling_timeouts k" "ready_list (sched_lock k) = ready_list k"
  by (simp_all add: sched_lock_def)

lemma sched_lock_keeps:
  assumes "sched_ok k"
  shows "kinv {} (sched_lock k)" "settled (sched_lock k)"
    "is_thread_ready (sched_lock k) u \<longleftrightarrow> is_thread_ready k u"
  using sched_okD [OF assms]
  by (simp_all add: sched_lock_def upd_lock_kinv settled_cong [of "upd_thread t f k" k for t f k])

lemma k_sched_unlock_simps [simp]:
  "queues (k_sched_unlock k) = queues k" "idle_thread (k_sched_unlock k) = idle_thread k"
  "prio (threads (k_sched_unlock k) t) = prio (threads k t)"
  "is_thread_ready (k_sched_unlock k) t \<longleftrightarrow> is_thread_ready k t"
  "nested (k_sched_unlock k) = nested k" "handling_timeouts (k_sched_unlock k) = handling_timeouts k"
  "timeout_q (k_sched_unlock k) = timeout_q k"
  by (simp_all add: k_sched_unlock_def)
     (simp_all add: reschedule_threads_def)

section \<open>A state that satisfies the invariant\<close>

lemma st_example:
  "bit (thread_state (example_threads t)) n \<longleftrightarrow>
     (if t = 0 \<or> t = 2 then False else if t = 3 \<or> t = 4 then n = 2 else n = 0)"
  by (simp add: example_threads_def example_thread_def)

lemma prio_ok_example: "prio_ok (prio (example_threads t))"
  by (simp add: example_threads_def example_thread_def prio_ok_simps)

lemma boot_ready_iff: "is_thread_ready boot_kernel t \<longleftrightarrow> t = 0 \<or> t = 2"
  by (auto simp: is_thread_ready_iff st_example)

lemma boot_kinv: "kinv {} boot_kernel"
proof -
  have "ready_inv {} boot_kernel" by (auto simp: ready_inv_def boot_rq_ok boot_ready_iff)
  moreover have "wait_inv {} boot_kernel" by (simp add: wait_inv_def st_example)
  moreover have "delta_inv boot_kernel" by (simp add: delta_inv_def INACTIVE_def EXPIRED_def)
  moreover have "link_inv {} boot_kernel" by (simp add: link_inv_def)
  moreover have "thread_inv {} boot_kernel" by (simp add: thread_inv_def boot_ready_iff prio_ok_example)
  ultimately show ?thesis by (simp add: kinv_def)
qed

lemma boot_sched_ok: "sched_ok boot_kernel"
  by (auto simp: sched_ok_def boot_kinv boot_ready_iff settled_def INACTIVE_def EXPIRED_def)

section \<open>A state with two threads to run\<close>

lemma kinv_prestart:
  assumes k: "kinv {} k" and t: "st k t 2" "\<not> st k t 1" "delta k (ThreadTO t) = INACTIVE" "t \<noteq> idle_thread k"
  shows "kinv {t} k"
  using k t by (auto simp: kinv_defs is_thread_ready_iff)

definition pair_kernel :: kernel where
  "pair_kernel = ready_thread 3 boot_kernel"

lemma pair_current: "current pair_kernel = 2" "idle_thread pair_kernel = 0" "\<not> handling_timeouts pair_kernel"
  "nested pair_kernel = 0" "prio (threads pair_kernel t) = prio (example_threads t)" "queues pair_kernel (WaitQ w) = []"
  by (simp_all add: pair_kernel_def ready_thread_frame)

lemma pair_sched_ok: "sched_ok pair_kernel"
proof -
  have "kinv {3} boot_kernel" by (intro kinv_prestart boot_kinv) (simp_all add: st_example)
  then have k: "kinv {} pair_kernel"
    unfolding pair_kernel_def by (rule ready_thread_kinv) (simp_all add: st_example)
  have "settled pair_kernel" by (simp add: settled_def pair_kernel_def ready_thread_frame INACTIVE_def EXPIRED_def)
  moreover have "is_thread_ready pair_kernel t \<longleftrightarrow> t \<in> {0, 2, 3}" for t
    by (auto simp: pair_kernel_def is_thread_ready_iff st_ready_thread st_example ready_thread_frame)
  ultimately show ?thesis using k by (auto simp: sched_ok_def pair_current)
qed

section \<open>Properties\<close>

text \<open>
  C32. Yielding is round robin: the caller goes behind the last ready thread of its own
  priority, the other ready threads keep their order, and the thread that runs next is the
  first of the new list. The scheduler invariant holds again.
\<close>

theorem k_yield_round_robin:
  assumes "sched_ok k"
  shows "sched_ok (k_yield k) \<and>
    ready_list (k_yield k) =
      prio_insert (\<lambda>u. prio (threads k u)) (current k) (remove1 (current k) (ready_list k)) \<and>
    current (k_yield k) = hd (ready_list (k_yield k))"
  using k_yield_spec [OF assms] by simp

lemma pair_ready_list: "ready_list pair_kernel = [2, 3, 0]"
  by code_simp

theorem k_yield_round_robin_witness:
  "ready_list (k_yield pair_kernel) = [2, 3, 0] \<and> current (k_yield pair_kernel) = 2"
  using k_yield_round_robin [OF pair_sched_ok] by (simp add: pair_ready_list pair_current prio_insert_Cons)

text \<open>
  Sleeping takes the caller off the ready list, puts it among the timeouts at its
  place in time (rounded up to ticks, and one more for the tick in progress), and hands the
  processor to the next ready thread.
\<close>

theorem k_sleep_arms_timeout:
  assumes "sched_ok k" and "current k \<noteq> idle_thread k" and "duration \<noteq> 0"
  shows "sched_ok (k_sleep duration k) \<and>
    remaining (k_sleep duration k) =
      expiry_insert (ThreadTO (current k)) (TICK_ALIGN + ms_to_ticks duration) (remaining k) \<and>
    ready_list (k_sleep duration k) = remove1 (current k) (ready_list k) \<and>
    current (k_sleep duration k) = hd (remove1 (current k) (ready_list k))"
  using k_sleep_spec [OF assms] by simp

theorem k_sleep_arms_timeout_witness:
  "ready_list (k_sleep 25 pair_kernel) = [3, 0] \<and> current (k_sleep 25 pair_kernel) = 3"
  using k_sleep_arms_timeout [OF pair_sched_ok, of 25] by (simp add: pair_ready_list pair_current)

text \<open>
  Waking a thread that sleeps cancels its timeout and no other, and makes it ready
  unless it is suspended or dead; waking one that does not sleep changes nothing of the
  timeouts.
\<close>

theorem k_wakeup_cancels_sleep:
  assumes "sched_ok k" and "\<not> is_in_isr k" and "\<not> is_thread_pending k t" and "delta k (ThreadTO t) \<noteq> EXPIRED"
  shows "sched_ok (k_wakeup t k) \<and>
    remaining (k_wakeup t k) = filter (\<lambda>(r, _). r \<noteq> ThreadTO t) (remaining k) \<and>
    (is_thread_ready (k_wakeup t k) t \<longleftrightarrow>
      is_thread_ready k t \<or> delta k (ThreadTO t) \<noteq> INACTIVE \<and> \<not> st k t 0 \<and> \<not> st k t 3 \<and> \<not> st k t 4)"
  using k_wakeup_spec [OF assms(1,2) _ assms(4)] assms(3)
  by (simp add: is_thread_pending_iff)

definition sleeper_kernel :: kernel where
  "sleeper_kernel = k_sleep 25 pair_kernel"

lemma sleeper_sched_ok: "sched_ok sleeper_kernel"
  unfolding sleeper_kernel_def by (rule k_sleep_spec [OF pair_sched_ok]) (simp_all add: pair_current)

lemma sleeper_facts: "\<not> is_in_isr sleeper_kernel" "\<not> is_thread_pending sleeper_kernel 2"
  "delta sleeper_kernel (ThreadTO 2) = 4" "remaining sleeper_kernel = [(ThreadTO 2, 4)]"
  "\<not> st sleeper_kernel 2 0" "\<not> st sleeper_kernel 2 3" "\<not> st sleeper_kernel 2 4"
  by code_simp+

theorem k_wakeup_cancels_sleep_witness:
  "remaining (k_wakeup 2 sleeper_kernel) = [] \<and> is_thread_ready (k_wakeup 2 sleeper_kernel) 2"
  using k_wakeup_cancels_sleep [OF sleeper_sched_ok sleeper_facts(1,2)]
  by (simp add: sleeper_facts EXPIRED_def INACTIVE_def)

text \<open>
  C33. Changing the priority of a thread changes that priority and no other, and the thread
  that runs afterwards is the right one for the new priorities.
\<close>

theorem k_thread_priority_set_ok:
  assumes "sched_ok k" and "prio_ok p" and "t \<noteq> idle_thread k"
  shows "sched_ok (k_thread_priority_set t p k) \<and>
    (\<forall>u. k_thread_priority_get (k_thread_priority_set t p k) u = (if u = t then p else k_thread_priority_get k u))"
  using k_thread_priority_set_spec [OF assms] by simp

theorem k_thread_priority_set_ok_witness:
  "sched_ok (k_thread_priority_set 3 (- 1) pair_kernel) \<and>
   k_thread_priority_get (k_thread_priority_set 3 (- 1) pair_kernel) 3 = - 1"
  using k_thread_priority_set_ok [OF pair_sched_ok, of "- 1" 3] by (simp add: pair_current prio_ok_simps)

text \<open>
  While a thread holds the scheduler lock no call that reschedules takes the processor
  from it, whatever thread has become ready or changed priority meanwhile: the lock makes
  it not preemptible, a rescheduling point then leaves the state as it is, and locking
  followed by unlocking is the identity.
\<close>

theorem k_sched_lock_holds_processor:
  fixes k :: "'a kernel_scheme"
  assumes s: "sched_ok k" and l: "sched_locked (threads k (current k)) \<noteq> 1"
  shows "sched_ok (k_sched_lock k) \<and> current (k_sched_lock k) = current k \<and>
    (\<forall>k' :: 'a kernel_scheme. current k' = current k \<longrightarrow>
        sched_locked (threads k' (current k)) = sched_locked (threads (k_sched_lock k) (current k)) \<longrightarrow>
        prio_ok (prio (threads k' (current k))) \<longrightarrow> reschedule_threads k' = k') \<and>
    k_sched_unlock (k_sched_lock k) = k"
proof (intro conjI allI impI)
  show "sched_ok (k_sched_lock k)" "current (k_sched_lock k) = current k"
    using sched_lock_spec [OF s l] by simp_all
  show "k_sched_unlock (k_sched_lock k) = k" using lock_unlock_id [OF s] by (simp add: k_sched_lock_def)
next
  fix k' :: "'a kernel_scheme"
  assume "current k' = current k" "prio_ok (prio (threads k' (current k)))"
    "sched_locked (threads k' (current k)) = sched_locked (threads (k_sched_lock k) (current k))"
  then show "reschedule_threads k' = k'"
    using l by (intro reschedule_locked) (auto simp: is_preempt_iff prio_ok_simps k_sched_lock_def sched_lock_def)
qed

theorem k_sched_lock_holds_processor_witness:
  "sched_ok (k_sched_lock pair_kernel) \<and> k_sched_unlock (k_sched_lock pair_kernel) = pair_kernel"
proof -
  have "sched_locked (threads pair_kernel (current pair_kernel)) \<noteq> 1" by code_simp
  then show ?thesis using k_sched_lock_holds_processor [OF pair_sched_ok] by simp
qed

text \<open>
  Converting a timeout to ticks and back: the ticks are the least number whose time is
  not shorter than the timeout, so a timeout of whole ticks is converted exactly, for every
  timeout that is not negative.
\<close>

theorem ms_to_ticks_round_up:
  assumes ms: "0 \<le> ms" "ms < 2 ^ 31"
  shows "ms \<le> ticks_to_ms (ms_to_ticks ms) \<and> ticks_to_ms (ms_to_ticks ms) < ms + ms_per_tick \<and>
    (ms mod ms_per_tick = 0 \<longrightarrow> ticks_to_ms (ms_to_ticks ms) = ms)"
proof -
  let ?t = "(ms + 9) div 10"
  have t: "0 \<le> ?t" "?t < 2 ^ 31" using ms by linarith+
  have "ticks_to_ms ?t = ?t * 10"
    using ms t by (intro ticks_to_ms_exact) simp_all
  then show ?thesis
    unfolding ms_to_ticks_ceiling [OF ms] ms_per_tick_def using ms by auto
qed

theorem ms_to_ticks_round_up_witness: "25 \<le> ticks_to_ms (ms_to_ticks 25) \<and> ticks_to_ms (ms_to_ticks 40) = 40"
  using ms_to_ticks_round_up [of 25] ms_to_ticks_round_up [of 40] by (simp add: ms_per_tick_def)

end
