(* ===== verification/Sys_Clock.thy ===== *)
theory Sys_Clock
  imports Scheduler
begin

text \<open>
  The system clock (\<^verbatim>\<open>kernel/sys_clock.c\<close>): the tick count, and what the kernel does when
  the timer driver announces ticks: it expires timeouts and time slices. The loop that
  moves the expired timeouts to a list of their own lets interrupts in between two of
  them; it is modelled as one step.
\<close>

section \<open>Operations\<close>

definition tick_get_32 :: "'a kernel_scheme \<Rightarrow> u32" where
  "tick_get_32 k = ucast (sys_clock_tick_count k)"

definition tick_get :: "'a kernel_scheme \<Rightarrow> int" where
  "tick_get k = sint (sys_clock_tick_count k)"

definition k_uptime_get_32 :: "'a kernel_scheme \<Rightarrow> u32" where
  "k_uptime_get_32 k = word_of_int (ticks_to_ms (uint (tick_get_32 k)))"

definition k_uptime_get :: "'a kernel_scheme \<Rightarrow> int" where
  "k_uptime_get k = ticks_to_ms (tick_get k)"

text \<open>The difference is an \<^verbatim>\<open>s64_t\<close>; the reference time is written back.\<close>

definition k_uptime_delta :: "int \<Rightarrow> 'a kernel_scheme \<Rightarrow> int \<times> int" where
  "k_uptime_delta reftime k =
     (let uptime = k_uptime_get k; delta = sint (word_of_int (uptime - reftime) :: u64)
      in (delta, uptime))"

definition k_uptime_delta_32 :: "int \<Rightarrow> 'a kernel_scheme \<Rightarrow> u32 \<times> int" where
  "k_uptime_delta_32 reftime k =
     (let (delta, reftime') = k_uptime_delta reftime k in (word_of_int delta, reftime'))"

function dequeue_expired :: "toref list \<Rightarrow> 'a kernel_scheme \<Rightarrow> toref list \<times> 'a kernel_scheme" where
  "dequeue_expired expired k =
     (case timeout_q k of
        [] \<Rightarrow> (expired, k)
      | r # rs \<Rightarrow>
          (if delta k r = 0
           then dequeue_expired (r # expired) (set_delta r EXPIRED (k\<lparr>timeout_q := rs\<rparr>))
           else (expired, k)))"
  by pat_completeness auto

termination dequeue_expired
  by (relation "measure (\<lambda>(_, k). length (timeout_q k))") auto

declare dequeue_expired.simps [simp del]

definition handle_timeouts ::
  "(nat \<Rightarrow> toref \<Rightarrow> 'a kernel_scheme \<Rightarrow> 'a kernel_scheme) \<Rightarrow> int \<Rightarrow> 'a kernel_scheme \<Rightarrow> 'a kernel_scheme" where
  "handle_timeouts call ticks k =
     (case timeout_q k of
        [] \<Rightarrow> k
      | head # _ \<Rightarrow>
          let k1 = set_delta head (delta k head - ticks) k;
              k2 = k1\<lparr>handling_timeouts := True\<rparr>;
              (expired, k3) = dequeue_expired [] k2;
              k4 = handle_expired_timeouts call expired k3
          in k4\<lparr>handling_timeouts := False\<rparr>)"

definition handle_time_slicing :: "int \<Rightarrow> 'a kernel_scheme \<Rightarrow> 'a kernel_scheme" where
  "handle_time_slicing ticks k =
     (if \<not> is_thread_time_slicing k (current k) then k
      else
        let k1 = k\<lparr>time_slice_elapsed := to_s32 (time_slice_elapsed k + ticks_to_ms ticks)\<rparr>
        in if time_slice_elapsed k1 \<ge> time_slice_duration k1
           then move_thread_to_end_of_prio_q (current k1) (k1\<lparr>time_slice_elapsed := 0\<rparr>)
           else k1)"

definition nano_sys_clock_tick_announce ::
  "(nat \<Rightarrow> toref \<Rightarrow> 'a kernel_scheme \<Rightarrow> 'a kernel_scheme) \<Rightarrow> int \<Rightarrow> 'a kernel_scheme \<Rightarrow> 'a kernel_scheme" where
  "nano_sys_clock_tick_announce call ticks k =
     (let k1 = k\<lparr>sys_clock_tick_count := sys_clock_tick_count k + word_of_int ticks\<rparr>;
          k2 = handle_timeouts call ticks k1
      in handle_time_slicing ticks k2)"

section \<open>The expired timeouts\<close>

text \<open>What an advance by some ticks leaves of a list of remaining times, and what it expires.\<close>

definition advance :: "int \<Rightarrow> (toref \<times> int) list \<Rightarrow> (toref \<times> int) list" where
  "advance ticks xs = map (\<lambda>(r, e). (r, e - ticks)) xs"

definition due :: "int \<Rightarrow> (toref \<times> int) list \<Rightarrow> toref list" where
  "due ticks xs = map fst (takeWhile (\<lambda>(_, e). e = 0) (advance ticks xs))"

definition not_due :: "int \<Rightarrow> (toref \<times> int) list \<Rightarrow> (toref \<times> int) list" where
  "not_due ticks xs = dropWhile (\<lambda>(_, e). e = 0) (advance ticks xs)"

lemma expiries_shift: "expiries T (a - c) qs = advance c (expiries T a qs)"
proof (induction qs arbitrary: a)
  case (Cons q qs)
  then show ?case using Cons [of "a + dt (T q)"] by (simp add: advance_def diff_add_eq)
qed (simp add: advance_def)

lemma expiries_zeros:
  assumes "\<forall>r \<in> set zs. dt (T r) = 0"
  shows "expiries T a (zs @ rs) = map (\<lambda>r. (r, a)) zs @ expiries T a rs"
  using assms by (induction zs) auto

lemma dequeue_expired_split:
  assumes "timeout_q k = zs @ rs" "distinct (zs @ rs)" "\<forall>r \<in> set zs. delta k r = 0"
    "rs \<noteq> [] \<longrightarrow> delta k (hd rs) \<noteq> 0"
  shows "dequeue_expired e k =
    (rev zs @ e, k\<lparr>timeout_q := rs, timeouts := fold (\<lambda>r T. with_delta T r EXPIRED) zs (timeouts k)\<rparr>)"
  using assms
proof (induction zs arbitrary: e k)
  case Nil
  then show ?case by (cases rs) (simp_all add: dequeue_expired.simps)
next
  case (Cons z zs)
  let ?k = "set_delta z EXPIRED (k\<lparr>timeout_q := zs @ rs\<rparr>)"
  have "dequeue_expired e k = dequeue_expired (z # e) ?k"
    using Cons.prems by (subst dequeue_expired.simps) simp
  also have "\<dots> = (rev zs @ z # e, ?k\<lparr>timeout_q := rs,
      timeouts := fold (\<lambda>r T. with_delta T r EXPIRED) zs (timeouts ?k)\<rparr>)"
    using Cons.prems by (intro Cons.IH) (auto simp: EXPIRED_def)
  finally show ?case by (simp add: set_delta_def)
qed

lemma fold_with_delta:
  "dt (fold (\<lambda>r T. with_delta T r EXPIRED) zs T x) = (if x \<in> set zs then EXPIRED else dt (T x))"
  "to_thread (fold (\<lambda>r T. with_delta T r EXPIRED) zs T x) = to_thread (T x)"
  "to_wait_q (fold (\<lambda>r T. with_delta T r EXPIRED) zs T x) = to_wait_q (T x)"
  "to_func (fold (\<lambda>r T. with_delta T r EXPIRED) zs T x) = to_func (T x)"
  by (induction zs arbitrary: T) auto

text \<open>
  The state after the expired timeouts have been moved off the queue, in terms of the
  times that remained: the clock must not have advanced beyond the first expiry.
\<close>

definition dequeued :: "int \<Rightarrow> 'a kernel_scheme \<Rightarrow> toref list \<times> 'a kernel_scheme" where
  "dequeued ticks k =
     dequeue_expired [] ((set_delta (hd (timeout_q k)) (delta k (hd (timeout_q k)) - ticks) k)\<lparr>handling_timeouts := True\<rparr>)"

lemma handle_timeouts_dequeued:
  "handle_timeouts call ticks k =
     (if timeout_q k = [] then k
      else (handle_expired_timeouts call (fst (dequeued ticks k)) (snd (dequeued ticks k)))
             \<lparr>handling_timeouts := False\<rparr>)"
  by (simp add: handle_timeouts_def dequeued_def Let_def case_prod_unfold split: list.split)

lemma advance_head:
  assumes "h \<notin> set qs"
  shows "expiries (with_delta T h (dt (T h) - ticks)) 0 (h # qs) = advance ticks (expiries T 0 (h # qs))"
  using expiries_shift [of T "dt (T h)" ticks qs] assms by (simp add: advance_def)

lemma due_split:
  assumes "\<forall>r \<in> set qs. 0 \<le> dt (T r)"
  defines "zs \<equiv> takeWhile (\<lambda>r. dt (T r) = 0) qs" and "rs \<equiv> dropWhile (\<lambda>r. dt (T r) = 0) qs"
  shows "takeWhile (\<lambda>(_, e). e = 0) (expiries T 0 qs) = map (\<lambda>r. (r, 0)) zs"
    and "dropWhile (\<lambda>(_, e). e = 0) (expiries T 0 qs) = expiries T 0 rs"
    and "rs \<noteq> [] \<longrightarrow> 0 < dt (T (hd rs))"
proof -
  have "\<forall>r \<in> set zs. dt (T r) = 0" unfolding zs_def by (meson set_takeWhileD)
  then have ez: "expiries T 0 (zs @ rs) = map (\<lambda>r. (r, 0)) zs @ expiries T 0 rs" by (rule expiries_zeros)
  have split: "qs = zs @ rs" by (simp add: zs_def rs_def)
  have "dt (T (hd rs)) \<noteq> 0" if "rs \<noteq> []" using that unfolding rs_def by (rule hd_dropWhile)
  then show pos: "rs \<noteq> [] \<longrightarrow> 0 < dt (T (hd rs))"
    using assms(1) unfolding split by (metis Un_iff hd_in_set order_le_less set_append)
  show "takeWhile (\<lambda>(_, e). e = 0) (expiries T 0 qs) = map (\<lambda>r. (r, 0)) zs"
    "dropWhile (\<lambda>(_, e). e = 0) (expiries T 0 qs) = expiries T 0 rs"
    using pos unfolding split ez by (cases rs; simp add: takeWhile_append dropWhile_append)+
qed

text \<open>The timeouts of the state after the loop, and what is left on the queue.\<close>

definition after_due :: "int \<Rightarrow> 'a kernel_scheme \<Rightarrow> toref \<Rightarrow> k_timeout" where
  "after_due ticks k =
     fold (\<lambda>r T. with_delta T r EXPIRED) (due ticks (remaining k))
       (with_delta (timeouts k) (hd (timeout_q k)) (delta k (hd (timeout_q k)) - ticks))"

lemma dequeued_spec:
  assumes d: "delta_inv k" and ne: "timeout_q k \<noteq> []"
    and t: "0 \<le> ticks" "ticks \<le> delta k (hd (timeout_q k))"
  obtains rs where "dequeued ticks k = (rev (due ticks (remaining k)),
      k\<lparr>handling_timeouts := True, timeout_q := rs, timeouts := after_due ticks k\<rparr>)"
    and "timeout_q k = due ticks (remaining k) @ rs"
    and "\<forall>r \<in> set rs. 0 \<le> dt (after_due ticks k r)"
    and "rs \<noteq> [] \<longrightarrow> 0 < dt (after_due ticks k (hd rs))"
    and "expiries (after_due ticks k) 0 rs = not_due ticks (remaining k)"
proof -
  obtain h qs where q: "timeout_q k = h # qs" using ne by (cases "timeout_q k") auto
  define T1 where "T1 = with_delta (timeouts k) h (delta k h - ticks)"
  define zs where "zs = takeWhile (\<lambda>r. dt (T1 r) = 0) (h # qs)"
  define rs where "rs = dropWhile (\<lambda>r. dt (T1 r) = 0) (h # qs)"
  have split: "timeout_q k = zs @ rs" by (simp add: zs_def rs_def q)
  have dist: "distinct (zs @ rs)" using d unfolding split [symmetric] by (simp add: delta_inv_def)
  have nn: "\<forall>r \<in> set (h # qs). 0 \<le> dt (T1 r)" using d t by (auto simp: T1_def delta_inv_def q)
  note s = due_split [OF nn, folded zs_def rs_def]
  have "h \<notin> set qs" using d by (simp add: delta_inv_def q)
  then have e1: "expiries T1 0 (h # qs) = advance ticks (remaining k)"
    unfolding T1_def remaining_def q by (rule advance_head)
  have due: "due ticks (remaining k) = zs" unfolding due_def e1 [symmetric] s by (simp add: comp_def)
  have ad: "after_due ticks k = fold (\<lambda>r T. with_delta T r EXPIRED) zs T1"
    by (simp add: after_due_def due T1_def q)
  have inrs: "dt (after_due ticks k r) = dt (T1 r)" if "r \<in> set rs" for r
    using that dist by (auto simp: ad fold_with_delta)
  show ?thesis
  proof (rule that [of rs])
    let ?k2 = "(set_delta h (delta k h - ticks) k)\<lparr>handling_timeouts := True\<rparr>"
    have k2: "timeouts ?k2 = T1" "timeout_q ?k2 = zs @ rs" by (simp_all add: T1_def split)
    have z0: "\<forall>r \<in> set zs. delta ?k2 r = 0" unfolding k2 zs_def by (meson set_takeWhileD)
    have r0: "rs \<noteq> [] \<longrightarrow> delta ?k2 (hd rs) \<noteq> 0" unfolding k2 using s(3) by auto
    have "dequeued ticks k = dequeue_expired [] ?k2" by (simp add: dequeued_def q)
    also have "\<dots> = (rev zs, ?k2\<lparr>timeout_q := rs, timeouts := after_due ticks k\<rparr>)"
      unfolding dequeue_expired_split [OF k2(2) dist z0 r0] k2 ad by simp
    finally show "dequeued ticks k = (rev (due ticks (remaining k)),
        k\<lparr>handling_timeouts := True, timeout_q := rs, timeouts := after_due ticks k\<rparr>)"
      by (simp add: due set_delta_def)
    show "timeout_q k = due ticks (remaining k) @ rs" by (simp add: due split)
    show "\<forall>r \<in> set rs. 0 \<le> dt (after_due ticks k r)"
      using nn split inrs unfolding q [symmetric] by simp
    show "rs \<noteq> [] \<longrightarrow> 0 < dt (after_due ticks k (hd rs))" using s(3) inrs by simp
    show "expiries (after_due ticks k) 0 rs = not_due ticks (remaining k)"
      unfolding not_due_def e1 [symmetric] s using inrs by (intro expiries_cong)
  qed
qed

lemma after_due_simps:
  assumes "delta_inv k" "timeout_q k \<noteq> []" "0 \<le> ticks" "ticks \<le> delta k (hd (timeout_q k))"
  shows "r \<in> set (due ticks (remaining k)) \<Longrightarrow> dt (after_due ticks k r) = EXPIRED"
    and "r \<notin> set (timeout_q k) \<Longrightarrow> dt (after_due ticks k r) = delta k r"
    and "dt (after_due ticks k r) = INACTIVE \<longleftrightarrow> delta k r = INACTIVE"
    and "to_thread (after_due ticks k r) = to_thread (timeouts k r)"
    and "to_wait_q (after_due ticks k r) = to_wait_q (timeouts k r)"
    and "to_func (after_due ticks k r) = to_func (timeouts k r)"
proof -
  obtain rs where rs: "timeout_q k = due ticks (remaining k) @ rs"
    "\<forall>r \<in> set rs. 0 \<le> dt (after_due ticks k r)"
    using dequeued_spec [OF assms] by metis
  show due: "r \<in> set (due ticks (remaining k)) \<Longrightarrow> dt (after_due ticks k r) = EXPIRED" for r
    by (simp add: after_due_def fold_with_delta)
  show out: "r \<notin> set (timeout_q k) \<Longrightarrow> dt (after_due ticks k r) = delta k r" for r
  proof -
    assume r: "r \<notin> set (timeout_q k)"
    then have "r \<noteq> hd (timeout_q k)" using assms(2) hd_in_set by metis
    moreover have "r \<notin> set (due ticks (remaining k))" using r rs(1) by simp
    ultimately show ?thesis by (simp add: after_due_def fold_with_delta)
  qed
  show "dt (after_due ticks k r) = INACTIVE \<longleftrightarrow> delta k r = INACTIVE"
  proof (cases "r \<in> set (timeout_q k)")
    case True
    then have "0 \<le> delta k r" using assms(1) by (simp add: delta_inv_def)
    moreover have "dt (after_due ticks k r) = EXPIRED \<or> 0 \<le> dt (after_due ticks k r)"
      using True rs due by auto
    ultimately show ?thesis by (auto simp: INACTIVE_def EXPIRED_def)
  qed (simp add: out)
qed (simp_all add: after_due_def fold_with_delta)

lemma dequeued_kinv:
  assumes k: "kinv {} k" and ne: "timeout_q k \<noteq> []"
    and t: "0 \<le> ticks" "ticks \<le> delta k (hd (timeout_q k))"
  shows "kinv {} (snd (dequeued ticks k))"
    and "fst (dequeued ticks k) = rev (due ticks (remaining k))"
    and "\<forall>r \<in> set (due ticks (remaining k)). delta (snd (dequeued ticks k)) r = EXPIRED"
    and "remaining (snd (dequeued ticks k)) = not_due ticks (remaining k)"
    and "distinct (due ticks (remaining k))"
proof -
  note d = kinvD(3) [OF k]
  note a = after_due_simps [OF d ne t]
  obtain rs where e: "dequeued ticks k = (rev (due ticks (remaining k)),
      k\<lparr>handling_timeouts := True, timeout_q := rs, timeouts := after_due ticks k\<rparr>)"
    and q: "timeout_q k = due ticks (remaining k) @ rs"
    and nn: "\<forall>r \<in> set rs. 0 \<le> dt (after_due ticks k r)"
    and hd: "rs \<noteq> [] \<longrightarrow> 0 < dt (after_due ticks k (hd rs))"
    and ex: "expiries (after_due ticks k) 0 rs = not_due ticks (remaining k)"
    using dequeued_spec [OF d ne t] by metis
  show "fst (dequeued ticks k) = rev (due ticks (remaining k))"
    "\<forall>r \<in> set (due ticks (remaining k)). delta (snd (dequeued ticks k)) r = EXPIRED"
    "remaining (snd (dequeued ticks k)) = not_due ticks (remaining k)"
    using a(1) ex by (simp_all add: e remaining_def)
  show "distinct (due ticks (remaining k))" using d by (simp add: delta_inv_def q)
  let ?k = "k\<lparr>handling_timeouts := True, timeout_q := rs, timeouts := after_due ticks k\<rparr>"
  have dist: "set (due ticks (remaining k)) \<inter> set rs = {}" using d by (simp add: delta_inv_def q)
  have iff: "r \<in> set rs \<longleftrightarrow> 0 \<le> dt (after_due ticks k r)" for r
  proof (cases "r \<in> set (timeout_q k)")
    case True
    then consider "r \<in> set (due ticks (remaining k))" | "r \<in> set rs" unfolding q by auto
    then show ?thesis using nn dist a(1) [of r] by cases (auto simp: EXPIRED_def)
  next
    case False
    then show ?thesis using a(2) [of r] d by (auto simp: q delta_inv_def)
  qed
  have low: "EXPIRED \<le> dt (after_due ticks k r)" for r
    using iff [of r] a(1,2) [of r] d by (cases "r \<in> set (timeout_q k)") (auto simp: q delta_inv_def EXPIRED_def)
  have "kinv {} ?k"
  proof (rule timeouts_change_kinv [OF k])
    show "delta_inv ?k" using d iff low hd by (simp add: delta_inv_def q)
    show "is_thread_ready ?k u \<longleftrightarrow> is_thread_ready k u" for u
      by (simp add: is_thread_ready_iff a(3))
    have "timeout_link ?k u \<longleftrightarrow> timeout_link k u" for u
      by (rule timeout_link_frame) (simp_all add: a(4,5))
    then show "delta ?k (ThreadTO u) \<noteq> INACTIVE \<Longrightarrow> timeout_link ?k u" for u
      using kinvD(4) [OF k] by (simp add: link_inv_def a(3))
  qed simp_all
  then show "kinv {} (snd (dequeued ticks k))" by (simp add: e)
qed

section \<open>Handling them\<close>

text \<open>
  An expired timeout that waits to be handled: that of a thread, or one of an object, which
  names no thread.
\<close>

definition to_handle :: "'a kernel_scheme \<Rightarrow> toref \<Rightarrow> bool" where
  "to_handle k r \<longleftrightarrow> delta k r = EXPIRED \<and> ((\<forall>t. r \<noteq> ThreadTO t) \<longrightarrow> to_thread (timeouts k r) = None)"

lemma handle_object_eq:
  fixes call :: "nat \<Rightarrow> toref \<Rightarrow> 'a kernel_scheme \<Rightarrow> 'a kernel_scheme"
  assumes "to_handle k r" "\<forall>t. r \<noteq> ThreadTO t"
  shows "handle_one_expired_timeout call r k =
    (case to_func (timeouts k r) of Some f \<Rightarrow> call f r (set_delta r INACTIVE k) | None \<Rightarrow> set_delta r INACTIVE k)"
  using assms by (simp add: to_handle_def handle_one_expired_timeout_def Let_def)

lemma set_delta_object_kinv:
  assumes k: "kinv {} k" and e: "delta k r = EXPIRED" and r: "\<forall>t. r \<noteq> ThreadTO t"
  shows "kinv {} (set_delta r INACTIVE k)"
proof (rule timeouts_change_kinv [OF k])
  let ?k = "set_delta r INACTIVE k"
  have "r \<notin> set (timeout_q k)" using e by (simp add: delta_inv_cases [OF kinvD(3) [OF k]])
  then show "delta_inv ?k"
    using kinvD(3) [OF k] by (auto simp: delta_inv_def EXPIRED_def INACTIVE_def)
  have r': "ThreadTO u \<noteq> r" for u using r by auto
  show "is_thread_ready ?k u \<longleftrightarrow> is_thread_ready k u" for u using r' by (simp add: is_thread_ready_iff)
  have "timeout_link ?k u \<longleftrightarrow> timeout_link k u" for u by (rule timeout_link_frame) simp_all
  then show "delta ?k (ThreadTO u) \<noteq> INACTIVE \<Longrightarrow> timeout_link ?k u" for u
    using kinvD(4) [OF k] r' by (simp add: link_inv_def)
qed simp_all

lemma handle_thread_eq:
  assumes k: "kinv {} k" and e: "delta k (ThreadTO t) = EXPIRED"
  shows "handle_one_expired_timeout call (ThreadTO t) k =
    ready_thread t (unpend_thread_timing_out t (ThreadTO t) (set_delta (ThreadTO t) INACTIVE k))"
proof -
  have "timeout_link k t"
    using kinvD(4) [OF k] e by (simp add: link_inv_def EXPIRED_def INACTIVE_def)
  then show ?thesis by (simp add: timeout_link_def handle_one_expired_timeout_def)
qed

lemma unpend_timing_out_simps:
  "current (unpend_thread_timing_out t r k) = current k"
  "dt (timeouts (unpend_thread_timing_out t r k) x) = delta k x"
  "x \<noteq> ThreadTO t \<Longrightarrow> timeouts (unpend_thread_timing_out t r k) x = timeouts k x"
  "st (unpend_thread_timing_out t r k) u n \<longleftrightarrow>
     st k u n \<and> \<not> (to_wait_q (timeouts k r) \<noteq> None \<and> u = t \<and> n = 1)"
  by (auto simp: unpend_thread_timing_out_def st_unpend)

lemma handle_thread_frame:
  assumes k: "kinv {} k" and e: "delta k (ThreadTO t) = EXPIRED"
  shows "current (handle_one_expired_timeout call (ThreadTO t) k) = current k"
    and "is_thread_ready k u \<Longrightarrow> is_thread_ready (handle_one_expired_timeout call (ThreadTO t) k) u"
    and "x \<noteq> ThreadTO t \<Longrightarrow> timeouts (handle_one_expired_timeout call (ThreadTO t) k) x = timeouts k x"
    and "n = 0 \<or> n = 3 \<or> n = 4 \<Longrightarrow>
      st (handle_one_expired_timeout call (ThreadTO t) k) u n \<longleftrightarrow> st k u n"
  unfolding handle_thread_eq [OF k e]
  by (auto simp: ready_thread_frame is_thread_ready_iff st_ready_thread unpend_timing_out_simps)

lemma handle_thread_ready:
  assumes k: "kinv {} k" and e: "delta k (ThreadTO t) = EXPIRED"
    and s: "\<not> st k t 0" "\<not> st k t 3" "\<not> st k t 4"
  shows "is_thread_ready (handle_one_expired_timeout call (ThreadTO t) k) t"
proof -
  have "timeout_link k t"
    using kinvD(4) [OF k] e by (simp add: link_inv_def EXPIRED_def INACTIVE_def)
  then have "st k t 1 \<Longrightarrow> to_wait_q (timeouts k (ThreadTO t)) \<noteq> None"
    by (auto simp: timeout_link_def split: option.splits)
  with s show ?thesis
    unfolding handle_thread_eq [OF k e]
    by (auto simp: ready_thread_frame is_thread_ready_iff st_ready_thread unpend_timing_out_simps)
qed

lemma handle_thread_queue:
  assumes k: "kinv {} k" and e: "delta k (ThreadTO t) = EXPIRED"
  shows "timeout_q (handle_one_expired_timeout call (ThreadTO t) k) = timeout_q k"
    and "delta (handle_one_expired_timeout call (ThreadTO t) k) x = (if x = ThreadTO t then INACTIVE else delta k x)"
  unfolding handle_thread_eq [OF k e]
  by (simp_all add: ready_thread_frame unpend_timing_out_simps)
     (simp add: unpend_thread_timing_out_def)

lemma handle_thread_objects:
  assumes k: "kinv {} k" and e: "delta k (ThreadTO t) = EXPIRED"
  shows "kernel.more (handle_one_expired_timeout call (ThreadTO t) k) = kernel.more k"
    and "idle_thread (handle_one_expired_timeout call (ThreadTO t) k) = idle_thread k"
    and "nested (handle_one_expired_timeout call (ThreadTO t) k) = nested k"
    and "set (queues (handle_one_expired_timeout call (ThreadTO t) k) (WaitQ w)) \<subseteq> set (queues k (WaitQ w))"
    and "delta k (ThreadTO u) = INACTIVE \<Longrightarrow> delta (handle_one_expired_timeout call (ThreadTO t) k) (ThreadTO u) = INACTIVE"
  unfolding handle_thread_eq [OF k e]
  by (auto simp: ready_thread_frame unpend_timing_out_simps unpend_thread_timing_out_def unpend_thread_def
      mark_thread_as_not_pending_def queue_remove_def dest: subsetD [OF set_remove1_subset])

lemma dequeued_expired:
  assumes k: "kinv {} k" and ne: "timeout_q k \<noteq> []" and t: "0 \<le> ticks" "ticks \<le> delta k (hd (timeout_q k))"
    and x: "delta (snd (dequeued ticks k)) x = EXPIRED"
  shows "x \<in> set (due ticks (remaining k)) \<or> delta k x = EXPIRED"
proof -
  note d = kinvD(3) [OF k]
  obtain rs where e: "dequeued ticks k = (rev (due ticks (remaining k)),
      k\<lparr>handling_timeouts := True, timeout_q := rs, timeouts := after_due ticks k\<rparr>)"
    and q: "timeout_q k = due ticks (remaining k) @ rs"
    using dequeued_spec [OF d ne t] by metis
  have "\<forall>y \<in> set rs. 0 \<le> dt (after_due ticks k y)"
    using kinvD(3) [OF dequeued_kinv(1) [OF k ne t]] by (simp add: e delta_inv_def)
  then have "x \<notin> set rs" using x by (auto simp: e EXPIRED_def)
  then show ?thesis using x after_due_simps(2) [OF d ne t, of x]
    by (cases "x \<in> set (due ticks (remaining k))") (simp_all add: e q)
qed

lemma due_to_handle:
  assumes k: "kinv {} k" and ne: "timeout_q k \<noteq> []"
    and t: "0 \<le> ticks" "ticks \<le> delta k (hd (timeout_q k))"
    and o: "\<forall>r \<in> set (timeout_q k). (\<forall>t. r \<noteq> ThreadTO t) \<longrightarrow> to_thread (timeouts k r) = None"
  shows "\<forall>r \<in> set (due ticks (remaining k)). to_handle (snd (dequeued ticks k)) r"
proof
  fix r assume r: "r \<in> set (due ticks (remaining k))"
  note d = kinvD(3) [OF k]
  obtain rs where e: "dequeued ticks k = (rev (due ticks (remaining k)),
      k\<lparr>handling_timeouts := True, timeout_q := rs, timeouts := after_due ticks k\<rparr>)"
    and q: "timeout_q k = due ticks (remaining k) @ rs" using dequeued_spec [OF d ne t] by metis
  show "to_handle (snd (dequeued ticks k)) r"
    using after_due_simps [OF d ne t, of r] r o by (simp add: to_handle_def e q)
qed

lemma dequeued_frame:
  assumes k: "kinv {} k" and ne: "timeout_q k \<noteq> []"
    and t: "0 \<le> ticks" "ticks \<le> delta k (hd (timeout_q k))"
  shows "current (snd (dequeued ticks k)) = current k" "threads (snd (dequeued ticks k)) = threads k"
    "is_thread_ready (snd (dequeued ticks k)) u \<longleftrightarrow> is_thread_ready k u"
    "kernel.more (snd (dequeued ticks k)) = kernel.more k" "queues (snd (dequeued ticks k)) = queues k"
    "idle_thread (snd (dequeued ticks k)) = idle_thread k" "nested (snd (dequeued ticks k)) = nested k"
    "delta (snd (dequeued ticks k)) (ThreadTO u) = INACTIVE \<longleftrightarrow> delta k (ThreadTO u) = INACTIVE"
proof -
  note d = kinvD(3) [OF k]
  obtain rs where e: "dequeued ticks k = (rev (due ticks (remaining k)),
      k\<lparr>handling_timeouts := True, timeout_q := rs, timeouts := after_due ticks k\<rparr>)"
    using dequeued_spec [OF d ne t] by metis
  show "current (snd (dequeued ticks k)) = current k" "threads (snd (dequeued ticks k)) = threads k"
    "is_thread_ready (snd (dequeued ticks k)) u \<longleftrightarrow> is_thread_ready k u"
    "kernel.more (snd (dequeued ticks k)) = kernel.more k" "queues (snd (dequeued ticks k)) = queues k"
    "idle_thread (snd (dequeued ticks k)) = idle_thread k" "nested (snd (dequeued ticks k)) = nested k"
    "delta (snd (dequeued ticks k)) (ThreadTO u) = INACTIVE \<longleftrightarrow> delta k (ThreadTO u) = INACTIVE"
    by (simp_all add: e is_thread_ready_iff after_due_simps(3) [OF d ne t])
qed

text \<open>
  What the clock relies on of the function a timeout calls: it keeps the invariant, and
  that of the objects it works on, does not touch the timeouts that have expired and wait
  to be handled, does not switch threads, and blocks no thread. The invariant of the
  objects survives threads leaving wait queues and timeouts of threads becoming inactive.
\<close>

definition callable :: "'a kernel_scheme \<Rightarrow> toref \<Rightarrow> bool" where
  "callable k r \<longleftrightarrow> kinv {} k \<and> (\<forall>t. r \<noteq> ThreadTO t) \<and> delta k r = INACTIVE"

locale timeout_callback =
  fixes call :: "nat \<Rightarrow> toref \<Rightarrow> 'a kernel_scheme \<Rightarrow> 'a kernel_scheme"
    and obj_inv :: "'a kernel_scheme \<Rightarrow> bool"
  assumes call_kinv: "callable k r \<Longrightarrow> obj_inv k \<Longrightarrow> kinv {} (call f r k)"
    and call_obj: "callable k r \<Longrightarrow> obj_inv k \<Longrightarrow> obj_inv (call f r k)"
    and call_expired: "callable k r \<Longrightarrow> obj_inv k \<Longrightarrow> delta k x = EXPIRED \<Longrightarrow> timeouts (call f r k) x = timeouts k x"
    and call_no_expired: "callable k r \<Longrightarrow> obj_inv k \<Longrightarrow> delta (call f r k) x = EXPIRED \<Longrightarrow> delta k x = EXPIRED"
    and call_current: "callable k r \<Longrightarrow> obj_inv k \<Longrightarrow> current (call f r k) = current k"
    and call_ready: "callable k r \<Longrightarrow> obj_inv k \<Longrightarrow> is_thread_ready k u \<Longrightarrow> is_thread_ready (call f r k) u"
    and call_blocked: "callable k r \<Longrightarrow> obj_inv k \<Longrightarrow> n = 0 \<or> n = 3 \<or> n = 4 \<Longrightarrow> st (call f r k) u n \<longleftrightarrow> st k u n"
    and obj_mono: "obj_inv k \<Longrightarrow> kernel.more k' = kernel.more k \<Longrightarrow>
      idle_thread k' = idle_thread k \<Longrightarrow> nested k' = nested k \<Longrightarrow>
      (\<And>w. set (queues k' (WaitQ w)) \<subseteq> set (queues k (WaitQ w))) \<Longrightarrow>
      (\<And>t. delta k (ThreadTO t) = INACTIVE \<Longrightarrow> delta k' (ThreadTO t) = INACTIVE) \<Longrightarrow> obj_inv k'"
begin

lemma object_callable:
  assumes k: "kinv {} k" "obj_inv k" and r: "to_handle k r" and f: "\<forall>t. r \<noteq> ThreadTO t"
  shows "callable (set_delta r INACTIVE k) r" "obj_inv (set_delta r INACTIVE k)"
proof -
  show "callable (set_delta r INACTIVE k) r"
    using k r f by (auto simp: callable_def to_handle_def intro!: set_delta_object_kinv)
  show "obj_inv (set_delta r INACTIVE k)" using f by (intro obj_mono [OF k(2)]) auto
qed

lemma handle_one_inv:
  assumes k: "kinv {} k" "obj_inv k" and r: "to_handle k r"
  shows "kinv {} (handle_one_expired_timeout call r k)" "obj_inv (handle_one_expired_timeout call r k)"
proof -
  have "kinv {} (handle_one_expired_timeout call r k) \<and> obj_inv (handle_one_expired_timeout call r k)"
  proof (cases "\<exists>t. r = ThreadTO t")
    case True
    then obtain t where t: "r = ThreadTO t" "delta k (ThreadTO t) = EXPIRED" using r by (auto simp: to_handle_def)
    have "obj_inv (handle_one_expired_timeout call (ThreadTO t) k)"
      using handle_thread_objects [OF k(1) t(2), where call = call] by (intro obj_mono [OF k(2)]) simp_all
    with k t show ?thesis by (simp add: handle_thread_timeout_kinv)
  next
    case False
    then have f: "\<forall>t. r \<noteq> ThreadTO t" by simp
    note c = object_callable [OF k r f]
    show ?thesis
      unfolding handle_object_eq [OF r f] using c call_kinv [OF c] call_obj [OF c]
      by (auto simp: callable_def split: option.split)
  qed
  then show "kinv {} (handle_one_expired_timeout call r k)" "obj_inv (handle_one_expired_timeout call r k)" by simp_all
qed

lemma handle_object_frame:
  assumes k: "kinv {} k" "obj_inv k" and r: "to_handle k r" and f: "\<forall>t. r \<noteq> ThreadTO t"
  shows "current (handle_one_expired_timeout call r k) = current k"
    and "is_thread_ready k u \<Longrightarrow> is_thread_ready (handle_one_expired_timeout call r k) u"
    and "x \<noteq> r \<Longrightarrow> delta k x = EXPIRED \<Longrightarrow>
      timeouts (handle_one_expired_timeout call r k) x = timeouts k x"
    and "n = 0 \<or> n = 3 \<or> n = 4 \<Longrightarrow> st (handle_one_expired_timeout call r k) u n \<longleftrightarrow> st k u n"
    and "delta (handle_one_expired_timeout call r k) x = EXPIRED \<Longrightarrow> x \<noteq> r \<and> delta k x = EXPIRED"
proof -
  let ?k = "set_delta r INACTIVE k"
  note c = object_callable [OF k r f]
  have f': "ThreadTO t \<noteq> r" for t using f by auto
  have rdy: "is_thread_ready ?k u \<longleftrightarrow> is_thread_ready k u" for u using f' by (simp add: is_thread_ready_iff)
  note h = handle_object_eq [OF r f, of call]
  show "current (handle_one_expired_timeout call r k) = current k"
    by (simp add: h call_current [OF c] split: option.split)
  show "is_thread_ready k u \<Longrightarrow> is_thread_ready (handle_one_expired_timeout call r k) u"
    using call_ready [OF c, of u] by (auto simp: h rdy split: option.split)
  show "x \<noteq> r \<Longrightarrow> delta k x = EXPIRED \<Longrightarrow>
      timeouts (handle_one_expired_timeout call r k) x = timeouts k x"
    using call_expired [OF c, of x] by (auto simp: h split: option.split)
  show "n = 0 \<or> n = 3 \<or> n = 4 \<Longrightarrow> st (handle_one_expired_timeout call r k) u n \<longleftrightarrow> st k u n"
    using call_blocked [OF c, of n _ u] by (auto simp: h split: option.split)
  have "delta ?k x = EXPIRED \<Longrightarrow> x \<noteq> r \<and> delta k x = EXPIRED"
    by (auto simp: INACTIVE_def EXPIRED_def split: if_splits)
  then show "delta (handle_one_expired_timeout call r k) x = EXPIRED \<Longrightarrow> x \<noteq> r \<and> delta k x = EXPIRED"
    using call_no_expired [OF c, of _ x] by (auto simp: h split: option.splits)
qed

lemma handle_one_frame:
  assumes k: "kinv {} k" "obj_inv k" and r: "to_handle k r"
  shows "current (handle_one_expired_timeout call r k) = current k"
    and "is_thread_ready k u \<Longrightarrow> is_thread_ready (handle_one_expired_timeout call r k) u"
    and "x \<noteq> r \<Longrightarrow> delta k x = EXPIRED \<Longrightarrow>
      timeouts (handle_one_expired_timeout call r k) x = timeouts k x"
    and "n = 0 \<or> n = 3 \<or> n = 4 \<Longrightarrow> st (handle_one_expired_timeout call r k) u n \<longleftrightarrow> st k u n"
    and "delta (handle_one_expired_timeout call r k) x = EXPIRED \<Longrightarrow> x \<noteq> r \<and> delta k x = EXPIRED"
proof -
  have e: "delta k (ThreadTO t) = EXPIRED" if "r = ThreadTO t" for t using that r by (simp add: to_handle_def)
  note o = handle_object_frame [OF k r] and h = handle_thread_frame [OF k(1) e, where call = call]
  show "current (handle_one_expired_timeout call r k) = current k"
    using o(1) h(1) by (cases r) simp_all
  show "is_thread_ready k u \<Longrightarrow> is_thread_ready (handle_one_expired_timeout call r k) u"
    using o(2) h(2) by (cases r) simp_all
  show "x \<noteq> r \<Longrightarrow> delta k x = EXPIRED \<Longrightarrow>
      timeouts (handle_one_expired_timeout call r k) x = timeouts k x"
    using o(3) h(3) by (cases r) simp_all
  show "n = 0 \<or> n = 3 \<or> n = 4 \<Longrightarrow> st (handle_one_expired_timeout call r k) u n \<longleftrightarrow> st k u n"
    using o(4) [where n = n] h(4) [where n = n] by (cases r) (fast+)
  show "delta (handle_one_expired_timeout call r k) x = EXPIRED \<Longrightarrow> x \<noteq> r \<and> delta k x = EXPIRED"
  proof (cases "\<exists>t. r = ThreadTO t")
    case True
    then obtain t where t: "r = ThreadTO t" by blast
    show "delta (handle_one_expired_timeout call r k) x = EXPIRED \<Longrightarrow> x \<noteq> r \<and> delta k x = EXPIRED"
      using handle_thread_queue(2) [OF k(1) e [OF t], of call x]
      by (auto simp: t INACTIVE_def EXPIRED_def split: if_splits)
  qed (use o(5) in blast)
qed

text \<open>The whole list of expired timeouts.\<close>

lemma handle_expired_spec:
  assumes "kinv {} k" "obj_inv k" "\<forall>r \<in> set rs. to_handle k r" "distinct rs"
  shows "kinv {} (handle_expired_timeouts call rs k) \<and> obj_inv (handle_expired_timeouts call rs k) \<and>
    current (handle_expired_timeouts call rs k) = current k \<and>
    (is_thread_ready k u \<longrightarrow> is_thread_ready (handle_expired_timeouts call rs k) u) \<and>
    (ThreadTO u \<in> set rs \<and> \<not> st k u 0 \<and> \<not> st k u 3 \<and> \<not> st k u 4 \<longrightarrow>
      is_thread_ready (handle_expired_timeouts call rs k) u) \<and>
    (delta (handle_expired_timeouts call rs k) x = EXPIRED \<longrightarrow> x \<notin> set rs \<and> delta k x = EXPIRED)"
  using assms
proof (induction rs arbitrary: k)
  case (Cons r rs)
  let ?k = "handle_one_expired_timeout call r k"
  have r: "to_handle k r" and k: "kinv {} k" "obj_inv k" using Cons.prems by auto
  note fr = handle_one_frame [OF k r]
  have "to_handle ?k x" if x: "x \<in> set rs" for x
  proof -
    have "x \<noteq> r" "to_handle k x" using x Cons.prems by auto
    then show ?thesis using fr(3) by (simp add: to_handle_def)
  qed
  then have IH: "kinv {} (handle_expired_timeouts call rs ?k) \<and> obj_inv (handle_expired_timeouts call rs ?k) \<and>
      current (handle_expired_timeouts call rs ?k) = current ?k \<and>
      (is_thread_ready ?k u \<longrightarrow> is_thread_ready (handle_expired_timeouts call rs ?k) u) \<and>
      (ThreadTO u \<in> set rs \<and> \<not> st ?k u 0 \<and> \<not> st ?k u 3 \<and> \<not> st ?k u 4 \<longrightarrow>
        is_thread_ready (handle_expired_timeouts call rs ?k) u) \<and>
      (delta (handle_expired_timeouts call rs ?k) x = EXPIRED \<longrightarrow> x \<notin> set rs \<and> delta ?k x = EXPIRED)"
    using Cons.prems handle_one_inv [OF k r] by (intro Cons.IH) simp_all
  have now: "is_thread_ready ?k u" if "r = ThreadTO u" "\<not> st k u 0" "\<not> st k u 3" "\<not> st k u 4"
    using that r handle_thread_ready [OF k(1), of u call] by (simp add: to_handle_def)
  show ?case
    using IH fr(1) fr(2) [of u] fr(4) [of 0 u] fr(4) [of 3 u] fr(4) [of 4 u] fr(5) [of x] now by auto
qed simp

lemma handle_timeouts_spec:
  assumes k: "kinv {} k" "obj_inv k"
    and t: "0 \<le> ticks" "timeout_q k \<noteq> [] \<longrightarrow> ticks \<le> delta k (hd (timeout_q k))"
    and o: "\<forall>r \<in> set (timeout_q k). (\<forall>t. r \<noteq> ThreadTO t) \<longrightarrow> to_thread (timeouts k r) = None"
  shows "kinv {} (handle_timeouts call ticks k)" "obj_inv (handle_timeouts call ticks k)"
    and "current (handle_timeouts call ticks k) = current k"
    and "is_thread_ready k u \<Longrightarrow> is_thread_ready (handle_timeouts call ticks k) u"
    and "ThreadTO u \<in> set (due ticks (remaining k)) \<Longrightarrow> \<not> st k u 0 \<Longrightarrow> \<not> st k u 3 \<Longrightarrow> \<not> st k u 4 \<Longrightarrow>
      is_thread_ready (handle_timeouts call ticks k) u"
    and "delta (handle_timeouts call ticks k) x = EXPIRED \<Longrightarrow> delta k x = EXPIRED"
proof -
  let ?h = "handle_timeouts call ticks k"
  have "kinv {} ?h \<and> obj_inv ?h \<and> current ?h = current k \<and> (is_thread_ready k u \<longrightarrow> is_thread_ready ?h u) \<and>
      (ThreadTO u \<in> set (due ticks (remaining k)) \<and> \<not> st k u 0 \<and> \<not> st k u 3 \<and> \<not> st k u 4 \<longrightarrow>
        is_thread_ready ?h u) \<and> (delta ?h x = EXPIRED \<longrightarrow> delta k x = EXPIRED)" for u x
  proof (cases "timeout_q k = []")
    case True
    then show ?thesis using k by (simp add: handle_timeouts_def remaining_def due_def advance_def)
  next
    case False
    let ?k = "snd (dequeued ticks k)" and ?rs = "rev (due ticks (remaining k))"
    have t2: "ticks \<le> delta k (hd (timeout_q k))" using t False by simp
    note dq = dequeued_kinv [OF k(1) False t(1) t2] and fr = dequeued_frame [OF k(1) False t(1) t2]
    have "obj_inv ?k" using fr(4-8) by (intro obj_mono [OF k(2)]) simp_all
    note hx = handle_expired_spec [of ?k ?rs u x, OF dq(1) this]
    have e: "?h = (handle_expired_timeouts call ?rs ?k)\<lparr>handling_timeouts := False\<rparr>"
      using False by (simp add: handle_timeouts_dequeued dq(2))
    have rdy: "is_thread_ready ?h v \<longleftrightarrow> is_thread_ready (handle_expired_timeouts call ?rs ?k) v" for v
      by (simp add: e is_thread_ready_iff)
    have "obj_inv (handle_expired_timeouts call ?rs ?k) \<Longrightarrow> obj_inv ?h"
      unfolding e by (rule obj_mono) simp_all
    then show ?thesis
      using hx due_to_handle [OF k(1) False t(1) t2 o] dq(5) fr(1-3) dequeued_expired [OF k(1) False t(1) t2, of x]
      by (simp add: rdy) (auto simp: e)
  qed
  then show "kinv {} ?h" "obj_inv ?h" "current ?h = current k" "is_thread_ready k u \<Longrightarrow> is_thread_ready ?h u"
    "ThreadTO u \<in> set (due ticks (remaining k)) \<Longrightarrow> \<not> st k u 0 \<Longrightarrow> \<not> st k u 3 \<Longrightarrow> \<not> st k u 4 \<Longrightarrow>
        is_thread_ready ?h u"
    "delta ?h x = EXPIRED \<Longrightarrow> delta k x = EXPIRED" by blast+
qed

end

interpretation thread_cb: timeout_callback thread_call "\<lambda>_. True"
  by unfold_locales (simp_all add: thread_call_def callable_def)

section \<open>Timeouts of threads\<close>

text \<open>Handling the timeouts of threads moves no other timeout.\<close>

lemma handle_expired_threads_queue:
  assumes "kinv {} k" "\<forall>r \<in> set rs. delta k r = EXPIRED \<and> (\<exists>t. r = ThreadTO t)" "distinct rs"
  shows "timeout_q (handle_expired_timeouts call rs k) = timeout_q k \<and>
    (\<forall>x. delta (handle_expired_timeouts call rs k) x = (if x \<in> set rs then INACTIVE else delta k x))"
  using assms
proof (induction rs arbitrary: k)
  case (Cons r rs)
  then obtain t where r: "r = ThreadTO t" and e: "delta k (ThreadTO t) = EXPIRED" by auto
  let ?k = "handle_one_expired_timeout call r k"
  note q = handle_thread_queue [OF Cons.prems(1) e, where call = call, folded r]
  have "kinv {} ?k" unfolding r by (rule handle_thread_timeout_kinv [OF Cons.prems(1) e])
  moreover have "\<forall>x \<in> set rs. delta ?k x = EXPIRED \<and> (\<exists>t. x = ThreadTO t)"
  proof
    fix x assume "x \<in> set rs"
    then have "x \<noteq> r" "delta k x = EXPIRED \<and> (\<exists>t. x = ThreadTO t)" using Cons.prems by auto
    then show "delta ?k x = EXPIRED \<and> (\<exists>t. x = ThreadTO t)" using q(2) by simp
  qed
  ultimately show ?case using Cons.IH [of ?k] Cons.prems(3) q by auto
qed simp

lemma handle_timeouts_remaining:
  assumes k: "kinv {} k" and t: "0 \<le> ticks" "timeout_q k \<noteq> [] \<longrightarrow> ticks \<le> delta k (hd (timeout_q k))"
    and o: "\<forall>r \<in> set (timeout_q k). \<exists>t. r = ThreadTO t"
  shows "remaining (handle_timeouts call ticks k) = not_due ticks (remaining k)"
proof (cases "timeout_q k = []")
  case True
  then show ?thesis by (simp add: handle_timeouts_def remaining_def not_due_def advance_def)
next
  case False
  let ?k = "snd (dequeued ticks k)" and ?rs = "rev (due ticks (remaining k))"
  have t2: "ticks \<le> delta k (hd (timeout_q k))" using t False by simp
  note dq = dequeued_kinv [OF k False t(1) t2]
  obtain rs where e: "dequeued ticks k = (?rs,
      k\<lparr>handling_timeouts := True, timeout_q := rs, timeouts := after_due ticks k\<rparr>)"
    and q: "timeout_q k = due ticks (remaining k) @ rs"
    using dequeued_spec [OF kinvD(3) [OF k] False t(1) t2] by metis
  let ?h = "handle_expired_timeouts call ?rs ?k"
  have "\<forall>r \<in> set ?rs. delta ?k r = EXPIRED \<and> (\<exists>t. r = ThreadTO t)" using dq(3) o q by auto
  from handle_expired_threads_queue [OF dq(1) this, of call] dq(5)
  have h: "timeout_q ?h = rs" "delta ?h x = (if x \<in> set ?rs then INACTIVE else delta ?k x)" for x
    by (simp_all add: e)
  have "set ?rs \<inter> set rs = {}" using kinvD(3) [OF k] by (simp add: delta_inv_def q)
  then have "expiries (timeouts ?h) 0 rs = expiries (timeouts ?k) 0 rs"
    using h(2) by (intro expiries_cong) auto
  then have "remaining ?h = remaining ?k" by (simp add: remaining_def [of ?h] remaining_def [of ?k] h(1)) (simp add: e)
  moreover have "remaining (handle_timeouts call ticks k) = remaining ?h"
    using False by (simp add: handle_timeouts_dequeued dq(2) remaining_def)
  ultimately show ?thesis by (simp add: dq(4))
qed

section \<open>Time slices\<close>

lemma handle_time_slicing_spec:
  assumes k: "kinv {} k" and c: "is_thread_ready k (current k)"
  shows "kinv {} (handle_time_slicing ticks k)"
    and "current (handle_time_slicing ticks k) = current k"
    and "is_thread_ready (handle_time_slicing ticks k) u \<longleftrightarrow> is_thread_ready k u"
    and "remaining (handle_time_slicing ticks k) = remaining k"
proof -
  have "kinv {} (move_thread_to_end_of_prio_q (current k) (k\<lparr>time_slice_elapsed := 0\<rparr>))"
    using k c by (intro move_kinv) (simp_all add: is_thread_ready_iff)
  then show "kinv {} (handle_time_slicing ticks k)" using k by (simp add: handle_time_slicing_def Let_def)
qed (simp_all add: handle_time_slicing_def Let_def is_thread_ready_iff remaining_def)

lemma move_waits_subset: "set (queues (move_thread_to_end_of_prio_q t k) (WaitQ w)) \<subseteq> set (queues k (WaitQ w))"
  by (auto simp: move_thread_to_end_of_prio_q_def queue_remove_def queue_append_def Let_def
      dest: subsetD [OF set_remove1_subset])

lemma handle_time_slicing_waits:
  "set (queues (handle_time_slicing ticks k) (WaitQ w)) \<subseteq> set (queues k (WaitQ w))"
  using move_waits_subset [of "current k" "k\<lparr>time_slice_elapsed := 0\<rparr>" w]
  by (simp add: handle_time_slicing_def Let_def)

text \<open>
  When the running thread has used up its slice it goes behind the threads of its
  priority; otherwise the order of the ready threads stays.
\<close>

lemma handle_time_slicing_list:
  assumes k: "kinv {} k" and c: "is_thread_ready k (current k)"
  shows "ready_list (handle_time_slicing ticks k) =
    (if is_thread_time_slicing k (current k) \<and>
        time_slice_duration k \<le> to_s32 (time_slice_elapsed k + ticks_to_ms ticks)
     then prio_insert (\<lambda>u. prio (threads k u)) (current k) (remove1 (current k) (ready_list k))
     else ready_list k)"
proof -
  let ?k = "k\<lparr>time_slice_elapsed := 0\<rparr>"
  have rl: "ready_list (k\<lparr>time_slice_elapsed := x\<rparr>) = ready_list k" for x by (simp add: ready_list_def)
  have "kinv {} ?k" using k by simp
  then have "ready_list (move_thread_to_end_of_prio_q (current k) ?k) =
      prio_insert (\<lambda>u. prio (threads k u)) (current k) (remove1 (current k) (ready_list k))"
    using move_ok(2) [of ?k "current k"] c k by (simp add: rl kinv_ready_iff kinvD(6))
  then show ?thesis by (simp add: handle_time_slicing_def Let_def rl)
qed

section \<open>Announcing ticks\<close>

context timeout_callback begin

lemma announce_inv:
  assumes k: "kinv {} k" "obj_inv k" and c: "is_thread_ready k (current k)"
    and t: "0 \<le> ticks" "timeout_q k \<noteq> [] \<longrightarrow> ticks \<le> delta k (hd (timeout_q k))"
    and o: "\<forall>r \<in> set (timeout_q k). (\<forall>t. r \<noteq> ThreadTO t) \<longrightarrow> to_thread (timeouts k r) = None"
  defines "k' \<equiv> nano_sys_clock_tick_announce call ticks k"
  shows "kinv {} k'" "obj_inv k'" and "current k' = current k"
    and "is_thread_ready k u \<Longrightarrow> is_thread_ready k' u"
    and "ThreadTO u \<in> set (due ticks (remaining k)) \<Longrightarrow> \<not> st k u 0 \<Longrightarrow> \<not> st k u 3 \<Longrightarrow> \<not> st k u 4 \<Longrightarrow>
      is_thread_ready k' u"
    and "\<not> handling_timeouts k \<Longrightarrow> settled k \<Longrightarrow> settled k'"
proof -
  let ?k1 = "k\<lparr>sys_clock_tick_count := sys_clock_tick_count k + word_of_int ticks\<rparr>"
  let ?k2 = "handle_timeouts call ticks ?k1"
  have k1: "kinv {} ?k1" using k by simp
  have o1: "obj_inv ?k1" by (rule obj_mono [OF k(2)]) simp_all
  have t1: "timeout_q ?k1 \<noteq> [] \<longrightarrow> ticks \<le> delta ?k1 (hd (timeout_q ?k1))"
    "\<forall>r \<in> set (timeout_q ?k1). (\<forall>t. r \<noteq> ThreadTO t) \<longrightarrow> to_thread (timeouts ?k1 r) = None"
    using t o by auto
  have rdy: "is_thread_ready ?k1 v \<longleftrightarrow> is_thread_ready k v" for v by (simp add: is_thread_ready_iff)
  have rem: "remaining ?k1 = remaining k" by (simp add: remaining_def)
  note h = handle_timeouts_spec [OF k1 o1 t(1) t1]
  have c2: "is_thread_ready ?k2 (current ?k2)" using h(3,4) c by (simp add: rdy)
  note s = handle_time_slicing_spec [OF h(1) c2]
  have e: "k' = handle_time_slicing ticks ?k2"
    by (simp add: k'_def nano_sys_clock_tick_announce_def Let_def)
  show "kinv {} k'" "current k' = current k" "is_thread_ready k u \<Longrightarrow> is_thread_ready k' u"
    using s h(3) h(4) [of u] by (simp_all add: e rdy)
  show "ThreadTO u \<in> set (due ticks (remaining k)) \<Longrightarrow> \<not> st k u 0 \<Longrightarrow> \<not> st k u 3 \<Longrightarrow> \<not> st k u 4 \<Longrightarrow>
      is_thread_ready k' u"
    using s(3) [of ticks u] h(5) [of u] by (simp add: e rem)
  show "obj_inv k'"
    unfolding e by (rule obj_mono [OF h(2) _ _ _ handle_time_slicing_waits]) (simp_all add: handle_time_slicing_def Let_def)
  have "timeouts k' = timeouts ?k2" by (simp add: e handle_time_slicing_def Let_def)
  then show "\<not> handling_timeouts k \<Longrightarrow> settled k \<Longrightarrow> settled k'"
    using h(6) by (auto simp: settled_def)
qed

end

text \<open>When every timeout is one of a thread, those that are not due are left as they were.\<close>

lemma announce_remaining:
  assumes k: "kinv {} k" and c: "is_thread_ready k (current k)" and t: "0 \<le> ticks"
      "timeout_q k \<noteq> [] \<longrightarrow> ticks \<le> delta k (hd (timeout_q k))"
    and o: "\<forall>r \<in> set (timeout_q k). \<exists>t. r = ThreadTO t"
  shows "remaining (nano_sys_clock_tick_announce thread_call ticks k) = not_due ticks (remaining k)"
proof -
  let ?k1 = "k\<lparr>sys_clock_tick_count := sys_clock_tick_count k + word_of_int ticks\<rparr>"
  have "kinv {} ?k1" using k by simp
  then have "remaining (handle_timeouts thread_call ticks ?k1) = not_due ticks (remaining ?k1)"
    using t o by (intro handle_timeouts_remaining) simp_all
  moreover have "remaining ?k1 = remaining k" by (simp add: remaining_def)
  moreover have "remaining (handle_time_slicing ticks k2) = remaining k2" for k2 :: "'a kernel_scheme"
    by (simp add: handle_time_slicing_def Let_def remaining_def)
  ultimately show ?thesis by (simp add: nano_sys_clock_tick_announce_def Let_def)
qed

section \<open>Order of expiry within a tick\<close>

lemma expiry_insert_first: "\<forall>(_, e') \<in> set xs. e \<le> e' \<Longrightarrow> expiry_insert r e xs = (r, e) # xs"
  by (cases xs) (auto simp: expiry_insert_def)

lemma due_Cons: "due e ((r, e) # xs) = r # due e xs"
  by (simp add: due_def advance_def)

lemma add_two_remaining:
  assumes d: "delta_inv k" and r: "r1 \<notin> set (timeout_q k)" "r2 \<notin> set (timeout_q k)" "r1 \<noteq> r2" and e: "0 < e"
    and le: "\<forall>(_, e') \<in> set (remaining k). e \<le> e'"
  shows "remaining (add_timeout call th2 r2 w2 e (add_timeout call th1 r1 w1 e k)) =
      (r2, e) # (r1, e) # remaining k"
    and "delta_inv (add_timeout call th2 r2 w2 e (add_timeout call th1 r1 w1 e k))"
proof -
  let ?k1 = "add_timeout call th1 r1 w1 e k"
  have d1: "delta_inv ?k1" by (rule add_timeout_delta_inv [OF d r(1) e])
  have q1: "r2 \<notin> set (timeout_q ?k1)" using e r by (simp add: add_timeout_links)
  show "delta_inv (add_timeout call th2 r2 w2 e ?k1)" by (rule add_timeout_delta_inv [OF d1 q1 e])
  have "remaining ?k1 = (r1, e) # remaining k"
    using add_timeout_remaining [of e r1 k call th1 w1] e r(1) d le
    by (simp add: delta_inv_def expiry_insert_first)
  then show "remaining (add_timeout call th2 r2 w2 e ?k1) = (r2, e) # (r1, e) # remaining k"
    using add_timeout_remaining [of e r2 ?k1 call th2 w2] e q1 d1 le
    by (simp add: delta_inv_def expiry_insert_first)
qed

section \<open>Properties\<close>

text \<open>
  C5. Announcing ticks, when every timeout on the queue is one of a thread and the ticks are at most those to the next
  expiry: exactly the timeouts whose time has come leave the timeout
  queue and every other one has that many ticks less to go; every thread whose timeout
  expired is ready, unless it is suspended or dead, and every thread that was ready still
  is. The kernel invariant holds again and no timeout is left half handled.
\<close>

theorem tick_announce_expires:
  assumes k: "sched_ok k" and h: "\<not> handling_timeouts k"
    and t: "0 \<le> ticks" "timeout_q k \<noteq> [] \<longrightarrow> ticks \<le> get_next_timeout_expiry k"
    and o: "\<forall>r \<in> set (timeout_q k). \<exists>t. r = ThreadTO t"
  shows "let k' = nano_sys_clock_tick_announce thread_call ticks k in
    kinv {} k' \<and> settled k' \<and> current k' = current k \<and> remaining k' = not_due ticks (remaining k) \<and>
    (\<forall>u. is_thread_ready k u \<longrightarrow> is_thread_ready k' u) \<and>
    (\<forall>u. ThreadTO u \<in> set (due ticks (remaining k)) \<and> \<not> st k u 0 \<and> \<not> st k u 3 \<and> \<not> st k u 4 \<longrightarrow>
      is_thread_ready k' u)"
proof -
  note s = sched_okD [OF k]
  have t2: "timeout_q k \<noteq> [] \<longrightarrow> ticks \<le> delta k (hd (timeout_q k))"
    using t(2) by (cases "timeout_q k") (simp_all add: get_next_timeout_expiry_def)
  have o2: "\<forall>r \<in> set (timeout_q k). (\<forall>t. r \<noteq> ThreadTO t) \<longrightarrow> to_thread (timeouts k r) = None"
    using o by blast
  show ?thesis
    using thread_cb.announce_inv [OF s(1) TrueI s(2) t(1) t2 o2] announce_remaining [OF s(1,2) t(1) t2 o] h s(4)
    by (simp add: Let_def)
qed

theorem tick_announce_expires_witness:
  "is_thread_ready (nano_sys_clock_tick_announce thread_call 4 sleeper_kernel) 2 \<and>
   remaining (nano_sys_clock_tick_announce thread_call 4 sleeper_kernel) = []"
proof -
  have "\<not> handling_timeouts sleeper_kernel" "timeout_q sleeper_kernel = [ThreadTO 2]"
    "get_next_timeout_expiry sleeper_kernel = 4" by code_simp+
  then show ?thesis
    using tick_announce_expires [OF sleeper_sched_ok, of 4] sleeper_facts
    by (simp add: Let_def due_def not_due_def advance_def)
qed

text \<open>
  C34. Two timeouts that expire on the same tick, before all others, are handled in the order
  in which they were added: the second stands in front of the first in the timeout queue,
  and the loop that collects the expired timeouts reverses them again.
\<close>

theorem same_tick_in_order_added:
  assumes d: "delta_inv k" and r: "r1 \<notin> set (timeout_q k)" "r2 \<notin> set (timeout_q k)" "r1 \<noteq> r2" and e: "0 < e"
    and le: "\<forall>(_, e') \<in> set (remaining k). e < e'"
  shows "\<exists>k'. handle_timeouts call e (add_timeout call th2 r2 w2 e (add_timeout call th1 r1 w1 e k)) =
    (handle_expired_timeouts call [r1, r2] k')\<lparr>handling_timeouts := False\<rparr>"
proof -
  let ?k = "add_timeout call th2 r2 w2 e (add_timeout call th1 r1 w1 e k)"
  have "\<forall>(_, e') \<in> set (remaining k). e \<le> e'" using le by fastforce
  note a = add_two_remaining [OF d r e this, of call th2 w2 th1 w1]
  have ne: "timeout_q ?k \<noteq> []" using a(1) by (auto simp: remaining_def)
  have hd: "delta ?k (hd (timeout_q ?k)) = e" using a(1) ne by (cases "timeout_q ?k") (simp_all add: remaining_def)
  have "takeWhile (\<lambda>(_, e'). e' = 0) (advance e (remaining k)) = []"
    using le by (cases "remaining k") (auto simp: advance_def)
  then have "due e (remaining ?k) = [r2, r1]" by (simp add: a(1) due_Cons) (simp add: due_def)
  then have "fst (dequeued e ?k) = [r1, r2]"
    using dequeued_spec [OF a(2) ne, of e] e hd by (metis fst_conv less_imp_le order_refl rev_rev_ident rev.simps append_Nil append_Cons)
  with ne show ?thesis by (auto simp: handle_timeouts_dequeued)
qed

theorem same_tick_in_order_added_witness:
  "\<exists>k'. handle_timeouts thread_call 5 (add_timeout thread_call (Some 3) (ThreadTO 3) None 5
      (add_timeout thread_call (Some 4) (ThreadTO 4) None 5 boot_kernel)) =
    (handle_expired_timeouts thread_call [ThreadTO 4, ThreadTO 3] k')\<lparr>handling_timeouts := False\<rparr>"
  using same_tick_in_order_added [OF boot_delta_inv, of "ThreadTO 4" "ThreadTO 3" 5] by (simp add: boot_remaining)

text \<open>
  Time slicing: ticks add to the time the current thread has run; when it has used up
  its slice the count starts again and the thread goes behind the ready threads of its
  priority, and before that it keeps its place. A thread that is not sliced is not touched.
\<close>

theorem time_slice_rotates:
  assumes k: "kinv {} k" and c: "is_thread_ready k (current k)"
  shows "ready_list (handle_time_slicing ticks k) =
    (if is_thread_time_slicing k (current k) \<and>
        time_slice_duration k \<le> to_s32 (time_slice_elapsed k + ticks_to_ms ticks)
     then prio_insert (\<lambda>u. prio (threads k u)) (current k) (remove1 (current k) (ready_list k))
     else ready_list k) \<and>
   time_slice_elapsed (handle_time_slicing ticks k) =
    (if \<not> is_thread_time_slicing k (current k) then time_slice_elapsed k
     else if time_slice_duration k \<le> to_s32 (time_slice_elapsed k + ticks_to_ms ticks) then 0
     else to_s32 (time_slice_elapsed k + ticks_to_ms ticks)) \<and>
   kinv {} (handle_time_slicing ticks k)"
  using handle_time_slicing_list [OF k c, of ticks] handle_time_slicing_spec(1) [OF k c, of ticks]
  by (simp add: handle_time_slicing_def Let_def)

definition sliced_kernel :: kernel where
  "sliced_kernel = k_sched_time_slice_set 20 0 (ready_thread 3 (set_prio 3 0 boot_kernel))"

lemma sliced_kinv: "kinv {} sliced_kernel"
proof -
  have "kinv {3} boot_kernel" by (intro kinv_prestart boot_kinv) (simp_all add: st_example)
  then have "kinv {3} (set_prio 3 0 boot_kernel)" by (intro set_prio_kinv) (simp_all add: prio_ok_simps boot_rq_ok)
  then have "kinv {} (ready_thread 3 (set_prio 3 0 boot_kernel))"
    by (rule ready_thread_kinv) (simp_all add: st_example set_prio_def)
  then show ?thesis by (simp add: sliced_kernel_def k_sched_time_slice_set_def)
qed

lemma sliced_facts: "current sliced_kernel = 2" "ready_list sliced_kernel = [2, 3, 0]"
  "is_thread_time_slicing sliced_kernel 2" "time_slice_duration sliced_kernel = 20"
  "to_s32 (time_slice_elapsed sliced_kernel + ticks_to_ms 2) = 20" "is_thread_ready sliced_kernel 2"
  "prio (threads sliced_kernel 2) = 0" "prio (threads sliced_kernel 3) = 0" "prio (threads sliced_kernel 0) = 15"
  by code_simp+

theorem time_slice_rotates_witness:
  "ready_list (handle_time_slicing 2 sliced_kernel) = [3, 2, 0] \<and> time_slice_elapsed (handle_time_slicing 2 sliced_kernel) = 0"
  using time_slice_rotates [OF sliced_kinv, of 2] by (simp add: sliced_facts prio_insert_Cons)

end
