(* ===== verification/Waiters.thy ===== *)
theory Waiters
  imports Scheduler
begin

text \<open>
  What the kernel objects do with their wait queues. Every object blocks the current
  thread in the same way (\<^verbatim>\<open>_pend_current_thread\<close>, \<^verbatim>\<open>_Swap\<close>) and hands something to the
  first waiter in the same way (\<^verbatim>\<open>_unpend_first_thread\<close>, \<^verbatim>\<open>_abort_thread_timeout\<close>,
  \<^verbatim>\<open>_ready_thread\<close>, \<^verbatim>\<open>_set_thread_return_value\<close>); the lemmas on the two are shared by all
  of them.
\<close>

section \<open>Return values\<close>

lemma set_retval_simps [simp]:
  "queues (set_thread_return_value t v k) = queues k" "timeouts (set_thread_return_value t v k) = timeouts k"
  "timeout_q (set_thread_return_value t v k) = timeout_q k" "current (set_thread_return_value t v k) = current k"
  "cache (set_thread_return_value t v k) = cache k" "idle_thread (set_thread_return_value t v k) = idle_thread k"
  "prio_bmap (set_thread_return_value t v k) = prio_bmap k" "nested (set_thread_return_value t v k) = nested k"
  "handling_timeouts (set_thread_return_value t v k) = handling_timeouts k"
  "ready_list (set_thread_return_value t v k) = ready_list k"
  "kernel.more (set_thread_return_value t v k) = kernel.more k"
  "prio (threads (set_thread_return_value t v k) u) = prio (threads k u)"
  "thread_state (threads (set_thread_return_value t v k) u) = thread_state (threads k u)"
  "sched_locked (threads (set_thread_return_value t v k) u) = sched_locked (threads k u)"
  "swap_data (threads (set_thread_return_value t v k) u) = swap_data (threads k u)"
  "swap_retval (threads (set_thread_return_value t v k) u) = (if u = t then v else swap_retval (threads k u))"
  by (simp_all add: set_thread_return_value_def)

lemma set_retval_data_simps [simp]:
  "queues (set_thread_return_value_with_data t v d k) = queues k"
  "timeouts (set_thread_return_value_with_data t v d k) = timeouts k"
  "timeout_q (set_thread_return_value_with_data t v d k) = timeout_q k"
  "current (set_thread_return_value_with_data t v d k) = current k"
  "cache (set_thread_return_value_with_data t v d k) = cache k"
  "idle_thread (set_thread_return_value_with_data t v d k) = idle_thread k"
  "nested (set_thread_return_value_with_data t v d k) = nested k"
  "handling_timeouts (set_thread_return_value_with_data t v d k) = handling_timeouts k"
  "ready_list (set_thread_return_value_with_data t v d k) = ready_list k"
  "kernel.more (set_thread_return_value_with_data t v d k) = kernel.more k"
  "prio (threads (set_thread_return_value_with_data t v d k) u) = prio (threads k u)"
  "thread_state (threads (set_thread_return_value_with_data t v d k) u) = thread_state (threads k u)"
  "sched_locked (threads (set_thread_return_value_with_data t v d k) u) = sched_locked (threads k u)"
  "swap_retval (threads (set_thread_return_value_with_data t v d k) u) = (if u = t then v else swap_retval (threads k u))"
  "swap_data (threads (set_thread_return_value_with_data t v d k) u) = (if u = t then d else swap_data (threads k u))"
  by (simp_all add: set_thread_return_value_with_data_def)

lemma set_retval_kinv: "kinv S k \<Longrightarrow> kinv S (set_thread_return_value t v k)"
  unfolding set_thread_return_value_def by (rule upd_thread_kinv) (simp_all add: kinv_prio)

lemma set_retval_data_kinv: "kinv S k \<Longrightarrow> kinv S (set_thread_return_value_with_data t v d k)"
  unfolding set_thread_return_value_with_data_def
  by (rule upd_thread_kinv [OF set_retval_kinv]) (simp_all add: kinv_prio)

lemma is_thread_ready_retval [simp]:
  "is_thread_ready (set_thread_return_value t v k) u \<longleftrightarrow> is_thread_ready k u"
  "is_thread_ready (set_thread_return_value_with_data t v d k) u \<longleftrightarrow> is_thread_ready k u"
  by (simp_all add: is_thread_ready_iff)

lemma settled_retval [simp]:
  "settled (set_thread_return_value t v k) \<longleftrightarrow> settled k"
  "settled (set_thread_return_value_with_data t v d k) \<longleftrightarrow> settled k"
  by (simp_all add: settled_def)

section \<open>Waking the first waiter\<close>

text \<open>The kernel after a thread taken off a wait queue has been made ready.\<close>

definition woken :: "tid \<Rightarrow> 'a kernel_scheme \<Rightarrow> 'a kernel_scheme" where
  "woken t k = ready_thread t (snd (abort_thread_timeout t k))"

lemma woken_simps [simp]:
  "current (woken t k) = current k" "idle_thread (woken t k) = idle_thread k"
  "handling_timeouts (woken t k) = handling_timeouts k" "nested (woken t k) = nested k"
  "queues (woken t k) (WaitQ w) = queues k (WaitQ w)" "kernel.more (woken t k) = kernel.more k"
  "prio (threads (woken t k) u) = prio (threads k u)"
  by (simp_all add: woken_def ready_thread_frame abort_thread_timeout_def abort_timeout_frame)

lemma st_woken: "st (woken t k) u n \<longleftrightarrow> st k u n \<and> \<not> (u = t \<and> n = 2)"
  by (simp add: woken_def st_ready_thread abort_thread_timeout_def abort_timeout_frame)

lemma woken_timeout_q: "set (timeout_q (woken t k)) \<subseteq> set (timeout_q k)"
  by (simp add: woken_def ready_thread_frame abort_thread_timeout_def abort_timeout_queue set_remove1_subset)

lemma threads_woken_fields [simp]:
  "swap_retval (threads (woken t k) u) = swap_retval (threads k u)"
  "swap_data (threads (woken t k) u) = swap_data (threads k u)"
  "sched_locked (threads (woken t k) u) = sched_locked (threads k u)"
  by (simp_all add: woken_def ready_thread_def Let_def mark_thread_as_started_def
      abort_thread_timeout_def abort_timeout_frame)

lemma woken_kinv:
  assumes k: "kinv {t} k" and p: "\<not> st k t 1" and e: "delta k (ThreadTO t) \<noteq> EXPIRED"
  shows "kinv {} (woken t k)"
proof -
  have "kinv {t} (snd (abort_thread_timeout t k))" using k e by (intro abort_thread_timeout_kinv) simp_all
  then show ?thesis
    unfolding woken_def by (rule ready_thread_kinv)
      (use p in \<open>simp_all add: abort_thread_timeout_def abort_timeout_frame abort_timeout_delta\<close>)
qed

lemma woken_settled:
  assumes k: "kinv S k" and e: "delta k (ThreadTO t) \<noteq> EXPIRED" and s: "settled k"
  shows "settled (woken t k)"
proof -
  have "settled (snd (abort_thread_timeout t k))"
    unfolding abort_thread_timeout_def by (rule settled_abort [OF kinvD(3) [OF k] e s])
  then show ?thesis by (subst settled_cong [of _ "snd (abort_thread_timeout t k)"])
      (simp_all add: woken_def ready_thread_frame)
qed

lemma woken_ready:
  assumes k: "kinv S k" and e: "delta k (ThreadTO t) \<noteq> EXPIRED"
  shows "is_thread_ready (woken t k) u \<longleftrightarrow>
    (if u = t then \<not> st k t 0 \<and> \<not> st k t 1 \<and> \<not> st k t 3 \<and> \<not> st k t 4 else is_thread_ready k u)"
proof -
  have "delta (woken t k) (ThreadTO u) = INACTIVE \<longleftrightarrow> u = t \<or> delta k (ThreadTO u) = INACTIVE"
    using abort_timeout_active_iff [OF kinvD(3) [OF k] e, of "ThreadTO u"]
    by (cases "u = t") (simp_all add: woken_def ready_thread_frame abort_thread_timeout_def abort_timeout_delta)
  then show ?thesis by (auto simp: is_thread_ready_iff st_woken)
qed

text \<open>
  The first waiter of a queue: unless timeouts are being handled it is the head of the
  queue. Taking it off and waking it keeps the invariant and leaves the other waiters in
  their order.
\<close>

lemma unpend_first_head:
  assumes "\<not> handling_timeouts k"
  shows "unpend_first_thread w k =
    (case queues k (WaitQ w) of [] \<Rightarrow> (None, k) | t # _ \<Rightarrow> (Some t, unpend_thread t k))"
  using assms by (simp add: unpend_first_thread_def find_first_thread_to_unpend_def Let_def split: list.split)

lemma unpend_first_length:
  assumes "unpend_first_thread w k = (Some t, k1)"
  shows "length (queues k1 (WaitQ w)) < length (queues k (WaitQ w))"
proof -
  have f: "find_first_thread_to_unpend k w None = Some t" and k1: "k1 = unpend_thread t k"
    using assms by (auto simp: unpend_first_thread_def Let_def)
  from f have t: "t \<in> set (queues k (WaitQ w))"
    by (auto simp: find_first_thread_to_unpend_def find_Some_iff split: if_splits list.splits)
  then have "length (queues k (WaitQ w)) \<noteq> 0" by auto
  with t k1 show ?thesis by (simp add: length_remove1)
qed

lemma unpend_first_None: "unpend_first_thread w k = (None, k') \<Longrightarrow> k' = k"
  by (auto simp: unpend_first_thread_def Let_def split: option.splits)

lemma wake_first:
  assumes k: "kinv {} k" and s: "settled k" and u: "unpend_first_thread w k = (Some t, k1)"
  shows "kinv {} (woken t k1)" "settled (woken t k1)"
    "t \<in> set (queues k (WaitQ w))" "k1 = unpend_thread t k" "t \<noteq> idle_thread k" "\<not> is_thread_ready k t"
    "queues (woken t k1) (WaitQ w') = remove1 t (queues k (WaitQ w'))"
    "is_thread_ready (woken t k1) u' \<longleftrightarrow>
       (if u' = t then \<not> st k t 0 \<and> \<not> st k t 3 \<and> \<not> st k t 4 else is_thread_ready k u')"
    "current (woken t k1) = current k"
proof -
  note f = unpend_first_kinv [OF k u]
  have e: "delta k1 (ThreadTO t) \<noteq> EXPIRED" using unpend_first_not_expired [OF s u] by (simp add: f(2))
  show "t \<in> set (queues k (WaitQ w))" "k1 = unpend_thread t k" "t \<noteq> idle_thread k" by (fact f)+
  show "kinv {} (woken t k1)" using f e by (intro woken_kinv) simp_all
  have s1: "settled k1" using s unfolding f(2) by (simp add: settled_def unpend_thread_def mark_thread_as_not_pending_def queue_remove_def)
  show "settled (woken t k1)" by (rule woken_settled [OF f(3) e s1])
  show "queues (woken t k1) (WaitQ w') = remove1 t (queues k (WaitQ w'))" by (simp add: f(2))
  show "\<not> is_thread_ready k t" using kinv_waiting [OF k f(1)] by (simp add: is_thread_ready_iff)
  show "is_thread_ready (woken t k1) u' \<longleftrightarrow>
       (if u' = t then \<not> st k t 0 \<and> \<not> st k t 3 \<and> \<not> st k t 4 else is_thread_ready k u')"
    unfolding woken_ready [OF f(3) e] by (simp add: f(2) st_unpend is_thread_ready_unpend)
  show "current (woken t k1) = current k" by (simp add: f(2))
qed

text \<open>The order in which a waiter is made ready and given its result does not matter.\<close>

lemma started_swap_fields:
  "thread_state_update f (th\<lparr>swap_retval := v\<rparr>) = (thread_state_update f th)\<lparr>swap_retval := v\<rparr>"
  "thread_state_update f (th\<lparr>swap_data := d\<rparr>) = (thread_state_update f th)\<lparr>swap_data := d\<rparr>"
  by (cases th; simp)+

lemma ready_thread_upd:
  assumes "\<And>th. prio (f th) = prio th" "\<And>th. thread_state (f th) = thread_state th"
    "\<And>g th. f (thread_state_update g th) = thread_state_update g (f th)"
  shows "ready_thread t (upd_thread t f k) = upd_thread t f (ready_thread t k)"
proof -
  have m: "mark_thread_as_started t (upd_thread t f k) = upd_thread t f (mark_thread_as_started t k)"
    by (simp add: mark_thread_as_started_def upd_thread_def assms(3))
  have a: "add_thread_to_ready_q t (upd_thread t f k) = upd_thread t f (add_thread_to_ready_q t k)" for k :: "'a kernel_scheme"
    by (simp add: add_thread_to_ready_q_def upd_thread_def Let_def set_ready_q_prio_bit_def queue_append_def
        is_t1_higher_prio_than_t2_def assms)
  have "is_thread_ready (upd_thread t f k) t \<longleftrightarrow> is_thread_ready k t" for k :: "'a kernel_scheme"
    by (simp add: is_thread_ready_iff assms)
  with m a show ?thesis by (simp add: ready_thread_def Let_def)
qed

lemma abort_upd_thread:
  "snd (abort_thread_timeout t (upd_thread u f k)) = upd_thread u f (snd (abort_thread_timeout t k))"
  by (simp add: abort_thread_timeout_def abort_timeout_def upd_thread_def set_delta_def Let_def split: option.split)

lemma woken_retval: "woken t (set_thread_return_value t v k) = set_thread_return_value t v (woken t k)"
  unfolding woken_def set_thread_return_value_def abort_upd_thread
  by (rule ready_thread_upd) (simp_all add: started_swap_fields)

lemma woken_retval_data:
  "woken t (set_thread_return_value_with_data t v d k) = set_thread_return_value_with_data t v d (woken t k)"
proof -
  have "woken t (upd_thread t (swap_data_update (\<lambda>_. d)) k) = upd_thread t (swap_data_update (\<lambda>_. d)) (woken t k)"
    for k :: "'a kernel_scheme"
    unfolding woken_def abort_upd_thread by (rule ready_thread_upd) (simp_all add: started_swap_fields)
  then show ?thesis by (simp add: set_thread_return_value_with_data_def woken_retval)
qed

text \<open>Whether or not the call switches, the state it leaves is one a thread may run in.\<close>

lemma switch_or_stay_ok:
  assumes k: "kinv {} k" and s: "settled k" and c: "is_thread_ready k (current k)" and i: "\<not> is_in_isr k"
  shows "sched_ok (if \<not> is_in_isr k \<and> must_switch_threads k then Swap k else k)"
  using reschedule_ok [OF k s c] i by (simp add: reschedule_threads_def)

text \<open>
  \<open>served t v k k'\<close>: what serving a waiter means to the kernel. The waiter \<open>t\<close> has left
  its wait queue, its pending call will return \<open>v\<close>, it is ready unless suspended or dead,
  and the thread that runs is one that may.
\<close>

definition served :: "tid \<Rightarrow> int \<Rightarrow> 'a kernel_scheme \<Rightarrow> 'a kernel_scheme \<Rightarrow> bool" where
  "served t v k k' \<longleftrightarrow> sched_ok k' \<and>
     idle_thread k' = idle_thread k \<and> handling_timeouts k' = handling_timeouts k \<and> nested k' = nested k \<and>
     kernel.more k' = kernel.more k \<and> set (timeout_q k') \<subseteq> set (timeout_q k) \<and>
     (\<forall>w. queues k' (WaitQ w) = remove1 t (queues k (WaitQ w))) \<and>
     (\<forall>u. prio (threads k' u) = prio (threads k u)) \<and>
     (\<forall>u. u \<noteq> t \<longrightarrow> swap_data (threads k' u) = swap_data (threads k u)) \<and>
     swap_retval (threads k' t) = v \<and>
     (\<forall>u. is_thread_ready k' u \<longleftrightarrow>
        (if u = t then \<not> st k t 0 \<and> \<not> st k t 3 \<and> \<not> st k t 4 else is_thread_ready k u))"

lemma unpend_swap_fields [simp]:
  "swap_data (threads (unpend_thread t k) u) = swap_data (threads k u)"
  "nested (unpend_thread t k) = nested k" "handling_timeouts (unpend_thread t k) = handling_timeouts k"
  "kernel.more (unpend_thread t k) = kernel.more k"
  by (simp_all add: unpend_thread_def mark_thread_as_not_pending_def queue_remove_def reset_thread_states_def)

lemma serve_data:
  fixes v :: int and d :: nat
  assumes s: "sched_ok k" and i: "\<not> is_in_isr k" and u: "unpend_first_thread w k = (Some t, k1)"
  defines "k2 \<equiv> set_thread_return_value_with_data t v d (woken t k1)"
  shows "served t v k (if must_switch_threads k2 then Swap k2 else k2)"
    and "swap_data (threads (if must_switch_threads k2 then Swap k2 else k2) t) = d" and "\<not> is_in_isr k2"
proof -
  note k = sched_okD [OF s]
  note w = wake_first [OF k(1,4) u]
  have ct: "current k \<noteq> t" using w(6) k(2) by auto
  have k2: "kinv {} k2" "settled k2" "is_thread_ready k2 (current k2)"
    using w(1,2,8,9) k(2) ct by (simp_all add: k2_def set_retval_data_kinv)
  show i2: "\<not> is_in_isr k2" using i by (simp add: k2_def is_in_isr_def w(4))
  have ok: "sched_ok (if must_switch_threads k2 then Swap k2 else k2)"
    using switch_or_stay_ok [OF k2 i2] i2 by simp
  have e: "idle_thread k2 = idle_thread k" "handling_timeouts k2 = handling_timeouts k" "nested k2 = nested k"
    "kernel.more k2 = kernel.more k" "\<And>w. queues k2 (WaitQ w) = remove1 t (queues k (WaitQ w))"
    "\<And>u. prio (threads k2 u) = prio (threads k u)" "swap_retval (threads k2 t) = v"
    "\<And>u. u \<noteq> t \<Longrightarrow> swap_data (threads k2 u) = swap_data (threads k u)" "swap_data (threads k2 t) = d"
    "\<And>u. is_thread_ready k2 u \<longleftrightarrow> (if u = t then \<not> st k t 0 \<and> \<not> st k t 3 \<and> \<not> st k t 4 else is_thread_ready k u)"
    "current k2 = current k"
    using w(7-9) by (simp_all add: k2_def w(4))
  have q: "set (timeout_q k2) \<subseteq> set (timeout_q k)"
    using woken_timeout_q [of t "unpend_thread t k"] by (simp add: k2_def w(4))
  show "served t v k (if must_switch_threads k2 then Swap k2 else k2)"
    using ok ct e q by (auto simp: served_def)
  show "swap_data (threads (if must_switch_threads k2 then Swap k2 else k2) t) = d" using e by simp
qed

lemma retval_data_same:
  "set_thread_return_value_with_data t v (swap_data (threads k t)) k = set_thread_return_value t v k"
proof -
  have "th\<lparr>swap_retval := v, swap_data := swap_data th\<rparr> = th\<lparr>swap_retval := v\<rparr>" for th :: k_thread by (cases th) simp
  then show ?thesis by (simp add: set_thread_return_value_with_data_def set_thread_return_value_def upd_thread_def)
qed

lemma serve_retval:
  fixes v :: int
  assumes s: "sched_ok k" and i: "\<not> is_in_isr k" and u: "unpend_first_thread w k = (Some t, k1)"
  defines "k2 \<equiv> set_thread_return_value t v (woken t k1)"
  shows "served t v k (if must_switch_threads k2 then Swap k2 else k2)"
    and "swap_data (threads (if must_switch_threads k2 then Swap k2 else k2) u') = swap_data (threads k u')"
    and "\<not> is_in_isr k2"
proof -
  have e: "k1 = unpend_thread t k" by (rule unpend_first_kinv(2) [OF sched_okD(1) [OF s] u])
  have "k2 = set_thread_return_value_with_data t v (swap_data (threads k t)) (woken t k1)"
    using retval_data_same [of t v "woken t k1"] by (simp add: k2_def e)
  note d = serve_data [OF s i u, of v "swap_data (threads k t)", folded this]
  show "served t v k (if must_switch_threads k2 then Swap k2 else k2)" "\<not> is_in_isr k2" by (fact d)+
  show "swap_data (threads (if must_switch_threads k2 then Swap k2 else k2) u') = swap_data (threads k u')"
    using d(1,2) by (cases "u' = t") (auto simp: served_def)
qed

text \<open>
  \<open>evolves W k k'\<close>: what every call has in common for the objects it does not work on.
  The thread that runs is one that may, and no thread has come to wait on a queue outside
  \<open>W\<close> that was empty; the only timeouts that have been armed are those of threads.
\<close>

definition evolves :: "waddr set \<Rightarrow> 'a kernel_scheme \<Rightarrow> 'a kernel_scheme \<Rightarrow> bool" where
  "evolves W k k' \<longleftrightarrow> sched_ok k' \<and> idle_thread k' = idle_thread k \<and> nested k' = nested k \<and>
     handling_timeouts k' = handling_timeouts k \<and> set (timeout_q k') \<subseteq> set (timeout_q k) \<union> range ThreadTO \<and>
     (\<forall>w. w \<notin> W \<longrightarrow> queues k (WaitQ w) = [] \<longrightarrow> queues k' (WaitQ w) = [])"

lemma evolves_refl: "sched_ok k \<Longrightarrow> evolves W k k"
  by (simp add: evolves_def)

lemma served_evolves: "served t v k k' \<Longrightarrow> evolves W k k'"
  by (auto simp: served_def evolves_def)

section \<open>Blocking\<close>

lemma pend_current_settled:
  assumes k: "kinv {} k" "is_thread_ready k (current k)" and s: "settled k"
    and c: "current k \<noteq> idle_thread k"
  shows "settled (pend_current_thread w timeout k)"
proof (cases "timeout = K_FOREVER")
  case True
  then have "timeouts (pend_current_thread w timeout k) = timeouts k"
    by (simp add: pend_current_thread_def pend_thread_split enqueue_pending_timeouts)
  then show ?thesis using s by (simp add: settled_def pend_current_simps)
next
  case False
  let ?k1 = "enqueue_pending (current k) w (remove_thread_from_ready_q (current k) k)"
  have k1: "kinv {} ?k1"
    using remove_kinv(1) [OF k(1,2) _ c] k(2) by (intro enqueue_pending_kinv) (simp_all add: is_thread_ready_iff)
  have d: "delta ?k1 (ThreadTO (current k)) = INACTIVE"
    using k(2) by (simp add: enqueue_pending_timeouts is_thread_ready_iff)
  have "settled ?k1"
    using s pend_thread_frame(6) [of "current k" w K_FOREVER "remove_thread_from_ready_q (current k) k"]
    by (simp add: settled_def enqueue_pending_timeouts enqueue_pending_def [symmetric])
  then show ?thesis
    unfolding pend_current_thread_def pend_thread_split add_thread_timeout_def
    using False settled_add [OF kinvD(3) [OF k1] d timeout_ticks_pos] by simp
qed

lemma block_current:
  assumes k: "kinv {} k" "is_thread_ready k (current k)" and s: "settled k"
    and c: "current k \<noteq> idle_thread k"
  shows "sched_ok (Swap (pend_current_thread w timeout k))"
    and "queues (Swap (pend_current_thread w timeout k)) (WaitQ w) =
      prio_insert (\<lambda>u. prio (threads k u)) (current k) (queues k (WaitQ w))"
    and "swap_retval (threads (Swap (pend_current_thread w timeout k)) (current k)) = - EAGAIN"
    and "is_thread_pending (Swap (pend_current_thread w timeout k)) (current k)"
proof -
  show "sched_ok (Swap (pend_current_thread w timeout k))"
    by (rule Swap_ok [OF pend_current_kinv [OF k c] pend_current_settled [OF k s c]])
  show "queues (Swap (pend_current_thread w timeout k)) (WaitQ w) =
      prio_insert (\<lambda>u. prio (threads k u)) (current k) (queues k (WaitQ w))"
    using pend_current_queue [OF k(1,2), of w timeout w] by simp
qed (simp_all add: pend_current_simps)

lemma block_evolves:
  assumes k: "kinv {} k" "is_thread_ready k (current k)" and s: "settled k" and c: "current k \<noteq> idle_thread k"
  shows "evolves {w} k (Swap (pend_current_thread w timeout k))"
proof -
  have "set (timeout_q (pend_current_thread w timeout k)) \<subseteq> set (timeout_q k) \<union> range ThreadTO"
    using timeout_ticks_pos [of timeout]
    by (auto simp: pend_current_thread_def pend_thread_split enqueue_pending_timeouts add_thread_timeout_def
        add_timeout_links(4) dest: less_imp_neq)
  then show ?thesis
    using block_current(1) [OF assms, of w timeout] pend_current_queue [OF k, of w timeout]
    by (simp add: evolves_def pend_current_simps)
qed

text \<open>
  An object that threads wait on. Its invariant may speak of the idle thread and may ask
  that nobody waits, and is not concerned with anything else of the kernel: then it
  survives every call on another object.
\<close>

locale waited_object =
  fixes inv :: "'o \<Rightarrow> 'a kernel_scheme \<Rightarrow> bool" and wait_q :: "'o \<Rightarrow> waddr"
  assumes inv_mono: "inv x k \<Longrightarrow> idle_thread k' = idle_thread k \<Longrightarrow>
    (queues k (WaitQ (wait_q x)) = [] \<Longrightarrow> queues k' (WaitQ (wait_q x)) = []) \<Longrightarrow> inv x k'"
begin

lemma inv_evolves: "inv x k \<Longrightarrow> evolves W k k' \<Longrightarrow> wait_q x \<notin> W \<Longrightarrow> inv x k'"
  by (erule inv_mono) (auto simp: evolves_def)

lemma inv_others:
  assumes "\<forall>j. inv (f j) k" "evolves W k k'" "inv x k'" "\<forall>j. j \<noteq> i \<longrightarrow> wait_q (f j) \<notin> W"
  shows "\<forall>j. inv ((f(i := x)) j) k'"
  using assms by (auto intro: inv_evolves)

end

text \<open>Blocking with a pointer left in \<^verbatim>\<open>_current->base.swap_data\<close> for the thread that will serve the caller.\<close>

definition set_swap_data :: "tid \<Rightarrow> nat \<Rightarrow> 'a kernel_scheme \<Rightarrow> 'a kernel_scheme" where
  "set_swap_data t d k = upd_thread t (swap_data_update (\<lambda>_. d)) k"

lemma set_swap_data_simps [simp]:
  "queues (set_swap_data t d k) = queues k" "timeouts (set_swap_data t d k) = timeouts k"
  "timeout_q (set_swap_data t d k) = timeout_q k" "current (set_swap_data t d k) = current k"
  "idle_thread (set_swap_data t d k) = idle_thread k" "nested (set_swap_data t d k) = nested k"
  "handling_timeouts (set_swap_data t d k) = handling_timeouts k"
  "prio (threads (set_swap_data t d k) u) = prio (threads k u)"
  "thread_state (threads (set_swap_data t d k) u) = thread_state (threads k u)"
  "swap_retval (threads (set_swap_data t d k) u) = swap_retval (threads k u)"
  "swap_data (threads (set_swap_data t d k) u) = (if u = t then d else swap_data (threads k u))"
  by (simp_all add: set_swap_data_def)

lemma set_swap_data_kinv: "kinv S k \<Longrightarrow> kinv S (set_swap_data t d k)"
  unfolding set_swap_data_def by (rule upd_thread_kinv) (simp_all add: kinv_prio)

lemma block_current_data:
  fixes d :: nat and w :: waddr and timeout :: int
  assumes k: "kinv {} k" "is_thread_ready k (current k)" and s: "settled k"
    and c: "current k \<noteq> idle_thread k"
  defines "k' \<equiv> Swap (set_swap_data (current k) d (pend_current_thread w timeout k))"
  shows "sched_ok k'"
    and "queues k' (WaitQ w) = prio_insert (\<lambda>u. prio (threads k u)) (current k) (queues k (WaitQ w))"
    and "swap_retval (threads k' (current k)) = - EAGAIN" and "is_thread_pending k' (current k)"
    and "swap_data (threads k' (current k)) = d"
proof -
  let ?k = "pend_current_thread w timeout k"
  have "kinv {} ?k" "settled ?k" using pend_current_kinv [OF k c] pend_current_settled [OF k s c] by simp_all
  then show "sched_ok k'"
    unfolding k'_def by (intro Swap_ok set_swap_data_kinv) (simp_all add: settled_def)
  show "queues k' (WaitQ w) = prio_insert (\<lambda>u. prio (threads k u)) (current k) (queues k (WaitQ w))"
    using pend_current_queue [OF k(1,2), of w timeout w] by (simp add: k'_def)
qed (simp_all add: k'_def pend_current_simps)

end
