(* ===== verification/Timer.thy ===== *)
theory Timer
  imports Sys_Clock Waiters
begin

text \<open>
  Timers (\<^verbatim>\<open>kernel/timer.c\<close>). A timer is reached from the clock, through the timeout that
  is its first field, so the timers are part of the kernel state: \<open>ktimers\<close> extends the
  record, and the timeout of timer \<open>i\<close> is \<open>TimerTO i\<close>. The expiry and stop functions are
  code of the application: \<open>fns\<close> stands for them. What a call or a tick does is stated for
  timers that have no such function, and for every \<open>fns\<close>.
\<close>

section \<open>Operations\<close>

record k_timer =
  timer_wait_q :: waddr
  expiry_fn :: "nat option"
  stop_fn :: "nat option"
  period :: int
  status :: u32
  timer_user_data :: nat

record tkernel = kernel +
  ktimers :: "nat \<Rightarrow> k_timer"

definition upd_timer :: "nat \<Rightarrow> (k_timer \<Rightarrow> k_timer) \<Rightarrow> 'a tkernel_scheme \<Rightarrow> 'a tkernel_scheme" where
  "upd_timer i f k = k\<lparr>ktimers := (ktimers k)(i := f (ktimers k i))\<rparr>"

text \<open>The number that stands for \<^verbatim>\<open>_timer_expiration_handler\<close> in the field \<^verbatim>\<open>func\<close> of a timeout.\<close>

definition TIMER_HANDLER :: nat where "TIMER_HANDLER = 1"

text \<open>The timeout added here is of at least one tick, so it is queued and calls nothing.\<close>

definition timer_expiration_handler ::
  "(nat \<Rightarrow> nat \<Rightarrow> 'a tkernel_scheme \<Rightarrow> 'a tkernel_scheme) \<Rightarrow> nat \<Rightarrow> 'a tkernel_scheme \<Rightarrow> 'a tkernel_scheme" where
  "timer_expiration_handler fns i k =
     (let timer = ktimers k i;
          k1 = (if period timer > 0
                then add_timeout thread_call None (TimerTO i) (Some (timer_wait_q timer)) (period timer) k
                else k);
          k2 = upd_timer i (status_update (\<lambda>s. s + 1)) k1;
          k3 = (case expiry_fn (ktimers k2 i) of Some f \<Rightarrow> fns f i k2 | None \<Rightarrow> k2)
      in case queues k3 (WaitQ (timer_wait_q (ktimers k3 i))) of
           [] \<Rightarrow> k3
         | t # _ \<Rightarrow> set_thread_return_value t 0 (ready_thread t (unpend_thread t k3)))"

definition timer_call ::
  "(nat \<Rightarrow> nat \<Rightarrow> 'a tkernel_scheme \<Rightarrow> 'a tkernel_scheme) \<Rightarrow> nat \<Rightarrow> toref \<Rightarrow> 'a tkernel_scheme \<Rightarrow> 'a tkernel_scheme" where
  "timer_call fns f r k =
     (case r of TimerTO i \<Rightarrow> if f = TIMER_HANDLER then timer_expiration_handler fns i k else k | _ \<Rightarrow> k)"

definition k_timer_init :: "nat \<Rightarrow> nat option \<Rightarrow> nat option \<Rightarrow> 'a tkernel_scheme \<Rightarrow> 'a tkernel_scheme" where
  "k_timer_init i expiry stop k =
     (let k1 = upd_timer i (\<lambda>timer. timer\<lparr>expiry_fn := expiry, stop_fn := stop, status := 0\<rparr>) k;
          k2 = k1\<lparr>queues := (queues k1)(WaitQ (timer_wait_q (ktimers k1 i)) := [])\<rparr>;
          k3 = init_timeout (TimerTO i) (Some TIMER_HANDLER) k2
      in upd_timer i (timer_user_data_update (\<lambda>_. 0)) k3)"

definition k_timer_start ::
  "(nat \<Rightarrow> nat \<Rightarrow> 'a tkernel_scheme \<Rightarrow> 'a tkernel_scheme) \<Rightarrow> nat \<Rightarrow> int \<Rightarrow> int \<Rightarrow> 'a tkernel_scheme \<Rightarrow> 'a tkernel_scheme" where
  "k_timer_start fns i duration per k =
     (let period_in_ticks = ms_to_ticks per;
          duration_in_ticks = ms_to_ticks duration;
          k1 = (if delta k (TimerTO i) \<noteq> INACTIVE then snd (abort_timeout (TimerTO i) k) else k);
          k2 = upd_timer i (\<lambda>timer. timer\<lparr>period := period_in_ticks, status := 0\<rparr>) k1
      in add_timeout (timer_call fns) None (TimerTO i) (Some (timer_wait_q (ktimers k2 i))) duration_in_ticks k2)"

definition k_timer_stop ::
  "(nat \<Rightarrow> nat \<Rightarrow> 'a tkernel_scheme \<Rightarrow> 'a tkernel_scheme) \<Rightarrow> nat \<Rightarrow> 'a tkernel_scheme \<Rightarrow> 'a tkernel_scheme" where
  "k_timer_stop fns i k =
     (let (r, k1) = abort_timeout (TimerTO i) k
      in if r = INACTIVE then k1
         else
           let k2 = (case stop_fn (ktimers k1 i) of Some f \<Rightarrow> fns f i k1 | None \<Rightarrow> k1);
               (pending_thread, k3) = unpend_first_thread (timer_wait_q (ktimers k2 i)) k2;
               k4 = (case pending_thread of Some t \<Rightarrow> ready_thread t k3 | None \<Rightarrow> k3)
           in if is_in_isr k4 then k4 else reschedule_threads k4)"

definition k_timer_status_get :: "nat \<Rightarrow> 'a tkernel_scheme \<Rightarrow> u32 \<times> 'a tkernel_scheme" where
  "k_timer_status_get i k = (status (ktimers k i), upd_timer i (status_update (\<lambda>_. 0)) k)"

definition k_timer_status_sync :: "nat \<Rightarrow> 'a tkernel_scheme \<Rightarrow> u32 option \<times> 'a tkernel_scheme" where
  "k_timer_status_sync i k =
     (let result = status (ktimers k i)
      in if result = 0 \<and> delta k (TimerTO i) \<noteq> INACTIVE
         then (None, Swap (pend_current_thread (timer_wait_q (ktimers k i)) K_FOREVER k))
         else (Some result, upd_timer i (status_update (\<lambda>_. 0)) k))"

definition k_timer_status_sync_resume :: "nat \<Rightarrow> 'a tkernel_scheme \<Rightarrow> u32 \<times> 'a tkernel_scheme" where
  "k_timer_status_sync_resume i k = (status (ktimers k i), upd_timer i (status_update (\<lambda>_. 0)) k)"

text \<open>
  The walk over the timeout queue adds up the differences up to the timeout asked for;
  running off the end of the queue dereferences a null pointer.
\<close>

fun sum_deltas :: "(toref \<Rightarrow> k_timeout) \<Rightarrow> toref \<Rightarrow> int \<Rightarrow> toref list \<Rightarrow> int option" where
  "sum_deltas T r acc [] = None"
| "sum_deltas T r acc (t # ts) =
     (let acc' = to_s32 (acc + delta_ticks_from_prev (T t))
      in if t = r then Some acc' else sum_deltas T r acc' ts)"

definition timeout_remaining_get :: "toref \<Rightarrow> 'a kernel_scheme \<Rightarrow> int option" where
  "timeout_remaining_get r k =
     (let remaining_ticks = (if delta k r = INACTIVE then Some 0 else sum_deltas (timeouts k) r 0 (timeout_q k))
      in map_option (\<lambda>n. to_s32 (ticks_to_ms n)) remaining_ticks)"

definition k_timer_remaining_get :: "nat \<Rightarrow> 'a tkernel_scheme \<Rightarrow> int option" where
  "k_timer_remaining_get i k = timeout_remaining_get (TimerTO i) k"

definition k_timer_user_data_set :: "nat \<Rightarrow> nat \<Rightarrow> 'a tkernel_scheme \<Rightarrow> 'a tkernel_scheme" where
  "k_timer_user_data_set i d k = upd_timer i (timer_user_data_update (\<lambda>_. d)) k"

definition k_timer_user_data_get :: "nat \<Rightarrow> 'a tkernel_scheme \<Rightarrow> nat" where
  "k_timer_user_data_get i k = timer_user_data (ktimers k i)"

section \<open>The invariant of timers\<close>

text \<open>A thread that waits for a timer waits without a timeout of its own.\<close>

definition timer_inv :: "'a tkernel_scheme \<Rightarrow> bool" where
  "timer_inv k \<longleftrightarrow> (\<forall>i. \<forall>t \<in> set (queues k (WaitQ (timer_wait_q (ktimers k i)))). delta k (ThreadTO t) = INACTIVE)"

text \<open>
  \<open>quiet k k'\<close>: what a step taken while the clock handles timeouts may do. It keeps the
  invariants, does not touch the timeouts that are still to be handled, switches no thread
  and blocks none.
\<close>

definition quiet :: "'a tkernel_scheme \<Rightarrow> 'a tkernel_scheme \<Rightarrow> bool" where
  "quiet k k' \<longleftrightarrow> kinv {} k' \<and> timer_inv k' \<and> current k' = current k \<and>
     (\<forall>x. delta k x = EXPIRED \<longrightarrow> timeouts k' x = timeouts k x) \<and>
     (\<forall>x. delta k' x = EXPIRED \<longrightarrow> delta k x = EXPIRED) \<and>
     (\<forall>u. is_thread_ready k u \<longrightarrow> is_thread_ready k' u) \<and>
     (\<forall>u n. n = 0 \<or> n = 3 \<or> n = 4 \<longrightarrow> st k' u n = st k u n)"

text \<open>Every timer has a wait queue of its own; no timer has an expiry function.\<close>

definition own_queues :: "'a tkernel_scheme \<Rightarrow> bool" where
  "own_queues k \<longleftrightarrow> (\<forall>i j. timer_wait_q (ktimers k i) = timer_wait_q (ktimers k j) \<longrightarrow> i = j)"

definition plain_timers :: "'a tkernel_scheme \<Rightarrow> bool" where
  "plain_timers k \<longleftrightarrow> (\<forall>i. expiry_fn (ktimers k i) = None)"

lemma quietI:
  assumes "kinv {} k'" "timer_inv k'" "current k' = current k"
    "\<And>x. delta k x = EXPIRED \<Longrightarrow> timeouts k' x = timeouts k x" "\<And>x. delta k' x = EXPIRED \<Longrightarrow> delta k x = EXPIRED"
    "\<And>u. is_thread_ready k u \<Longrightarrow> is_thread_ready k' u"
    "\<And>u n. n = 0 \<or> n = 3 \<or> n = 4 \<Longrightarrow> st k' u n = st k u n"
  shows "quiet k k'"
  unfolding quiet_def by (intro conjI allI impI; rule assms)

lemma quietD:
  assumes "quiet k k'"
  shows "kinv {} k'" "timer_inv k'" "current k' = current k"
    "delta k x = EXPIRED \<Longrightarrow> timeouts k' x = timeouts k x" "delta k' x = EXPIRED \<Longrightarrow> delta k x = EXPIRED"
    "is_thread_ready k u \<Longrightarrow> is_thread_ready k' u" "n = 0 \<or> n = 3 \<or> n = 4 \<Longrightarrow> st k' u n = st k u n"
  using assms unfolding quiet_def by blast+

lemma quiet_refl: "kinv {} k \<Longrightarrow> timer_inv k \<Longrightarrow> quiet k k"
  by (rule quietI) simp_all

lemma quiet_trans:
  assumes q: "quiet k1 k2" "quiet k2 k3" shows "quiet k1 k3"
proof (rule quietI)
  show "timeouts k3 x = timeouts k1 x" if "delta k1 x = EXPIRED" for x
    using quietD(4) [OF q(1) that] quietD(4) [OF q(2), of x] that by simp
  show "st k3 u n = st k1 u n" if "n = 0 \<or> n = 3 \<or> n = 4" for u n
    using quietD(7) [OF q(1) that, of u] quietD(7) [OF q(2) that, of u] by simp
  show "current k3 = current k1" using quietD(3) [OF q(1)] quietD(3) [OF q(2)] by simp
qed (fact quietD(1,2) [OF q(2)] | erule quietD(5) [OF q(2), THEN quietD(5) [OF q(1)]]
    | erule quietD(6) [OF q(1), THEN quietD(6) [OF q(2)]])+

lemma ktimers_more: "kernel.more k' = kernel.more k \<Longrightarrow> ktimers k' = ktimers k"
  by (cases k; cases k') simp

lemma timer_inv_mono:
  assumes "timer_inv k" "kernel.more k' = kernel.more k"
    "\<And>w. set (queues k' (WaitQ w)) \<subseteq> set (queues k (WaitQ w))"
    "\<And>t. delta k (ThreadTO t) = INACTIVE \<Longrightarrow> delta k' (ThreadTO t) = INACTIVE"
  shows "timer_inv k'"
  using assms ktimers_more [OF assms(2)] unfolding timer_inv_def by (metis subsetD)

lemma upd_timer_simps [simp]:
  "threads (upd_timer i f k) = threads k" "timeouts (upd_timer i f k) = timeouts k"
  "queues (upd_timer i f k) = queues k" "timeout_q (upd_timer i f k) = timeout_q k"
  "current (upd_timer i f k) = current k" "handling_timeouts (upd_timer i f k) = handling_timeouts k"
  "idle_thread (upd_timer i f k) = idle_thread k" "nested (upd_timer i f k) = nested k"
  "ready_list (upd_timer i f k) = ready_list k" "remaining (upd_timer i f k) = remaining k"
  "ktimers (upd_timer i f k) j = (if j = i then f (ktimers k i) else ktimers k j)"
  by (simp_all add: upd_timer_def ready_list_def remaining_def)

lemma upd_timer_kinv [simp]: "kinv S (upd_timer i f k) \<longleftrightarrow> kinv S k"
  by (simp add: upd_timer_def kinv_defs rq_ok_def rq_shape_def ready_list_def is_thread_ready_iff timeout_link_def
      cong: option.case_cong)

lemma upd_timer_ready [simp]: "is_thread_ready (upd_timer i f k) u \<longleftrightarrow> is_thread_ready k u"
  by (simp add: is_thread_ready_iff)

lemma upd_timer_inv [simp]:
  "(\<And>timer. timer_wait_q (f timer) = timer_wait_q timer) \<Longrightarrow> timer_inv (upd_timer i f k) \<longleftrightarrow> timer_inv k"
  by (auto simp: timer_inv_def)

section \<open>Steps of the handler\<close>

definition timer_rearm :: "nat \<Rightarrow> 'a tkernel_scheme \<Rightarrow> 'a tkernel_scheme" where
  "timer_rearm i k =
     (if period (ktimers k i) > 0
      then add_timeout thread_call None (TimerTO i) (Some (timer_wait_q (ktimers k i))) (period (ktimers k i)) k
      else k)"

definition timer_wake :: "nat \<Rightarrow> 'a tkernel_scheme \<Rightarrow> 'a tkernel_scheme" where
  "timer_wake i k =
     (case queues k (WaitQ (timer_wait_q (ktimers k i))) of
        [] \<Rightarrow> k
      | t # _ \<Rightarrow> set_thread_return_value t 0 (ready_thread t (unpend_thread t k)))"

lemma timer_handler_steps:
  "timer_expiration_handler fns i k =
     (let k2 = upd_timer i (status_update (\<lambda>s. s + 1)) (timer_rearm i k)
      in timer_wake i (case expiry_fn (ktimers k2 i) of Some f \<Rightarrow> fns f i k2 | None \<Rightarrow> k2))"
  unfolding timer_expiration_handler_def timer_rearm_def timer_wake_def Let_def by (rule refl)

lemma quiet_upd_timer:
  assumes "kinv {} k" "timer_inv k" "\<And>timer. timer_wait_q (f timer) = timer_wait_q timer"
  shows "quiet k (upd_timer i f k)"
  using assms by (intro quietI) simp_all

lemma add_timer_timeout_quiet:
  assumes k: "kinv {} k" "timer_inv k" and r: "delta k (TimerTO i) = INACTIVE" and p: "0 < ticks"
  shows "quiet k (add_timeout call None (TimerTO i) w ticks k)"
proof -
  let ?k = "add_timeout call None (TimerTO i) w ticks k"
  note d = kinvD(3) [OF k(1)]
  have o: "\<forall>t. TimerTO i \<noteq> ThreadTO t" by simp
  note a = add_object_timeout_kinv [OF k(1) o r p, of call w]
  have rq: "TimerTO i \<notin> set (timeout_q k)" using r by (simp add: delta_inv_cases [OF d])
  have act: "delta ?k x = INACTIVE \<longleftrightarrow> x \<noteq> TimerTO i \<and> delta k x = INACTIVE" for x
    by (rule add_timeout_active_iff [OF d r p])
  have same: "timeouts ?k x = timeouts k x" if "delta k x = EXPIRED" for x
    using that r p delta_inv_cases [OF d, of x] by (intro add_timeout_links(5)) (auto simp: INACTIVE_def EXPIRED_def)
  have no: "delta k x = EXPIRED" if x: "delta ?k x = EXPIRED" for x
  proof -
    have "x \<notin> set (timeout_q ?k)" using x delta_inv_cases [OF kinvD(3) [OF a(1)]] by simp
    then have "x \<noteq> TimerTO i" "x \<notin> set (timeout_q k)" using p by (simp_all add: add_timeout_links)
    then show ?thesis using x p add_timeout_links(5) [of ticks x "TimerTO i" k call None w] by simp
  qed
  have "timer_inv ?k"
    using p by (intro timer_inv_mono [OF k(2)]) (simp_all add: add_timeout_frame act)
  then show ?thesis
    by (rule quietI [OF a(1) _ _ same no]) (use p in \<open>simp_all add: add_timeout_frame a(2)\<close>)
qed

lemma wake_waiter_quiet:
  assumes k: "kinv {} k" "timer_inv k" and t: "t \<in> set (queues k (WaitQ (timer_wait_q (ktimers k i))))"
  shows "quiet k (ready_thread t (unpend_thread t k))"
    and "is_thread_ready (ready_thread t (unpend_thread t k)) u \<longleftrightarrow>
      (if u = t then \<not> st k t 0 \<and> \<not> st k t 3 \<and> \<not> st k t 4 else is_thread_ready k u)"
proof -
  let ?k = "ready_thread t (unpend_thread t k)"
  have d: "delta k (ThreadTO t) = INACTIVE" using k(2) t by (auto simp: timer_inv_def)
  have p: "st k t 1" using kinv_waiting [OF k(1) t] by simp
  have "kinv {t} (unpend_thread t k)" by (rule unpend_kinv [OF k(1) p]) simp
  then have k': "kinv {} ?k" by (rule ready_thread_kinv) (simp_all add: d st_unpend)
  show r: "is_thread_ready ?k u \<longleftrightarrow>
      (if u = t then \<not> st k t 0 \<and> \<not> st k t 3 \<and> \<not> st k t 4 else is_thread_ready k u)" for u
    using d by (auto simp: is_thread_ready_iff st_ready_thread st_unpend ready_thread_frame)
  have "\<not> is_thread_ready k t" using p by (simp add: is_thread_ready_iff)
  moreover have "timer_inv ?k"
    by (rule timer_inv_mono [OF k(2)])
       (auto simp: ready_thread_frame dest: subsetD [OF set_remove1_subset])
  ultimately show "quiet k ?k"
    by (intro quietI k') (auto simp: r ready_thread_frame st_ready_thread st_unpend)
qed

lemma quiet_set_retval:
  assumes "quiet k k'" shows "quiet k (set_thread_return_value t v k')"
proof -
  have "timer_inv (set_thread_return_value t v k')"
    by (rule timer_inv_mono [OF quietD(2) [OF assms]]) simp_all
  then have "quiet k' (set_thread_return_value t v k')"
    by (rule quietI [OF set_retval_kinv [OF quietD(1) [OF assms]]]) simp_all
  with assms show ?thesis by (rule quiet_trans)
qed

lemma timer_wake_quiet: "kinv {} k \<Longrightarrow> timer_inv k \<Longrightarrow> quiet k (timer_wake i k)"
  unfolding timer_wake_def
  by (cases "queues k (WaitQ (timer_wait_q (ktimers k i)))")
     (auto intro!: quiet_set_retval wake_waiter_quiet(1) [of _ _ i] quiet_refl)

lemma timer_rearm_spec:
  assumes k: "kinv {} k" "timer_inv k" and r: "delta k (TimerTO i) = INACTIVE"
  shows "quiet k (timer_rearm i k)"
    and "remaining (timer_rearm i k) = (if 0 < period (ktimers k i)
      then expiry_insert (TimerTO i) (period (ktimers k i)) (remaining k) else remaining k)"
    and "queues (timer_rearm i k) = queues k" "threads (timer_rearm i k) = threads k"
    and "is_thread_ready (timer_rearm i k) u \<longleftrightarrow> is_thread_ready k u" and "ktimers (timer_rearm i k) = ktimers k"
proof -
  note d = kinvD(3) [OF k(1)]
  have th: "\<forall>t. TimerTO i \<noteq> ThreadTO t" by simp
  have "TimerTO i \<notin> set (timeout_q k)" "distinct (timeout_q k)"
    using r d by (simp_all add: delta_inv_cases) (simp add: delta_inv_def)
  then show "remaining (timer_rearm i k) = (if 0 < period (ktimers k i)
      then expiry_insert (TimerTO i) (period (ktimers k i)) (remaining k) else remaining k)"
    using add_timeout_remaining [of "period (ktimers k i)" "TimerTO i" k] by (simp add: timer_rearm_def)
  show "quiet k (timer_rearm i k)"
    using add_timer_timeout_quiet [OF k r] quiet_refl [OF k] by (simp add: timer_rearm_def)
  show "is_thread_ready (timer_rearm i k) u \<longleftrightarrow> is_thread_ready k u"
    using add_object_timeout_kinv(2) [OF k(1) th r] by (simp add: timer_rearm_def)
  show "ktimers (timer_rearm i k) = ktimers k"
    by (rule ktimers_more) (simp add: timer_rearm_def add_timeout_frame)
qed (simp_all add: timer_rearm_def add_timeout_frame)

lemma timer_wake_spec:
  fixes i :: nat
  assumes k: "kinv {} k" "timer_inv k"
  defines "waiting \<equiv> queues k (WaitQ (timer_wait_q (ktimers k i)))"
  shows "is_thread_ready (timer_wake i k) u \<longleftrightarrow> is_thread_ready k u \<or>
      waiting \<noteq> [] \<and> u = hd waiting \<and> \<not> st k u 0 \<and> \<not> st k u 3 \<and> \<not> st k u 4"
    and "queues (timer_wake i k) (WaitQ (timer_wait_q (ktimers k i))) = tl waiting"
    and "waiting \<noteq> [] \<Longrightarrow> swap_retval (threads (timer_wake i k) (hd waiting)) = 0"
    and "remaining (timer_wake i k) = remaining k" and "ktimers (timer_wake i k) = ktimers k"
proof -
  have "(is_thread_ready (timer_wake i k) u \<longleftrightarrow> is_thread_ready k u \<or>
      waiting \<noteq> [] \<and> u = hd waiting \<and> \<not> st k u 0 \<and> \<not> st k u 3 \<and> \<not> st k u 4) \<and>
    queues (timer_wake i k) (WaitQ (timer_wait_q (ktimers k i))) = tl waiting \<and>
    (waiting \<noteq> [] \<longrightarrow> swap_retval (threads (timer_wake i k) (hd waiting)) = 0)"
  proof (cases waiting)
    case (Cons t ts)
    then have t: "t \<in> set (queues k (WaitQ (timer_wait_q (ktimers k i))))" by (simp add: waiting_def)
    have "\<not> is_thread_ready k t" using kinv_waiting [OF k(1) t] by (simp add: is_thread_ready_iff)
    with Cons show ?thesis
      using wake_waiter_quiet(2) [OF k t, of u] unfolding waiting_def
      by (auto simp: timer_wake_def ready_thread_frame)
  qed (simp add: timer_wake_def waiting_def)
  then show "is_thread_ready (timer_wake i k) u \<longleftrightarrow> is_thread_ready k u \<or>
      waiting \<noteq> [] \<and> u = hd waiting \<and> \<not> st k u 0 \<and> \<not> st k u 3 \<and> \<not> st k u 4"
    "queues (timer_wake i k) (WaitQ (timer_wait_q (ktimers k i))) = tl waiting"
    "waiting \<noteq> [] \<Longrightarrow> swap_retval (threads (timer_wake i k) (hd waiting)) = 0" by blast+
  show "remaining (timer_wake i k) = remaining k"
    by (simp add: timer_wake_def remaining_def ready_thread_frame split: list.split)
  show "ktimers (timer_wake i k) = ktimers k"
    by (rule ktimers_more) (simp add: timer_wake_def ready_thread_frame split: list.split)
qed

section \<open>Timers and the clock\<close>

lemma timer_handler_quiet:
  assumes f: "expiry_fn (ktimers k i) = None" and k: "kinv {} k" "timer_inv k" and r: "delta k (TimerTO i) = INACTIVE"
  shows "quiet k (timer_expiration_handler fns i k)"
    and "ktimers (timer_expiration_handler fns i k) = (ktimers k)(i := (ktimers k i)\<lparr>status := status (ktimers k i) + 1\<rparr>)"
proof -
  let ?k2 = "upd_timer i (status_update (\<lambda>s. s + 1)) (timer_rearm i k)"
  note ra = timer_rearm_spec [OF k r]
  have e: "timer_expiration_handler fns i k = timer_wake i ?k2" using f by (simp add: timer_handler_steps ra(6))
  have q2: "quiet (timer_rearm i k) ?k2" by (rule quiet_upd_timer [OF quietD(1,2) [OF ra(1)]]) simp
  then show "quiet k (timer_expiration_handler fns i k)"
    unfolding e using ra(1) timer_wake_quiet [OF quietD(1,2) [OF q2]] by (blast intro: quiet_trans)
  show "ktimers (timer_expiration_handler fns i k) = (ktimers k)(i := (ktimers k i)\<lparr>status := status (ktimers k i) + 1\<rparr>)"
    unfolding e timer_wake_spec(5) [OF quietD(1,2) [OF q2]] by (auto simp: ra(6))
qed

interpretation timer_cb: timeout_callback "timer_call fns" "\<lambda>k. timer_inv k \<and> plain_timers k"
  for fns :: "nat \<Rightarrow> nat \<Rightarrow> 'a tkernel_scheme \<Rightarrow> 'a tkernel_scheme"
proof -
  have q: "quiet k (timer_call fns g r k) \<and> plain_timers (timer_call fns g r k)"
    if "callable k r" "timer_inv k \<and> plain_timers k" for g r k
    using that timer_handler_quiet [where k = k and fns = fns] quiet_refl [of k]
    by (auto simp: timer_call_def callable_def plain_timers_def split: toref.split)
  show "timeout_callback (timer_call fns) (\<lambda>k. timer_inv k \<and> plain_timers k)"
  proof (unfold_locales, goal_cases)
    case (8 k k')
    then show ?case using timer_inv_mono [of k k'] ktimers_more [of k' k] by (simp add: plain_timers_def)
  qed (use q in \<open>blast dest: quietD\<close>)+
qed

text \<open>Starting a timer, whether or not it was running.\<close>

definition timer_stopped :: "nat \<Rightarrow> int \<Rightarrow> 'a tkernel_scheme \<Rightarrow> 'a tkernel_scheme" where
  "timer_stopped i p k =
     upd_timer i (\<lambda>timer. timer\<lparr>period := p, status := 0\<rparr>) (snd (abort_timeout (TimerTO i) k))"

lemma k_timer_start_steps:
  "k_timer_start fns i duration per k =
     add_timeout (timer_call fns) None (TimerTO i) (Some (timer_wait_q (ktimers k i))) (ms_to_ticks duration)
       (timer_stopped i (ms_to_ticks per) k)"
proof -
  have "ktimers (snd (abort_timeout (TimerTO i) k)) = ktimers k" by (rule ktimers_more) (simp add: abort_timeout_frame)
  then show ?thesis
    by (simp add: k_timer_start_def timer_stopped_def Let_def abort_timeout_inactive)
qed

lemma abort_timer_quiet:
  assumes k: "kinv {} k" "timer_inv k" and e: "delta k (TimerTO i) \<noteq> EXPIRED"
  shows "quiet k (snd (abort_timeout (TimerTO i) k))"
proof (rule quietI)
  let ?k = "snd (abort_timeout (TimerTO i) k)"
  have o: "\<forall>t. TimerTO i \<noteq> ThreadTO t" by simp
  note a = abort_object_timeout_kinv [OF k(1) o e]
  show "kinv {} ?k" by (rule a(1))
  show "timer_inv ?k"
    by (rule timer_inv_mono [OF k(2)]) (simp_all add: abort_timeout_frame a(2))
  note d = kinvD(3) [OF k(1)]
  show "timeouts ?k x = timeouts k x" if "delta k x = EXPIRED" for x
  proof -
    have "x \<noteq> TimerTO i" "x \<notin> set (timeout_q k)" using that e by (auto simp: delta_inv_cases [OF d])
    then show ?thesis by (auto simp: abort_timeout_def Let_def with_delta_def dest: list_next_mem split: option.split)
  qed
  show "delta k x = EXPIRED" if x: "delta ?k x = EXPIRED" for x
  proof -
    have "x \<noteq> TimerTO i" using x by (auto simp: abort_timeout_delta INACTIVE_def EXPIRED_def)
    moreover have "x \<notin> set (timeout_q ?k)" using x by (simp add: delta_inv_cases [OF abort_timeout_inv [OF d e]])
    ultimately have "x \<notin> set (timeout_q k)" by (simp add: abort_timeout_queue split: if_splits)
    with x \<open>x \<noteq> TimerTO i\<close> show ?thesis by (simp add: abort_timeout_other)
  qed
qed (simp_all add: abort_timeout_frame abort_object_timeout_kinv(3) [OF k(1) _ e])

lemma timer_stopped_quiet:
  assumes "kinv {} k" "timer_inv k" "delta k (TimerTO i) \<noteq> EXPIRED"
  shows "quiet k (timer_stopped i p k)"
  unfolding timer_stopped_def using abort_timer_quiet [OF assms]
  by (rule quiet_trans) (intro quiet_upd_timer quietD(1,2) [OF abort_timer_quiet [OF assms]], simp)

lemma timer_stopped_simps:
  assumes "kinv {} k" "delta k (TimerTO i) \<noteq> EXPIRED"
  shows "delta (timer_stopped i p k) (TimerTO i) = INACTIVE"
    and "remaining (timer_stopped i p k) = filter (\<lambda>(x, _). x \<noteq> TimerTO i) (remaining k)"
proof -
  note d = kinvD(3) [OF assms(1)]
  show "delta (timer_stopped i p k) (TimerTO i) = INACTIVE" by (simp add: timer_stopped_def abort_timeout_delta)
  show "remaining (timer_stopped i p k) = filter (\<lambda>(x, _). x \<noteq> TimerTO i) (remaining k)"
  proof (cases "delta k (TimerTO i) = INACTIVE")
    case True
    then have "TimerTO i \<notin> set (timeout_q k)" by (simp add: delta_inv_cases [OF d])
    with True show ?thesis
      by (simp add: timer_stopped_def abort_timeout_inactive) (simp add: remaining_def filter_expiries)
  next
    case False
    then have "TimerTO i \<in> set (timeout_q k)" using assms(2) by (simp add: delta_inv_cases [OF d])
    from abort_timeout_remaining [OF this d] show ?thesis by (simp add: timer_stopped_def)
  qed
qed

text \<open>The sum of the differences up to a timeout is the time that remains to it.\<close>

lemma sum_deltas_expiry:
  assumes "distinct qs" "\<forall>q \<in> set qs. 0 \<le> dt (T q)" "0 \<le> a" "(r, e) \<in> set (expiries T a qs)" "e < 2 ^ 31"
  shows "sum_deltas T r a qs = Some e"
  using assms
proof (induction qs arbitrary: a)
  case (Cons q qs)
  let ?a = "a + dt (T q)"
  have a: "0 \<le> ?a" "?a \<le> e"
    using Cons.prems delta_le_expiry [of qs T r e ?a] by (auto simp: image_iff)
  then have s: "to_s32 ?a = ?a" using Cons.prems(5) by (intro to_s32_id) simp_all
  have "r \<in> set qs \<or> e = ?a \<and> q = r"
    using Cons.prems(4) map_fst_expiries [of T ?a qs] by (metis (no_types, lifting) expiries.simps(2) fst_conv list.set_map rev_image_eqI set_ConsD prod.inject)
  then show ?case
    using Cons.IH [of ?a] Cons.prems a s by (auto simp: Let_def)
qed simp

lemma timeout_remaining_get_expiry:
  assumes d: "delta_inv k" and e: "(r, e) \<in> set (remaining k)" "e < 2 ^ 31"
  shows "timeout_remaining_get r k = Some (to_s32 (ticks_to_ms e))"
proof -
  have "r \<in> set (timeout_q k)"
    using e(1) unfolding remaining_def by (metis (no_types) fst_conv image_eqI list.set_map map_fst_expiries)
  then have "delta k r \<noteq> INACTIVE" by (simp add: delta_inv_cases [OF d])
  moreover have "sum_deltas (timeouts k) r 0 (timeout_q k) = Some e"
    using d e by (intro sum_deltas_expiry) (auto simp: delta_inv_def remaining_def)
  ultimately show ?thesis by (simp add: timeout_remaining_get_def)
qed

lemma k_timer_start_inv:
  assumes k: "kinv {} k" "timer_inv k" and s: "settled k" and e: "delta k (TimerTO i) \<noteq> EXPIRED"
    and n: "0 < ms_to_ticks duration"
  shows "quiet k (k_timer_start fns i duration per k)" "settled (k_timer_start fns i duration per k)"
    and "remaining (k_timer_start fns i duration per k) =
      expiry_insert (TimerTO i) (ms_to_ticks duration) (filter (\<lambda>(x, _). x \<noteq> TimerTO i) (remaining k))"
    and "ktimers (k_timer_start fns i duration per k) =
      (ktimers k)(i := (ktimers k i)\<lparr>period := ms_to_ticks per, status := 0\<rparr>)"
proof -
  let ?k' = "k_timer_start fns i duration per k"
  let ?k1 = "timer_stopped i (ms_to_ticks per) k" and ?n = "ms_to_ticks duration"
  note q1 = timer_stopped_quiet [OF k e, of "ms_to_ticks per"] and r1 = timer_stopped_simps [OF k(1) e]
  note e' = k_timer_start_steps [of fns i duration per k]
  have q: "quiet ?k1 ?k'"
    unfolding e' by (rule add_timer_timeout_quiet [OF quietD(1,2) [OF q1] r1(1) n])
  then show q2: "quiet k ?k'" by (rule quiet_trans [OF q1])
  have d1: "delta_inv ?k1" by (rule kinvD(3) [OF quietD(1) [OF q1]])
  then have rq: "TimerTO i \<notin> set (timeout_q ?k1)" using r1(1) by (simp add: delta_inv_cases)
  show "remaining ?k' = expiry_insert (TimerTO i) ?n (filter (\<lambda>(x, _). x \<noteq> TimerTO i) (remaining k))"
    using add_timeout_remaining [of ?n "TimerTO i" ?k1] n rq d1 by (simp add: e' r1(2) delta_inv_def)
  have "ktimers ?k' = ktimers ?k1" unfolding e' by (rule ktimers_more) (use n in \<open>simp add: add_timeout_frame\<close>)
  moreover have "ktimers (snd (abort_timeout (TimerTO i) k)) = ktimers k"
    by (rule ktimers_more) (simp add: abort_timeout_frame)
  ultimately show "ktimers ?k' = (ktimers k)(i := (ktimers k i)\<lparr>period := ms_to_ticks per, status := 0\<rparr>)"
    by (auto simp: timer_stopped_def)
  have "handling_timeouts ?k' = handling_timeouts k"
    using n by (simp add: e' add_timeout_frame timer_stopped_def abort_timeout_frame)
  then show "settled ?k'" using s quietD(5) [OF q2] by (auto simp: settled_def)
qed

lemma status_sync_blocks:
  assumes k: "kinv {} k" "timer_inv k" "settled k" and c: "is_thread_ready k (current k)" "current k \<noteq> idle_thread k"
    and s: "status (ktimers k i) = 0" "delta k (TimerTO i) \<noteq> INACTIVE"
  shows "fst (k_timer_status_sync i k) = None" "sched_ok (snd (k_timer_status_sync i k))"
    "timer_inv (snd (k_timer_status_sync i k))" "ktimers (snd (k_timer_status_sync i k)) = ktimers k"
    "queues (snd (k_timer_status_sync i k)) (WaitQ (timer_wait_q (ktimers k i))) =
       prio_insert (\<lambda>u. prio (threads k u)) (current k) (queues k (WaitQ (timer_wait_q (ktimers k i))))"
proof -
  let ?w = "timer_wait_q (ktimers k i)"
  let ?k = "Swap (pend_current_thread ?w K_FOREVER k)"
  have e: "k_timer_status_sync i k = (None, ?k)" using s by (simp add: k_timer_status_sync_def)
  note b = block_current [OF k(1) c(1) k(3) c(2), of ?w K_FOREVER]
  show "fst (k_timer_status_sync i k) = None" "sched_ok (snd (k_timer_status_sync i k))"
    "queues (snd (k_timer_status_sync i k)) (WaitQ ?w) = prio_insert (\<lambda>u. prio (threads k u)) (current k) (queues k (WaitQ ?w))"
    using b by (simp_all add: e)
  have t: "timeouts (pend_current_thread ?w K_FOREVER k) = timeouts k"
    by (simp add: pend_current_thread_def pend_thread_split enqueue_pending_timeouts)
  have m: "ktimers ?k = ktimers k" by (rule ktimers_more) (simp add: pend_current_simps)
  then show "ktimers (snd (k_timer_status_sync i k)) = ktimers k" by (simp add: e)
  have "delta k (ThreadTO (current k)) = INACTIVE" using c(1) by (simp add: is_thread_ready_iff)
  then show "timer_inv (snd (k_timer_status_sync i k))"
    using k(2) pend_current_queue [OF k(1) c(1), of ?w K_FOREVER]
    by (auto simp: e timer_inv_def t m set_prio_insert split: if_splits)
qed

section \<open>Properties\<close>

text \<open>
  Starting a timer puts it, and nothing else, among the timeouts at its place in time,
  in place of a running one; its status is zero and its period that of the call in whole
  ticks. The remaining time that can be asked for is then the duration rounded up to whole
  ticks, for every duration whose rounding is a 32-bit number.
\<close>

theorem k_timer_start_counts:
  assumes k: "kinv {} k" "timer_inv k" and s: "settled k" and e: "delta k (TimerTO i) \<noteq> EXPIRED"
    and d: "0 < duration" "duration \<le> 2147483640"
  shows "let k' = k_timer_start fns i duration per k in
    kinv {} k' \<and> timer_inv k' \<and> settled k' \<and>
    remaining k' = expiry_insert (TimerTO i) (ms_to_ticks duration) (filter (\<lambda>(x, _). x \<noteq> TimerTO i) (remaining k)) \<and>
    status (ktimers k' i) = 0 \<and> period (ktimers k' i) = ms_to_ticks per \<and>
    k_timer_remaining_get i k' = Some ((duration + 9) div 10 * 10)"
proof -
  let ?k' = "k_timer_start fns i duration per k" and ?n = "ms_to_ticks duration"
  have "(duration + 9) div 10 \<le> 214748364" using d by linarith
  then have n: "?n = (duration + 9) div 10" "0 < ?n" "?n * 10 < 2 ^ 31"
    using ms_to_ticks_ceiling [of duration] d by simp_all
  note s = k_timer_start_inv [OF k s e n(2)]
  have "k_timer_remaining_get i ?k' = Some (to_s32 (ticks_to_ms ?n))"
    unfolding k_timer_remaining_get_def
    using n by (intro timeout_remaining_get_expiry kinvD(3) [OF quietD(1) [OF s(1)]]) (simp_all add: s(3) set_expiry_insert)
  moreover have "to_s32 (ticks_to_ms ?n) = (duration + 9) div 10 * 10"
    using n d ticks_to_ms_exact [of ?n] by (simp add: to_s32_id)
  ultimately show ?thesis using quietD(1,2) [OF s(1)] s(2,3) by (simp add: Let_def s(4))
qed

lemma init_timeout_kinv:
  assumes k: "kinv S k" and r: "\<forall>t. r \<noteq> ThreadTO t" "delta k r = INACTIVE"
  shows "kinv S (init_timeout r g k)"
proof (rule timeouts_change_kinv [OF k])
  let ?k = "init_timeout r g k"
  have dl: "delta ?k x = delta k x" for x using r(2) by (simp add: init_timeout_def upd_timeout_def)
  show "delta_inv ?k"
    using kinvD(3) [OF k] unfolding delta_inv_def dl by (simp add: init_timeout_def upd_timeout_def)
  fix u
  show "is_thread_ready ?k u \<longleftrightarrow> is_thread_ready k u"
    unfolding is_thread_ready_iff dl by (simp add: init_timeout_def upd_timeout_def)
  have "timeout_link ?k u \<longleftrightarrow> timeout_link k u"
    by (rule timeout_link_frame) (use r(1) in \<open>auto simp: init_timeout_def upd_timeout_def\<close>)
  then show "timeout_link ?k u" if "u \<notin> S" "delta ?k (ThreadTO u) \<noteq> INACTIVE"
    using that kinvD(4) [OF k] unfolding dl by (simp add: link_inv_def)
qed (simp_all add: init_timeout_def upd_timeout_def)

lemma k_timer_init_steps:
  assumes "queues k (WaitQ (timer_wait_q (ktimers k i))) = []"
  shows "k_timer_init i e f k =
    upd_timer i (timer_user_data_update (\<lambda>_. 0)) (init_timeout (TimerTO i) (Some TIMER_HANDLER)
      (upd_timer i (\<lambda>timer. timer\<lparr>expiry_fn := e, stop_fn := f, status := 0\<rparr>) k))"
proof -
  let ?k = "upd_timer i (\<lambda>timer. timer\<lparr>expiry_fn := e, stop_fn := f, status := 0\<rparr>) k"
  have "?k\<lparr>queues := (queues ?k)(WaitQ (timer_wait_q (ktimers ?k i)) := [])\<rparr> = ?k"
    using assms by (simp add: fun_upd_idem)
  then show ?thesis by (simp only: k_timer_init_def Let_def)
qed

lemma init_timer_kinv:
  assumes "kinv S k" "queues k (WaitQ (timer_wait_q (ktimers k i))) = []" "delta k (TimerTO i) = INACTIVE"
  shows "kinv S (k_timer_init i e f k)"
  unfolding k_timer_init_steps [OF assms(2)] upd_timer_kinv
  by (rule init_timeout_kinv) (use assms in simp_all)

definition example_timers :: "nat \<Rightarrow> k_timer" where
  "example_timers i = \<lparr>timer_wait_q = i, expiry_fn = None, stop_fn = None, period = 0, status = 0, timer_user_data = 0\<rparr>"

definition bare_kernel :: tkernel where
  "bare_kernel = kernel.extend pair_kernel \<lparr>ktimers = example_timers\<rparr>"

definition timer_kernel :: tkernel where
  "timer_kernel = k_timer_init 7 None None bare_kernel"

lemma extend_kinv: "kinv S (kernel.extend k m) \<longleftrightarrow> kinv S k"
  by (simp add: kernel.extend_def kinv_defs rq_ok_def rq_shape_def ready_list_def is_thread_ready_iff timeout_link_def
      cong: option.case_cong)

lemma bare_kernel_simps [simp]:
  "queues bare_kernel = queues pair_kernel" "timeouts bare_kernel = timeouts pair_kernel"
  "timeout_q bare_kernel = timeout_q pair_kernel" "threads bare_kernel = threads pair_kernel"
  "current bare_kernel = current pair_kernel" "handling_timeouts bare_kernel = handling_timeouts pair_kernel"
  "nested bare_kernel = nested pair_kernel" "idle_thread bare_kernel = idle_thread pair_kernel" "ktimers bare_kernel = example_timers"
  by (simp_all add: bare_kernel_def kernel.extend_def)

lemma pair_timeouts [simp]: "timeouts pair_kernel = timeouts boot_kernel" "timeout_q pair_kernel = []"
  by (simp_all add: pair_kernel_def ready_thread_frame)

lemma timer_kernel_inv:
  "kinv {} timer_kernel" "timer_inv timer_kernel" "settled timer_kernel" "remaining timer_kernel = []"
  "delta timer_kernel (TimerTO 7) = INACTIVE"
proof -
  have k: "kinv {} bare_kernel" by (simp add: bare_kernel_def extend_kinv sched_okD(1) [OF pair_sched_ok])
  show "kinv {} timer_kernel"
    unfolding timer_kernel_def using k by (intro init_timer_kinv) (simp_all add: pair_current)
  have q: "queues bare_kernel (WaitQ (timer_wait_q (ktimers bare_kernel 7))) = []" by (simp add: pair_current)
  note e = k_timer_init_steps [OF q, of None None, folded timer_kernel_def]
  show "timer_inv timer_kernel" by (simp add: timer_inv_def e init_timeout_def upd_timeout_def pair_current)
  show "settled timer_kernel" "remaining timer_kernel = []" "delta timer_kernel (TimerTO 7) = INACTIVE"
    by (simp_all add: settled_def remaining_def e init_timeout_def upd_timeout_def INACTIVE_def EXPIRED_def)
qed

theorem k_timer_start_counts_witness:
  "k_timer_remaining_get 7 (k_timer_start (\<lambda>f i k. k) 7 25 40 timer_kernel) = Some 30"
  using k_timer_start_counts [OF timer_kernel_inv(1-3), of 7 25 "\<lambda>f i k. k" 40]
  by (simp add: timer_kernel_inv INACTIVE_def EXPIRED_def Let_def)

text \<open>
  A duration near the largest 32-bit number is rounded up to more milliseconds than fit in
  the result: the remaining time of a timer that was just started is negative.
\<close>

lemma k_timer_remaining_negative:
  "k_timer_remaining_get 7 (k_timer_start (\<lambda>f i k. k) 7 2147483647 0 timer_kernel) = Some (- 2147483646)"
  by code_simp

text \<open>The first thread waits for a timer, which then expires.\<close>

definition started_kernel :: tkernel where
  "started_kernel = k_timer_start (\<lambda>f i k. k) 7 10 40 timer_kernel"

definition waiting_kernel :: tkernel where
  "waiting_kernel = snd (k_timer_status_sync 7 started_kernel)"

lemma started_kernel_inv:
  "kinv {} started_kernel" "timer_inv started_kernel" "settled started_kernel"
  "remaining started_kernel = [(TimerTO 7, 1)]" "is_thread_ready started_kernel (current started_kernel)"
proof -
  have n: "0 < ms_to_ticks 10" "ms_to_ticks 10 = 1" using ms_to_ticks_ceiling [of 10] by simp_all
  note s = k_timer_start_inv [OF timer_kernel_inv(1-3), of 7 10 "\<lambda>f i k. k" 40, folded started_kernel_def]
  show "kinv {} started_kernel" "timer_inv started_kernel" "settled started_kernel"
    "remaining started_kernel = [(TimerTO 7, 1)]"
    using s n quietD(1,2) [OF s(1)] by (simp_all add: timer_kernel_inv INACTIVE_def EXPIRED_def expiry_insert_def)
  show "is_thread_ready started_kernel (current started_kernel)" by code_simp
qed

lemma waiting_kernel_inv:
  "sched_ok waiting_kernel" "timer_inv waiting_kernel" "queues waiting_kernel (WaitQ 7) = [2]"
  "timeout_q waiting_kernel = [TimerTO 7]" "delta waiting_kernel (TimerTO 7) = 1"
  "remaining waiting_kernel = [(TimerTO 7, 1)]" "\<not> handling_timeouts waiting_kernel"
  "plain_timers waiting_kernel" "own_queues waiting_kernel"
proof -
  have "current started_kernel \<noteq> idle_thread started_kernel" "status (ktimers started_kernel 7) = 0"
    "delta started_kernel (TimerTO 7) \<noteq> INACTIVE" by code_simp+
  note b = status_sync_blocks [OF started_kernel_inv(1-3,5) this, folded waiting_kernel_def]
  show "sched_ok waiting_kernel" "timer_inv waiting_kernel" by (fact b)+
  have q: "queues bare_kernel (WaitQ (timer_wait_q (ktimers bare_kernel 7))) = []" by (simp add: pair_current)
  have "ktimers timer_kernel i = example_timers i" for i
    unfolding k_timer_init_steps [OF q, of None None, folded timer_kernel_def]
    by (simp add: init_timeout_def upd_timeout_def) (simp add: upd_timer_def example_timers_def)
  moreover have "ktimers started_kernel = (ktimers timer_kernel)(7 := (ktimers timer_kernel 7)\<lparr>period := 4, status := 0\<rparr>)"
    using k_timer_start_inv(4) [OF timer_kernel_inv(1-3), of 7 10 "\<lambda>f i k. k" 40, folded started_kernel_def]
      ms_to_ticks_ceiling [of 10] ms_to_ticks_ceiling [of 40] by (simp add: timer_kernel_inv INACTIVE_def EXPIRED_def)
  ultimately have "expiry_fn (ktimers waiting_kernel i) = None \<and> timer_wait_q (ktimers waiting_kernel i) = i" for i
    by (simp add: b(4) example_timers_def)
  then show "plain_timers waiting_kernel" "own_queues waiting_kernel" by (simp_all add: plain_timers_def own_queues_def)
  show "queues waiting_kernel (WaitQ 7) = [2]" "timeout_q waiting_kernel = [TimerTO 7]"
    "delta waiting_kernel (TimerTO 7) = 1" "remaining waiting_kernel = [(TimerTO 7, 1)]"
    "\<not> handling_timeouts waiting_kernel"
    by code_simp+
qed

section \<open>Expired timers\<close>

text \<open>The threads that wait for a timer, and what the expiry of a timeout adds to the times that remain.\<close>

definition waiting :: "'a tkernel_scheme \<Rightarrow> nat \<Rightarrow> tid list" where
  "waiting k i = queues k (WaitQ (timer_wait_q (ktimers k i)))"

definition rearmed :: "(nat \<Rightarrow> k_timer) \<Rightarrow> toref \<Rightarrow> (toref \<times> int) list \<Rightarrow> (toref \<times> int) list" where
  "rearmed T r xs =
     (case r of TimerTO i \<Rightarrow> if 0 < period (T i) then expiry_insert (TimerTO i) (period (T i)) xs else xs | _ \<Rightarrow> xs)"

text \<open>
  The timeouts \<open>rs\<close> have been handled between \<open>k\<close> and \<open>k'\<close>: the status of every timer among them is one higher and its
  other fields and the other timers are as before, those with a period are armed again, one after the other, and the first
  thread that waited for each is off its queue with the result 0 and, unless suspended or dead, ready.
\<close>

definition fired :: "toref list \<Rightarrow> 'a tkernel_scheme \<Rightarrow> 'a tkernel_scheme \<Rightarrow> bool" where
  "fired rs k k' \<longleftrightarrow>
     (\<forall>i. ktimers k' i = (ktimers k i)\<lparr>status := status (ktimers k i) + (if TimerTO i \<in> set rs then 1 else 0)\<rparr>) \<and>
     remaining k' = fold (rearmed (ktimers k)) rs (remaining k) \<and>
     (\<forall>i. waiting k' i = (if TimerTO i \<in> set rs then tl (waiting k i) else waiting k i)) \<and>
     (\<forall>i. TimerTO i \<in> set rs \<and> waiting k i \<noteq> [] \<longrightarrow> swap_retval (threads k' (hd (waiting k i))) = 0 \<and>
        (\<not> st k (hd (waiting k i)) 0 \<and> \<not> st k (hd (waiting k i)) 3 \<and> \<not> st k (hd (waiting k i)) 4 \<longrightarrow>
           is_thread_ready k' (hd (waiting k i))))"

text \<open>The results of threads that wait for none of the timers are left alone.\<close>

definition results_kept :: "toref list \<Rightarrow> 'a tkernel_scheme \<Rightarrow> 'a tkernel_scheme \<Rightarrow> bool" where
  "results_kept rs k k' \<longleftrightarrow> (\<forall>t. (\<forall>i. TimerTO i \<in> set rs \<longrightarrow> t \<notin> set (waiting k i)) \<longrightarrow>
     swap_retval (threads k' t) = swap_retval (threads k t))"

text \<open>A timeout on the queue is one of a thread or one that was initialised for a timer.\<close>

definition known :: "'a tkernel_scheme \<Rightarrow> toref \<Rightarrow> bool" where
  "known k r \<longleftrightarrow> (\<exists>t. r = ThreadTO t) \<or>
     (\<exists>i. r = TimerTO i \<and> to_thread (timeouts k r) = None \<and> to_func (timeouts k r) = Some TIMER_HANDLER)"

lemma ready_retval [simp]:
  "swap_retval (threads (ready_thread t k) u) = swap_retval (threads k u)"
  "swap_retval (threads (unpend_thread t k) u) = swap_retval (threads k u)"
  by (simp_all add: ready_thread_def Let_def mark_thread_as_started_def unpend_thread_def mark_thread_as_not_pending_def
      reset_thread_states_def queue_remove_def upd_thread_def)

lemma timer_wake_others:
  assumes k: "kinv {} k" and j: "timer_wait_q (ktimers k j) \<noteq> timer_wait_q (ktimers k i)"
  shows "queues (timer_wake i k) (WaitQ (timer_wait_q (ktimers k j))) = queues k (WaitQ (timer_wait_q (ktimers k j)))"
proof (cases "queues k (WaitQ (timer_wait_q (ktimers k i)))")
  case (Cons t ts)
  then have "t \<notin> set (queues k (WaitQ (timer_wait_q (ktimers k j))))" using kinv_wait_unique [OF k, of t] j by force
  then show ?thesis by (simp add: timer_wake_def Cons ready_thread_frame remove1_idem)
qed (simp add: timer_wake_def)

lemma timer_wake_waiting:
  assumes k: "kinv {} k" "timer_inv k" "own_queues k"
  shows "waiting (timer_wake i k) j = (if j = i then tl (waiting k i) else waiting k j)"
proof (cases "j = i")
  case False
  then have "timer_wait_q (ktimers k j) \<noteq> timer_wait_q (ktimers k i)" using k(3) by (auto simp: own_queues_def)
  with False show ?thesis by (simp add: waiting_def timer_wake_spec(5) [OF k(1,2)] timer_wake_others [OF k(1)])
qed (simp add: waiting_def timer_wake_spec(2,5) [OF k(1,2)])

lemma timer_wake_retval:
  "t \<notin> set (queues k (WaitQ (timer_wait_q (ktimers k i)))) \<Longrightarrow>
   swap_retval (threads (timer_wake i k) t) = swap_retval (threads k t)"
  by (auto simp: timer_wake_def set_thread_return_value_def upd_thread_def split: list.split)

lemma timer_fires:
  fixes fns :: "nat \<Rightarrow> nat \<Rightarrow> 'a tkernel_scheme \<Rightarrow> 'a tkernel_scheme"
  assumes k: "kinv {} k" "timer_inv k" "plain_timers k" "own_queues k" and e: "delta k (TimerTO i) = EXPIRED"
    and l: "known k (TimerTO i)"
  defines "k' \<equiv> handle_one_expired_timeout (timer_call fns) (TimerTO i) k"
  shows "fired [TimerTO i] k k'" "results_kept [TimerTO i] k k'"
proof -
  let ?k1 = "set_delta (TimerTO i) INACTIVE k"
  let ?k2 = "upd_timer i (status_update (\<lambda>s. s + 1)) (timer_rearm i ?k1)"
  have th: "\<forall>t. TimerTO i \<noteq> ThreadTO t" by simp
  have h: "to_handle k (TimerTO i)" using e l by (simp add: to_handle_def known_def)
  have tm1: "ktimers ?k1 = ktimers k" by (rule ktimers_more) simp
  have k1: "kinv {} ?k1" "delta ?k1 (TimerTO i) = INACTIVE" using set_delta_object_kinv [OF k(1) e] by simp_all
  have i1: "timer_inv ?k1" by (rule timer_inv_mono [OF k(2)]) simp_all
  have "TimerTO i \<notin> set (timeout_q k)" using e by (simp add: delta_inv_cases [OF kinvD(3) [OF k(1)]])
  then have rem: "remaining ?k1 = remaining k" by (simp add: remaining_def set_delta_def)
  note ra = timer_rearm_spec [OF k1(1) i1 k1(2)]
  have q2: "kinv {} ?k2" "timer_inv ?k2" using quietD(1,2) [OF ra(1)] by simp_all
  have e': "k' = timer_wake i ?k2"
    using l k(3) by (simp add: k'_def known_def plain_timers_def handle_object_eq [OF h th] timer_call_def timer_handler_steps Let_def ra(6) tm1)
  have "timer_wait_q (ktimers ?k2 j) = timer_wait_q (ktimers k j)" for j by (simp add: ra(6) tm1)
  then have o2: "own_queues ?k2" using k(4) by (simp only: own_queues_def)
  note w = timer_wake_spec [OF q2, of i]
  have w2: "waiting ?k2 j = waiting k j" "threads ?k2 = threads k" for j by (simp_all add: waiting_def ra tm1)
  have q: "waiting k' j = (if j = i then tl (waiting k i) else waiting k j)" for j
    unfolding e' using timer_wake_waiting [OF q2 o2] by (simp add: w2(1))
  have t: "ktimers k' j = (ktimers k j)\<lparr>status := status (ktimers k j) + (if j = i then 1 else 0)\<rparr>" for j
    unfolding e' w(5) by (simp add: ra(6) tm1)
  have r: "remaining k' = rearmed (ktimers k) (TimerTO i) (remaining k)"
    unfolding e' w(4) by (simp add: ra(2) rem tm1 rearmed_def)
  have ne: "queues ?k2 (WaitQ (timer_wait_q (ktimers ?k2 i))) = waiting k i" using w2(1) [of i] by (simp add: waiting_def)
  note b = w(1,3) [unfolded ne w2(2), folded e']
  show "fired [TimerTO i] k k'" unfolding fired_def using b q t r by simp
  show "results_kept [TimerTO i] k k'"
    using timer_wake_retval [of _ ?k2 i] w2(1) [of i] by (simp add: results_kept_def e' waiting_def ra(4))
qed

lemma thread_fires:
  fixes fns :: "nat \<Rightarrow> nat \<Rightarrow> 'a tkernel_scheme \<Rightarrow> 'a tkernel_scheme"
  assumes k: "kinv {} k" "timer_inv k" and e: "delta k (ThreadTO t) = EXPIRED"
  defines "k' \<equiv> handle_one_expired_timeout (timer_call fns) (ThreadTO t) k"
  shows "fired [ThreadTO t] k k'" "results_kept [ThreadTO t] k k'"
proof -
  have tm: "ktimers k' = ktimers k" unfolding k'_def by (rule ktimers_more) (rule handle_thread_objects(1) [OF k(1) e])
  have q: "timeout_q k' = timeout_q k" "delta k' x = (if x = ThreadTO t then INACTIVE else delta k x)" for x
    unfolding k'_def by (fact handle_thread_queue [OF k(1) e])+
  have "ThreadTO t \<notin> set (timeout_q k)" using e by (simp add: delta_inv_cases [OF kinvD(3) [OF k(1)]])
  then have r: "remaining k' = remaining k"
    unfolding remaining_def q(1) using q(2) by (intro expiries_cong) auto
  have "t \<notin> set (waiting k i)" for i using k(2) e by (auto simp: timer_inv_def waiting_def EXPIRED_def INACTIVE_def)
  moreover have "queues k' (WaitQ v) = queues k (WaitQ v)" if "t \<notin> set (queues k (WaitQ v))" for v
    using that unfolding k'_def handle_thread_eq [OF k(1) e]
    by (simp add: ready_thread_frame unpend_thread_timing_out_def remove1_idem)
  ultimately have w: "waiting k' i = waiting k i" for i by (simp add: waiting_def tm)
  show "fired [ThreadTO t] k k'" by (simp add: fired_def tm r rearmed_def w)
  show "results_kept [ThreadTO t] k k'"
    unfolding k'_def handle_thread_eq [OF k(1) e] by (simp add: results_kept_def unpend_thread_timing_out_def)
qed


lemma firedD:
  assumes "fired rs k k'"
  shows "ktimers k' i = (ktimers k i)\<lparr>status := status (ktimers k i) + (if TimerTO i \<in> set rs then 1 else 0)\<rparr>"
    "remaining k' = fold (rearmed (ktimers k)) rs (remaining k)"
    "waiting k' i = (if TimerTO i \<in> set rs then tl (waiting k i) else waiting k i)"
    "TimerTO i \<in> set rs \<Longrightarrow> waiting k i \<noteq> [] \<Longrightarrow> swap_retval (threads k' (hd (waiting k i))) = 0"
    "TimerTO i \<in> set rs \<Longrightarrow> waiting k i \<noteq> [] \<Longrightarrow> \<not> st k (hd (waiting k i)) 0 \<Longrightarrow> \<not> st k (hd (waiting k i)) 3 \<Longrightarrow>
      \<not> st k (hd (waiting k i)) 4 \<Longrightarrow> is_thread_ready k' (hd (waiting k i))"
  using assms unfolding fired_def by blast+

lemma results_kept_Cons:
  assumes "fired [r] k k1" "results_kept [r] k k1" "results_kept rs k1 k'"
  shows "results_kept (r # rs) k k'"
proof -
  have "set (waiting k1 i) \<subseteq> set (waiting k i)" for i
    unfolding firedD(3) [OF assms(1)] by (cases "waiting k i") auto
  then show ?thesis using assms(2,3) unfolding results_kept_def by (metis (no_types) list.set_intros subsetD empty_iff empty_set set_ConsD)
qed

lemma fired_Cons:
  assumes k: "kinv {} k" "own_queues k" and f1: "fired [r] k k1" and f2: "fired rs k1 k'" "results_kept rs k1 k'"
    and d: "r \<notin> set rs" and s: "\<And>u n. n = 0 \<or> n = 3 \<or> n = 4 \<Longrightarrow> st k1 u n = st k u n"
    and rd: "\<And>u. is_thread_ready k1 u \<Longrightarrow> is_thread_ready k' u"
  shows "fired (r # rs) k k'"
proof -
  note a = firedD [OF f1] and b = firedD [OF f2(1)]
  have re: "rearmed (ktimers k1) = rearmed (ktimers k)"
    by (intro ext) (simp add: rearmed_def a(1) split: toref.split)
  have ap: "t \<notin> set (waiting k j)" if "t \<in> set (waiting k i)" "j \<noteq> i" for t i j
    using that kinv_wait_unique [OF k(1), of t] k(2) by (auto simp: waiting_def own_queues_def)
  have now: "swap_retval (threads k' t) = 0 \<and> (\<not> st k t 0 \<and> \<not> st k t 3 \<and> \<not> st k t 4 \<longrightarrow> is_thread_ready k' t)"
    if r: "r = TimerTO i" and ne: "waiting k i \<noteq> []" and t: "t = hd (waiting k i)" for i t
  proof -
    have "t \<notin> set (waiting k1 j)" if "TimerTO j \<in> set rs" for j
      using that d r ne ap [of t i j] a(3) [of j] by (auto simp: t)
    then have "swap_retval (threads k' t) = swap_retval (threads k1 t)" using f2(2) by (simp add: results_kept_def)
    with a(4,5) [of i] r ne t rd show ?thesis by auto
  qed
  have later: "swap_retval (threads k' t) = 0 \<and> (\<not> st k t 0 \<and> \<not> st k t 3 \<and> \<not> st k t 4 \<longrightarrow> is_thread_ready k' t)"
    if r: "TimerTO i \<in> set rs" and ne: "waiting k i \<noteq> []" and t: "t = hd (waiting k i)" for i t
  proof -
    have "waiting k1 i = waiting k i" using a(3) [of i] r d by auto
    with b(4,5) [of i] r ne t s show ?thesis by auto
  qed
  have "ktimers k' i = (ktimers k i)\<lparr>status := status (ktimers k i) + (if TimerTO i \<in> set (r # rs) then 1 else 0)\<rparr>" for i
    using b(1) [of i] a(1) [of i] d by auto
  moreover have "waiting k' i = (if TimerTO i \<in> set (r # rs) then tl (waiting k i) else waiting k i)" for i
    using b(3) [of i] a(3) [of i] d by auto
  ultimately show ?thesis using b(2) a(2) now later unfolding fired_def by (auto simp: re)
qed

lemma handle_expired_fires:
  fixes fns :: "nat \<Rightarrow> nat \<Rightarrow> 'a tkernel_scheme \<Rightarrow> 'a tkernel_scheme"
  assumes "kinv {} k" "timer_inv k" "plain_timers k" "own_queues k" "\<forall>r \<in> set rs. delta k r = EXPIRED \<and> known k r" "distinct rs"
  shows "fired rs k (handle_expired_timeouts (timer_call fns) rs k) \<and> results_kept rs k (handle_expired_timeouts (timer_call fns) rs k)"
  using assms
proof (induction rs arbitrary: k)
  case Nil
  then show ?case by (simp add: fired_def results_kept_def)
next
  case (Cons r rs)
  let ?k1 = "handle_one_expired_timeout (timer_call fns) r k"
  have th: "to_handle k x" if "x \<in> set (r # rs)" for x using that Cons.prems(5) by (auto simp: to_handle_def known_def)
  then have r: "to_handle k r" by simp
  have i: "timer_inv k \<and> plain_timers k" using Cons.prems by simp
  note inv = timer_cb.handle_one_inv [OF Cons.prems(1) i r, of fns] and fr = timer_cb.handle_one_frame [OF Cons.prems(1) i r, where fns = fns]
  have f1: "fired [r] k ?k1" "results_kept [r] k ?k1"
    using Cons.prems(5) timer_fires [OF Cons.prems(1-4)] thread_fires [OF Cons.prems(1,2)] by (auto simp: known_def)
  have "timer_wait_q (ktimers ?k1 j) = timer_wait_q (ktimers k j)" for j unfolding firedD(1) [OF f1(1)] by simp
  then have o1: "own_queues ?k1" using Cons.prems(4) by (simp only: own_queues_def)
  have rs: "\<forall>x \<in> set rs. delta ?k1 x = EXPIRED \<and> known ?k1 x"
  proof
    fix x assume x: "x \<in> set rs"
    then have "x \<noteq> r" "delta k x = EXPIRED" "known k x" using Cons.prems by auto
    then show "delta ?k1 x = EXPIRED \<and> known ?k1 x" using fr(3) by (simp add: known_def)
  qed
  have d: "distinct rs" "r \<notin> set rs" using Cons.prems(6) by simp_all
  have f2: "fired rs ?k1 (handle_expired_timeouts (timer_call fns) rs ?k1)"
    "results_kept rs ?k1 (handle_expired_timeouts (timer_call fns) rs ?k1)"
    using Cons.IH [OF inv(1) _ _ o1 rs d(1)] inv(2) by simp_all
  have "\<forall>x \<in> set rs. to_handle ?k1 x" using rs by (auto simp: to_handle_def known_def)
  then have rd: "is_thread_ready ?k1 u \<Longrightarrow> is_thread_ready (handle_expired_timeouts (timer_call fns) rs ?k1) u" for u
    using timer_cb.handle_expired_spec [OF inv(1,2), where rs = rs and u = u] d(1) by simp
  show ?case
    using fired_Cons [OF Cons.prems(1,4) f1(1) f2 d(2) fr(4) rd] results_kept_Cons [OF f1 f2(2)] by simp
qed

text \<open>What a tick does to the timers, in terms of the times that remained.\<close>

definition ticked :: "int \<Rightarrow> 'a tkernel_scheme \<Rightarrow> 'a tkernel_scheme \<Rightarrow> bool" where
  "ticked ticks k k' \<longleftrightarrow>
     (let rs = rev (due ticks (remaining k)) in
      (\<forall>i. ktimers k' i = (ktimers k i)\<lparr>status := status (ktimers k i) + (if TimerTO i \<in> set rs then 1 else 0)\<rparr>) \<and>
      remaining k' = fold (rearmed (ktimers k)) rs (not_due ticks (remaining k)) \<and>
      (\<forall>i. waiting k' i = (if TimerTO i \<in> set rs then tl (waiting k i) else waiting k i)) \<and>
      (\<forall>i. TimerTO i \<in> set rs \<and> waiting k i \<noteq> [] \<longrightarrow> swap_retval (threads k' (hd (waiting k i))) = 0 \<and>
         (\<not> st k (hd (waiting k i)) 0 \<and> \<not> st k (hd (waiting k i)) 3 \<and> \<not> st k (hd (waiting k i)) 4 \<longrightarrow>
            is_thread_ready k' (hd (waiting k i)))))"

lemma ticked_cong:
  assumes "ticked ticks k k1" "ktimers k' = ktimers k1" "remaining k' = remaining k1" "\<And>i. waiting k' i = waiting k1 i"
    "\<And>u. swap_retval (threads k' u) = swap_retval (threads k1 u)" "\<And>u. is_thread_ready k' u \<longleftrightarrow> is_thread_ready k1 u"
  shows "ticked ticks k k'"
  using assms(1) unfolding ticked_def Let_def assms(2-) .

lemma ticked_clock: "ticked ticks (k\<lparr>sys_clock_tick_count := c\<rparr>) k' = ticked ticks k k'"
proof -
  have "waiting (k\<lparr>sys_clock_tick_count := c\<rparr>) = waiting k" "remaining (k\<lparr>sys_clock_tick_count := c\<rparr>) = remaining k"
    by (simp_all add: fun_eq_iff waiting_def remaining_def)
  then show ?thesis by (simp add: ticked_def)
qed

lemma handle_timeouts_ticked:
  fixes fns :: "nat \<Rightarrow> nat \<Rightarrow> 'a tkernel_scheme \<Rightarrow> 'a tkernel_scheme"
  assumes k: "kinv {} k" "timer_inv k" "plain_timers k" "own_queues k"
    and t: "0 \<le> ticks" "timeout_q k \<noteq> [] \<longrightarrow> ticks \<le> delta k (hd (timeout_q k))" and o: "\<forall>r \<in> set (timeout_q k). known k r"
  shows "ticked ticks k (handle_timeouts (timer_call fns) ticks k)"
proof (cases "timeout_q k = []")
  case True
  then show ?thesis by (simp add: handle_timeouts_def remaining_def due_def not_due_def advance_def ticked_def)
next
  case False
  let ?k = "snd (dequeued ticks k)" and ?rs = "rev (due ticks (remaining k))"
  let ?h = "handle_expired_timeouts (timer_call fns) ?rs ?k"
  have t2: "ticks \<le> delta k (hd (timeout_q k))" using t False by simp
  note dq = dequeued_kinv [OF k(1) False t(1) t2] and fr = dequeued_frame [OF k(1) False t(1) t2]
  note ad = after_due_simps [OF kinvD(3) [OF k(1)] False t(1) t2]
  obtain rs where e: "dequeued ticks k = (?rs, k\<lparr>handling_timeouts := True, timeout_q := rs, timeouts := after_due ticks k\<rparr>)"
    and q: "timeout_q k = due ticks (remaining k) @ rs"
    using dequeued_spec [OF kinvD(3) [OF k(1)] False t(1) t2] by metis
  have tm: "ktimers ?k = ktimers k" by (rule ktimers_more) (rule fr(4))
  have "timer_inv ?k" by (rule timer_inv_mono [OF k(2) fr(4)]) (simp_all add: fr(5,8))
  moreover have "plain_timers ?k" "own_queues ?k" using k(3,4) by (simp_all add: plain_timers_def own_queues_def tm)
  moreover have "\<forall>r \<in> set ?rs. delta ?k r = EXPIRED \<and> known ?k r"
    using dq(3) o q by (auto simp: known_def e ad)
  ultimately have f: "fired ?rs ?k ?h" using handle_expired_fires [OF dq(1), of ?rs fns] dq(5) by simp
  have w: "waiting ?k i = waiting k i" for i by (simp add: waiting_def fr(5) tm)
  have "ticked ticks k ?h"
    using f unfolding fired_def ticked_def Let_def w tm fr(2) dq(4) .
  then show ?thesis
    by (rule ticked_cong) (use False in \<open>simp_all add: handle_timeouts_dequeued dq(2) remaining_def waiting_def is_thread_ready_iff\<close>)
qed

lemma time_slicing_waits:
  assumes "kinv {} k" "is_thread_ready k (current k)"
  shows "queues (handle_time_slicing ticks k) (WaitQ w) = queues k (WaitQ w)"
  using move_wait_queues [of "{}" "k\<lparr>time_slice_elapsed := 0\<rparr>" "current k" w] assms
  by (simp add: handle_time_slicing_def Let_def is_thread_ready_iff)

text \<open>
  C18. Announcing ticks in a kernel whose timers have no expiry function. The ticks are at most those to the next expiry,
  every timeout on the queue is one of a thread or of an initialised timer, and every timer has its own wait queue. Every
  timer that expires, and no other, has its status one higher. Of the timeouts, those whose time had not come have that
  many ticks less to go, and the expired timers with a period, no others, are among them again one period ahead. The first
  thread that waits for each expired timer is taken off its wait queue, its wait returns 0 and it is ready unless
  suspended or dead; the other waiters stay. Threads whose own timeout expired are ready unless suspended or dead, ready
  threads stay ready and the running thread is the same. The invariants hold again and no timeout is left half handled.
\<close>

theorem tick_announce_timers:
  fixes fns :: "nat \<Rightarrow> nat \<Rightarrow> 'a tkernel_scheme \<Rightarrow> 'a tkernel_scheme"
  assumes k: "sched_ok k" "timer_inv k" "plain_timers k" "own_queues k" "\<not> handling_timeouts k"
    and t: "0 \<le> ticks" "timeout_q k \<noteq> [] \<longrightarrow> ticks \<le> get_next_timeout_expiry k"
    and o: "\<forall>r \<in> set (timeout_q k). known k r"
  shows "let k' = nano_sys_clock_tick_announce (timer_call fns) ticks k in
    kinv {} k' \<and> timer_inv k' \<and> settled k' \<and> current k' = current k \<and> ticked ticks k k' \<and>
    (\<forall>u. is_thread_ready k u \<longrightarrow> is_thread_ready k' u) \<and>
    (\<forall>u. ThreadTO u \<in> set (due ticks (remaining k)) \<and> \<not> st k u 0 \<and> \<not> st k u 3 \<and> \<not> st k u 4 \<longrightarrow>
      is_thread_ready k' u)"
proof -
  let ?k1 = "k\<lparr>sys_clock_tick_count := sys_clock_tick_count k + word_of_int ticks\<rparr>"
  let ?k2 = "handle_timeouts (timer_call fns) ticks ?k1"
  let ?k' = "nano_sys_clock_tick_announce (timer_call fns) ticks k"
  note s = sched_okD [OF k(1)]
  have i: "timer_inv k \<and> plain_timers k" using k(2,3) by simp
  have t2: "timeout_q k \<noteq> [] \<longrightarrow> ticks \<le> delta k (hd (timeout_q k))"
    using t(2) by (cases "timeout_q k") (simp_all add: get_next_timeout_expiry_def)
  have o2: "\<forall>r \<in> set (timeout_q k). (\<forall>t. r \<noteq> ThreadTO t) \<longrightarrow> to_thread (timeouts k r) = None"
    using o by (auto simp: known_def)
  note an = timer_cb.announce_inv [OF s(1) i s(2) t(1) t2 o2, where fns = fns]
  have k1: "kinv {} ?k1" "timer_inv ?k1" "plain_timers ?k1" "own_queues ?k1"
    using s(1) k(2-4) by (simp_all add: timer_inv_def plain_timers_def own_queues_def)
  have "ticked ticks ?k1 ?k2"
    using t(1) t2 o by (intro handle_timeouts_ticked [OF k1]) (simp_all add: known_def)
  then have t1: "ticked ticks k ?k2" by (simp only: ticked_clock)
  have e: "?k' = handle_time_slicing ticks ?k2" by (simp add: nano_sys_clock_tick_announce_def Let_def)
  have i1: "timer_inv ?k1 \<and> plain_timers ?k1" using k1 by simp
  have t3: "timeout_q ?k1 \<noteq> [] \<longrightarrow> ticks \<le> delta ?k1 (hd (timeout_q ?k1))"
    "\<forall>r \<in> set (timeout_q ?k1). (\<forall>t. r \<noteq> ThreadTO t) \<longrightarrow> to_thread (timeouts ?k1 r) = None" using t2 o2 by simp_all
  note h = timer_cb.handle_timeouts_spec [OF k1(1) i1 t(1) t3, where fns = fns]
  have c2: "is_thread_ready ?k2 (current ?k2)" using h(3) h(4) [of "current k"] s(2) by (simp add: is_thread_ready_iff)
  note sl = handle_time_slicing_spec [OF h(1) c2]
  have tm: "ktimers ?k' = ktimers ?k2" unfolding e by (rule ktimers_more) (simp add: handle_time_slicing_def Let_def)
  have "ticked ticks k ?k'"
    by (rule ticked_cong [OF t1 tm]) (simp_all add: waiting_def tm, simp_all add: e sl time_slicing_waits [OF h(1) c2],
      simp add: handle_time_slicing_def Let_def)
  then show ?thesis using an k(5) s(4) by (simp add: Let_def)
qed

theorem tick_announce_timers_witness:
  "let k' = nano_sys_clock_tick_announce (timer_call (\<lambda>f i k. k)) 1 waiting_kernel in
    status (ktimers k' 7) = 1 \<and> remaining k' = [(TimerTO 7, 4)] \<and> is_thread_ready k' 2 \<and> swap_retval (threads k' 2) = 0"
proof -
  have f: "get_next_timeout_expiry waiting_kernel = 1" "to_thread (timeouts waiting_kernel (TimerTO 7)) = None"
    "to_func (timeouts waiting_kernel (TimerTO 7)) = Some TIMER_HANDLER" "waiting waiting_kernel 7 = [2]"
    "\<not> st waiting_kernel 2 0" "\<not> st waiting_kernel 2 3" "\<not> st waiting_kernel 2 4"
    "status (ktimers waiting_kernel 7) = 0" "period (ktimers waiting_kernel 7) = 4"
    by code_simp+
  from tick_announce_timers [OF waiting_kernel_inv(1,2,8,9), of 1 "\<lambda>f i k. k"] f show ?thesis
    by (simp add: waiting_kernel_inv Let_def ticked_def due_def not_due_def advance_def rearmed_def expiry_insert_def
        known_def)
qed

text \<open>
  Stopping a running timer takes it off the timeouts and leaves the others as they
  were, makes the first thread that waits for it ready, and reschedules; stopping a timer
  that does not run changes nothing.
\<close>

theorem k_timer_stop_releases:
  assumes k: "sched_ok k" "timer_inv k" "\<not> handling_timeouts k" "\<not> is_in_isr k"
    and e: "delta k (TimerTO i) \<noteq> EXPIRED" and f: "stop_fn (ktimers k i) = None"
  shows "let k' = k_timer_stop fns i k; waiting = queues k (WaitQ (timer_wait_q (ktimers k i))) in
    if delta k (TimerTO i) = INACTIVE then k' = k
    else sched_ok k' \<and> timer_inv k' \<and> delta k' (TimerTO i) = INACTIVE \<and>
      remaining k' = filter (\<lambda>(x, _). x \<noteq> TimerTO i) (remaining k) \<and>
      (\<forall>u. is_thread_ready k' u \<longleftrightarrow> is_thread_ready k u \<or>
         waiting \<noteq> [] \<and> u = hd waiting \<and> \<not> st k u 0 \<and> \<not> st k u 3 \<and> \<not> st k u 4)"
proof (cases "delta k (TimerTO i) = INACTIVE")
  case True
  then show ?thesis by (simp add: k_timer_stop_def abort_timeout_inactive)
next
  case False
  let ?k1 = "snd (abort_timeout (TimerTO i) k)" and ?w = "timer_wait_q (ktimers k i)"
  note s = sched_okD [OF k(1)]
  have r: "fst (abort_timeout (TimerTO i) k) \<noteq> INACTIVE" using False by (simp add: abort_timeout_def Let_def INACTIVE_def)
  have tq: "TimerTO i \<in> set (timeout_q k)" using False e by (simp add: delta_inv_cases [OF kinvD(3) [OF s(1)]])
  have m: "ktimers ?k1 = ktimers k" by (rule ktimers_more) (simp add: abort_timeout_frame)
  note q1 = abort_timer_quiet [OF s(1) k(2) e]
  have h1: "\<not> handling_timeouts ?k1" "queues ?k1 = queues k" "current ?k1 = current k" using k(3) by (simp_all add: abort_timeout_frame)
  have st1: "st ?k1 u n \<longleftrightarrow> st k u n" for u n by (simp add: abort_timeout_frame)
  have rd1: "is_thread_ready ?k1 u \<longleftrightarrow> is_thread_ready k u" for u
    by (rule abort_object_timeout_kinv(3) [OF s(1) _ e]) simp
  define k4 where "k4 = (case queues k (WaitQ ?w) of [] \<Rightarrow> ?k1 | t # _ \<Rightarrow> ready_thread t (unpend_thread t ?k1))"
  have "k_timer_stop fns i k = (if is_in_isr k4 then k4 else reschedule_threads k4)"
    using r f h1 unfolding k_timer_stop_def k4_def
    by (simp add: case_prod_unfold Let_def m unpend_first_head split: list.split)
  moreover have "\<not> is_in_isr k4"
    using k(4) by (simp add: k4_def is_in_isr_def ready_thread_frame abort_timeout_frame split: list.split)
  ultimately have e': "k_timer_stop fns i k = reschedule_threads k4" by simp
  have q4: "quiet ?k1 k4 \<and> (\<forall>u. is_thread_ready k4 u \<longleftrightarrow> is_thread_ready k u \<or>
      queues k (WaitQ ?w) \<noteq> [] \<and> u = hd (queues k (WaitQ ?w)) \<and> \<not> st k u 0 \<and> \<not> st k u 3 \<and> \<not> st k u 4)"
  proof (cases "queues k (WaitQ ?w)")
    case Nil
    then show ?thesis using quiet_refl [OF quietD(1,2) [OF q1]] by (simp add: k4_def rd1)
  next
    case (Cons t ts)
    then have t: "t \<in> set (queues ?k1 (WaitQ (timer_wait_q (ktimers ?k1 i))))" by (simp add: h1 m)
    have "\<not> is_thread_ready k t" using kinv_waiting [OF s(1), of t ?w] Cons by (simp add: is_thread_ready_iff)
    then show ?thesis
      using wake_waiter_quiet [OF quietD(1,2) [OF q1] t] Cons by (auto simp: k4_def rd1 st1)
  qed
  have k4: "remaining k4 = remaining ?k1" "delta k4 (TimerTO i) = INACTIVE" "handling_timeouts k4 = handling_timeouts k"
    "is_thread_ready k4 (current k4)"
    using q4 s(2) quietD(3) [of ?k1 k4] by (auto simp: k4_def remaining_def ready_thread_frame abort_timeout_frame
        abort_timeout_delta h1 split: list.split)
  have st4: "settled k4"
    using s(4) k(3) k4(3) quietD(5) [of ?k1 k4] q4 quietD(5) [OF q1] by (auto simp: settled_def)
  have re: "timeouts (reschedule_threads k4) = timeouts k4" "remaining (reschedule_threads k4) = remaining k4"
    "queues (reschedule_threads k4) = queues k4" "kernel.more (reschedule_threads k4) = kernel.more k4"
    "is_thread_ready (reschedule_threads k4) u \<longleftrightarrow> is_thread_ready k4 u" for u
    by (simp_all add: reschedule_threads_def remaining_def)
  have "timer_inv (reschedule_threads k4)"
    using q4 by (intro timer_inv_mono [OF quietD(2) [of ?k1 k4]]) (simp_all add: re)
  then show ?thesis
    using False q4 reschedule_ok [OF quietD(1) [of ?k1 k4] st4 k4(4)] k4(1,2)
      abort_timeout_remaining [OF tq kinvD(3) [OF s(1)]] by (simp add: Let_def e' re)
qed

theorem k_timer_stop_releases_witness:
  "let k' = k_timer_stop (\<lambda>f i k. k) 7 waiting_kernel in remaining k' = [] \<and> is_thread_ready k' 2"
proof -
  have "\<not> is_in_isr waiting_kernel" "stop_fn (ktimers waiting_kernel 7) = None"
    "timer_wait_q (ktimers waiting_kernel 7) = 7" "\<not> st waiting_kernel 2 0" "\<not> st waiting_kernel 2 3" "\<not> st waiting_kernel 2 4"
    by code_simp+
  then show ?thesis
    using k_timer_stop_releases [OF waiting_kernel_inv(1,2,7), of 7 "\<lambda>f i k. k"]
    by (simp add: waiting_kernel_inv Let_def INACTIVE_def EXPIRED_def)
qed

end
