(* ===== verification/Thread.thy ===== *)
theory Thread
  imports Sys_Clock Waiters
begin

text \<open>
  The life of a thread (\<^verbatim>\<open>kernel/thread.c\<close>, \<^verbatim>\<open>kernel/thread_abort.c\<close>) and the start of the
  kernel (\<^verbatim>\<open>prepare_multithreading\<close> of \<^verbatim>\<open>kernel/init.c\<close>). The initial stack frame of a
  thread is the architecture's and not modelled; \<open>abort_fn\<close> stands for the functions that
  \<^verbatim>\<open>fn_abort\<close> may point to. Memory that holds no thread yet counts as a thread that was
  never started and is on no list.
\<close>

section \<open>Operations\<close>

definition K_ESSENTIAL :: u8 where "K_ESSENTIAL = push_bit 0 1"

definition k_is_in_isr :: "'a kernel_scheme \<Rightarrow> bool" where
  "k_is_in_isr k = is_in_isr k"

definition thread_essential_set :: "'a kernel_scheme \<Rightarrow> 'a kernel_scheme" where
  "thread_essential_set k = upd_thread (current k) (user_options_update (\<lambda>opt. opt OR K_ESSENTIAL)) k"

definition thread_essential_clear :: "'a kernel_scheme \<Rightarrow> 'a kernel_scheme" where
  "thread_essential_clear k = upd_thread (current k) (user_options_update (\<lambda>opt. opt AND NOT K_ESSENTIAL)) k"

definition is_thread_essential :: "'a kernel_scheme \<Rightarrow> bool" where
  "is_thread_essential k \<longleftrightarrow> user_options (threads k (current k)) AND K_ESSENTIAL \<noteq> 0"

definition init_thread_base :: "tid \<Rightarrow> int \<Rightarrow> u32 \<Rightarrow> u32 \<Rightarrow> 'a kernel_scheme \<Rightarrow> 'a kernel_scheme" where
  "init_thread_base t priority initial_state options k =
     init_thread_timeout t (upd_thread t (\<lambda>th. th\<lparr>user_options := ucast options, thread_state := ucast initial_state,
       prio := to_s8 priority, sched_locked := 0\<rparr>) k)"

definition new_thread_init :: "tid \<Rightarrow> int \<Rightarrow> u32 \<Rightarrow> 'a kernel_scheme \<Rightarrow> 'a kernel_scheme" where
  "new_thread_init t priority options k =
     upd_thread t (fn_abort_update (\<lambda>_. None)) (init_thread_base t priority (ucast THREAD_PRESTART) options k)"

definition setup_new_thread :: "tid \<Rightarrow> int \<Rightarrow> u32 \<Rightarrow> 'a kernel_scheme \<Rightarrow> 'a kernel_scheme" where
  "setup_new_thread t priority options k = new_thread_init t priority options k"

definition k_thread_start :: "tid \<Rightarrow> 'a kernel_scheme \<Rightarrow> 'a kernel_scheme" where
  "k_thread_start t k =
     (if has_thread_started k t then k
      else
        let k1 = mark_thread_as_started t k
        in if is_thread_ready k1 t
           then (let k2 = add_thread_to_ready_q t k1 in if must_switch_threads k2 then Swap k2 else k2)
           else k1)"

definition schedule_new_thread :: "tid \<Rightarrow> int \<Rightarrow> 'a kernel_scheme \<Rightarrow> 'a kernel_scheme" where
  "schedule_new_thread t delay k =
     (if delay = 0 then k_thread_start t k
      else add_thread_timeout t None (TICK_ALIGN + ms_to_ticks delay) k)"

definition k_thread_create :: "tid \<Rightarrow> int \<Rightarrow> u32 \<Rightarrow> int \<Rightarrow> 'a kernel_scheme \<Rightarrow> 'a kernel_scheme" where
  "k_thread_create t priority options delay k =
     (let k1 = setup_new_thread t priority options k
      in if delay \<noteq> K_FOREVER then schedule_new_thread t delay k1 else k1)"

definition k_thread_cancel :: "tid \<Rightarrow> 'a kernel_scheme \<Rightarrow> int \<times> 'a kernel_scheme" where
  "k_thread_cancel t k =
     (if has_thread_started k t \<or> \<not> is_thread_timeout_active k t then (- EINVAL, k)
      else (0, snd (abort_thread_timeout t k)))"

definition k_thread_single_start :: "tid \<Rightarrow> 'a kernel_scheme \<Rightarrow> 'a kernel_scheme" where
  "k_thread_single_start t k =
     (let k1 = mark_thread_as_started t k
      in if is_thread_ready k1 t then add_thread_to_ready_q t k1 else k1)"

definition k_thread_single_suspend :: "tid \<Rightarrow> 'a kernel_scheme \<Rightarrow> 'a kernel_scheme" where
  "k_thread_single_suspend t k =
     mark_thread_as_suspended t (if is_thread_ready k t then remove_thread_from_ready_q t k else k)"

definition k_thread_suspend :: "tid \<Rightarrow> 'a kernel_scheme \<Rightarrow> 'a kernel_scheme" where
  "k_thread_suspend t k =
     (let k1 = k_thread_single_suspend t k in if t = current k1 then Swap k1 else k1)"

definition k_thread_single_resume :: "tid \<Rightarrow> 'a kernel_scheme \<Rightarrow> 'a kernel_scheme" where
  "k_thread_single_resume t k =
     (let k1 = mark_thread_as_not_suspended t k
      in if is_thread_ready k1 t then add_thread_to_ready_q t k1 else k1)"

definition k_thread_resume :: "tid \<Rightarrow> 'a kernel_scheme \<Rightarrow> 'a kernel_scheme" where
  "k_thread_resume t k = reschedule_threads (k_thread_single_resume t k)"

definition k_thread_single_abort ::
  "(nat \<Rightarrow> 'a kernel_scheme \<Rightarrow> 'a kernel_scheme) \<Rightarrow> tid \<Rightarrow> 'a kernel_scheme \<Rightarrow> 'a kernel_scheme" where
  "k_thread_single_abort abort_fn t k =
     (let k1 = (case fn_abort (threads k t) of Some f \<Rightarrow> abort_fn f k | None \<Rightarrow> k);
          k2 = (if is_thread_ready k1 t then remove_thread_from_ready_q t k1
                else
                  let k3 = (if is_thread_pending k1 t then unpend_thread t k1 else k1)
                  in if is_thread_timeout_active k3 t then snd (abort_thread_timeout t k3) else k3)
      in upd_thread t (thread_state_update (\<lambda>s. s OR THREAD_DEAD)) k2)"

definition k_thread_abort ::
  "(nat \<Rightarrow> 'a kernel_scheme \<Rightarrow> 'a kernel_scheme) \<Rightarrow> tid \<Rightarrow> 'a kernel_scheme \<Rightarrow> 'a kernel_scheme" where
  "k_thread_abort abort_fn t k =
     (let k1 = k_thread_single_abort abort_fn t k
      in if current k1 = t then Swap k1 else reschedule_threads k1)"

text \<open>Static threads: \<^verbatim>\<open>init_thread\<close>, \<^verbatim>\<open>init_prio\<close>, \<^verbatim>\<open>init_options\<close>, \<^verbatim>\<open>init_delay\<close> of each.\<close>

type_synonym static_thread = "tid \<times> int \<times> u32 \<times> int"

fun setup_static_threads :: "static_thread list \<Rightarrow> 'a kernel_scheme \<Rightarrow> 'a kernel_scheme" where
  "setup_static_threads [] k = k"
| "setup_static_threads ((t, p, options, delay) # ts) k = setup_static_threads ts (setup_new_thread t p options k)"

fun schedule_static_threads :: "static_thread list \<Rightarrow> 'a kernel_scheme \<Rightarrow> 'a kernel_scheme" where
  "schedule_static_threads [] k = k"
| "schedule_static_threads ((t, p, options, delay) # ts) k =
     schedule_static_threads ts (if delay \<noteq> K_FOREVER then schedule_new_thread t delay k else k)"

definition init_static_threads :: "static_thread list \<Rightarrow> 'a kernel_scheme \<Rightarrow> 'a kernel_scheme" where
  "init_static_threads ts k =
     (let k1 = setup_static_threads ts k;
          k2 = sched_lock k1;
          k3 = schedule_static_threads ts k2
      in k_sched_unlock k3)"

definition CONFIG_MAIN_THREAD_PRIORITY :: int where "CONFIG_MAIN_THREAD_PRIORITY = 0"

definition prepare_multithreading :: "tid \<Rightarrow> tid \<Rightarrow> 'a kernel_scheme \<Rightarrow> 'a kernel_scheme" where
  "prepare_multithreading dummy_thread main_thread k =
     (let k1 = k\<lparr>current := dummy_thread\<rparr>;
          k2 = upd_thread dummy_thread (\<lambda>th. th\<lparr>user_options := K_ESSENTIAL, thread_state := THREAD_DUMMY\<rparr>) k1;
          k3 = k2\<lparr>queues := (\<lambda>q. case q of ReadyQ i \<Rightarrow> [] | WaitQ w \<Rightarrow> queues k2 q)\<rparr>;
          k4 = k3\<lparr>cache := main_thread\<rparr>;
          k5 = setup_new_thread main_thread CONFIG_MAIN_THREAD_PRIORITY (ucast K_ESSENTIAL) k4;
          k6 = add_thread_to_ready_q main_thread (mark_thread_as_started main_thread k5);
          k7 = setup_new_thread (idle_thread k6) K_LOWEST_THREAD_PRIO (ucast K_ESSENTIAL) k6;
          k8 = add_thread_to_ready_q (idle_thread k7) (mark_thread_as_started (idle_thread k7) k7)
      in k8\<lparr>timeout_q := [], nested := 0\<rparr>)"

definition switch_to_main_thread :: "'a kernel_scheme \<Rightarrow> 'a kernel_scheme" where
  "switch_to_main_thread k = Swap k"

section \<open>Threads that are on no list\<close>

text \<open>An update of a thread that is set aside, or that is not ready before or after it.\<close>

lemma upd_unready_kinv:
  assumes k: "kinv S k" and p: "prio_ok (prio (f (threads k t)))"
    and t: "t \<in> S \<or> \<not> is_thread_ready k t \<and> \<not> is_thread_ready (upd_thread t f k) t \<and> (st (upd_thread t f k) t 1 \<longleftrightarrow> st k t 1)"
  shows "kinv S (upd_thread t f k)"
proof -
  let ?k = "upd_thread t f k"
  have nr: "t \<notin> set (ready_list k)" using t by (auto simp: kinv_ready_iff [OF k])
  have idle: "idle_thread k \<noteq> t" using kinv_idle [OF k] t by auto
  have other: "is_thread_ready ?k u \<longleftrightarrow> is_thread_ready k u" if "u \<noteq> t" for u
    using that by (simp add: is_thread_ready_iff)
  have "rq_ok ?k" by (rule rq_ok_cong [of _ k]) (use nr kinvD(6) [OF k] in auto)
  then have "ready_inv S ?k"
    using kinv_ready_iff [OF k] t other by (auto simp: ready_inv_def) metis+
  moreover have "wait_inv S ?k"
    by (rule wait_inv_cong [OF _ _ kinvD(2) [OF k]]) (use t in auto)
  moreover have "delta_inv ?k" using kinvD(3) [OF k] by (subst delta_inv_cong [of _ k]) simp_all
  moreover have "timeout_link ?k u \<longleftrightarrow> timeout_link k u" if "u \<notin> S" for u
    by (rule timeout_link_cong) (use t that in auto)
  then have "link_inv S ?k" using kinvD(4) [OF k] by (simp add: link_inv_def)
  moreover have "thread_inv S ?k"
    using kinvD(5) [OF k] p idle other [of "idle_thread k"] by (auto simp: thread_inv_def)
  ultimately show ?thesis by (simp add: kinv_def)
qed

text \<open>A thread that may be created: on no list and not running.\<close>

definition vacant :: "'a kernel_scheme \<Rightarrow> tid \<Rightarrow> bool" where
  "vacant k t \<longleftrightarrow> \<not> is_thread_ready k t \<and> \<not> st k t 1 \<and> delta k (ThreadTO t) = INACTIVE"

lemma prestart_cast [simp]: "ucast (ucast THREAD_PRESTART :: u32) = THREAD_PRESTART"
  by (simp add: THREAD_PRESTART_def)

lemma setup_simps [simp]:
  "queues (setup_new_thread t p options k) = queues k" "current (setup_new_thread t p options k) = current k"
  "timeout_q (setup_new_thread t p options k) = timeout_q k" "cache (setup_new_thread t p options k) = cache k"
  "idle_thread (setup_new_thread t p options k) = idle_thread k" "prio_bmap (setup_new_thread t p options k) = prio_bmap k"
  "handling_timeouts (setup_new_thread t p options k) = handling_timeouts k"
  "nested (setup_new_thread t p options k) = nested k" "ready_list (setup_new_thread t p options k) = ready_list k"
  "kernel.more (setup_new_thread t p options k) = kernel.more k"
  "prio (threads (setup_new_thread t p options k) u) = (if u = t then to_s8 p else prio (threads k u))"
  "sched_locked (threads (setup_new_thread t p options k) u) = (if u = t then 0 else sched_locked (threads k u))"
  "delta (setup_new_thread t p options k) r = (if r = ThreadTO t then INACTIVE else delta k r)"
  "st (setup_new_thread t p options k) u n \<longleftrightarrow> (if u = t then n = 2 else st k u n)"
  by (auto simp: setup_new_thread_def new_thread_init_def init_thread_base_def init_thread_timeout_def
      init_timeout_def upd_timeout_def ready_list_def)

lemma setup_kinv:
  assumes k: "kinv (insert t S) k" and p: "prio_ok p" and d: "delta k (ThreadTO t) = INACTIVE"
  shows "kinv (insert t S) (setup_new_thread t p options k)"
proof -
  let ?k1 = "upd_thread t (\<lambda>th. th\<lparr>user_options := ucast options, thread_state := THREAD_PRESTART,
      prio := to_s8 p, sched_locked := 0, fn_abort := None\<rparr>) k"
  have "kinv (insert t S) ?k1" using k p by (intro upd_unready_kinv) (simp_all add: to_s8_prio)
  then have "kinv (insert t S) (init_thread_timeout t ?k1)"
  proof (rule timeouts_change_kinv)
    let ?k2 = "init_thread_timeout t ?k1"
    have dl: "delta ?k2 r = delta k r" for r
      using d by (simp add: init_thread_timeout_def init_timeout_def upd_timeout_def)
    show "delta_inv ?k2" using kinvD(3) [OF k] unfolding delta_inv_def dl
      by (simp add: init_thread_timeout_def init_timeout_def upd_timeout_def)
    fix u assume u: "u \<notin> insert t S"
    show "is_thread_ready ?k2 u \<longleftrightarrow> is_thread_ready ?k1 u"
      unfolding is_thread_ready_iff dl by (simp add: init_thread_timeout_def init_timeout_def upd_timeout_def)
    have "timeout_link ?k2 u \<longleftrightarrow> timeout_link k u"
      by (rule timeout_link_cong) (use u in \<open>auto simp: init_thread_timeout_def init_timeout_def upd_timeout_def\<close>)
    then show "timeout_link ?k2 u" if "delta ?k2 (ThreadTO u) \<noteq> INACTIVE"
      using that u kinvD(4) [OF k] unfolding dl by (auto simp: link_inv_def)
  qed (simp_all add: init_thread_timeout_def init_timeout_def upd_timeout_def)
  moreover have "setup_new_thread t p options k = init_thread_timeout t ?k1"
    by (simp add: setup_new_thread_def new_thread_init_def init_thread_base_def init_thread_timeout_def init_timeout_def
        upd_timeout_def upd_thread_def)
  ultimately show ?thesis by simp
qed

lemma vacant_kinv: "kinv S k \<Longrightarrow> vacant k t \<Longrightarrow> kinv (insert t S) k"
  unfolding vacant_def by (blast intro: detach_kinv)

lemma setup_settled: "settled k \<Longrightarrow> settled (setup_new_thread t p options k)"
  by (auto simp: settled_def INACTIVE_def EXPIRED_def)

text \<open>Starting a thread that was created is making it ready.\<close>

lemma k_thread_start_eq:
  "k_thread_start t k =
     (if st k t 2 then (if is_thread_ready (mark_thread_as_started t k) t then reschedule_threads (ready_thread t k) else ready_thread t k)
      else k)"
  by (simp add: k_thread_start_def ready_thread_def reschedule_threads_def has_thread_started_iff Let_def)

lemma start_kinv:
  assumes k: "kinv {t} k" and s: "settled k" and c: "is_thread_ready k (current k)" "current k \<noteq> t"
    and t: "st k t 2" "\<not> st k t 1" "delta k (ThreadTO t) = INACTIVE"
  shows "sched_ok (reschedule_threads (ready_thread t k))"
proof (rule reschedule_ok)
  show "kinv {} (ready_thread t k)" by (rule ready_thread_kinv [OF k]) (use t in simp_all)
  show "settled (ready_thread t k)" using s by (simp add: settled_def ready_thread_frame)
  show "is_thread_ready (ready_thread t k) (current (ready_thread t k))"
    using c by (simp add: is_thread_ready_iff st_ready_thread ready_thread_frame)
qed

text \<open>The thread that runs may go on when no other thread has become ready.\<close>

lemma sched_ok_shrink:
  assumes s: "sched_ok k" and k': "kinv {} k'" "settled k'" and c: "current k' = current k" "is_thread_ready k' (current k)"
    and r: "\<And>u. is_thread_ready k' u \<Longrightarrow> is_thread_ready k u \<and> prio (threads k' u) = prio (threads k u)"
    and l: "sched_locked (threads k' (current k)) = sched_locked (threads k (current k))"
  shows "sched_ok k'"
proof -
  have "is_preempt k' (current k) \<longleftrightarrow> is_preempt k (current k)"
    using l r [OF c(2)] by (simp add: is_preempt_def preempt_def)
  then show ?thesis using s k' c r [OF c(2)] r by (auto simp: sched_ok_def)
qed

lemma setup_remaining:
  assumes "delta_inv k" "delta k (ThreadTO t) = INACTIVE"
  shows "remaining (setup_new_thread t p options k) = remaining k"
proof -
  have "ThreadTO t \<notin> set (timeout_q k)" using assms by (simp add: delta_inv_cases)
  then show ?thesis unfolding remaining_def by (simp, intro expiries_cong) auto
qed

lemma create_ready:
  assumes "u \<noteq> t" shows "is_thread_ready (setup_new_thread t p options k) u \<longleftrightarrow> is_thread_ready k u"
  using assms by (simp add: is_thread_ready_iff)

lemma create_delayed:
  fixes options :: u32
  assumes s: "sched_ok k" and t: "vacant k t" and p: "prio_ok p" and d: "delay \<noteq> 0"
  defines "k' \<equiv> k_thread_create t p options delay k"
  shows "sched_ok k'" "prio (threads k' t) = p" "is_thread_ready k' u \<longleftrightarrow> u \<noteq> t \<and> is_thread_ready k u"
    "remaining k' = (if delay = K_FOREVER then remaining k
       else expiry_insert (ThreadTO t) (TICK_ALIGN + ms_to_ticks delay) (remaining k))"
proof -
  note k = sched_okD [OF s]
  let ?k1 = "setup_new_thread t p options k" and ?n = "TICK_ALIGN + ms_to_ticks delay"
  have v: "\<not> st k t 1" "delta k (ThreadTO t) = INACTIVE" "current k \<noteq> t" "idle_thread k \<noteq> t"
    using t k(2) kinv_idle [OF k(1)] by (auto simp: vacant_def)
  have k1: "kinv {t} ?k1" using setup_kinv [OF vacant_kinv [OF k(1) t] p v(2)] by simp
  have rem1: "remaining ?k1 = remaining k" by (rule setup_remaining [OF kinvD(3) [OF k(1)] v(2)])
  have e: "k' = (if delay = K_FOREVER then ?k1 else add_thread_timeout t None ?n ?k1)"
    using d by (simp add: k'_def k_thread_create_def schedule_new_thread_def Let_def)
  have n: "0 < ?n" by (rule timeout_ticks_pos)
  note f = add_thread_timeout_frame [OF n]
  have rd1: "\<not> is_thread_ready ?k1 t" by (simp add: is_thread_ready_iff)
  have act: "delta (add_thread_timeout t None ?n ?k1) x = INACTIVE \<longleftrightarrow> x \<noteq> ThreadTO t \<and> delta ?k1 x = INACTIVE" for x
    unfolding add_thread_timeout_def by (rule add_timeout_active_iff [OF kinvD(3) [OF k1] _ n]) simp
  show r: "is_thread_ready k' u \<longleftrightarrow> u \<noteq> t \<and> is_thread_ready k u" for u
    using rd1 create_ready [of u t] act [of "ThreadTO u"] by (auto simp: e is_thread_ready_iff f)
  have k': "kinv {} k'"
    using k1 v n by (auto simp: e rd1 intro: attach_kinv intro!: add_thread_timeout_kinv)
  have "settled k'"
    using setup_settled [OF k(4)] settled_add [OF kinvD(3) [OF k1] _ n] by (simp add: e add_thread_timeout_def)
  then show "sched_ok k'"
    by (rule sched_ok_shrink [OF s k']) (use k(2) v r in \<open>auto simp: e f\<close>)
  show "prio (threads k' t) = p" using p by (simp add: e f to_s8_prio)
  have "ThreadTO t \<notin> set (timeout_q ?k1)" "distinct (timeout_q ?k1)"
    using delta_inv_cases [OF kinvD(3) [OF k(1)], of "ThreadTO t"] v(2) kinvD(3) [OF k(1)] by (simp_all add: delta_inv_def)
  then show "remaining k' = (if delay = K_FOREVER then remaining k else expiry_insert (ThreadTO t) ?n (remaining k))"
    using n rem1 by (simp add: e add_thread_timeout_def add_timeout_remaining)
qed

lemma create_now:
  assumes s: "sched_ok k" and t: "vacant k t" and p: "prio_ok p"
  shows "sched_ok (k_thread_create t p options 0 k)" "prio (threads (k_thread_create t p options 0 k) t) = p"
    "is_thread_ready (k_thread_create t p options 0 k) u \<longleftrightarrow> u = t \<or> is_thread_ready k u"
    "remaining (k_thread_create t p options 0 k) = remaining k"
proof -
  note k = sched_okD [OF s]
  let ?k1 = "setup_new_thread t p options k"
  have v: "\<not> st k t 1" "delta k (ThreadTO t) = INACTIVE" "current k \<noteq> t"
    using t k(2) by (auto simp: vacant_def)
  have k1: "kinv {t} ?k1" using setup_kinv [OF vacant_kinv [OF k(1) t] p v(2)] by simp
  have r: "is_thread_ready (mark_thread_as_started t ?k1) t"
    by (auto simp: is_thread_ready_iff st_mark)
  then have e: "k_thread_create t p options 0 k = reschedule_threads (ready_thread t ?k1)"
    by (simp add: k_thread_create_def schedule_new_thread_def Let_def K_FOREVER_def k_thread_start_eq)
  show "sched_ok (k_thread_create t p options 0 k)"
    unfolding e by (rule start_kinv [OF k1 setup_settled [OF k(4)]]) (use k(2) v in \<open>simp_all add: create_ready\<close>)
  have re: "prio (threads (reschedule_threads j) u) = prio (threads j u)" "remaining (reschedule_threads j) = remaining j"
    "is_thread_ready (reschedule_threads j) u \<longleftrightarrow> is_thread_ready j u" for j :: "'a kernel_scheme" and u
    by (simp_all add: reschedule_threads_def remaining_def)
  show "prio (threads (k_thread_create t p options 0 k) t) = p" using p by (simp add: e re ready_thread_frame to_s8_prio)
  have "is_thread_ready (ready_thread t ?k1) u \<longleftrightarrow> u = t \<or> is_thread_ready k u"
    by (auto simp: is_thread_ready_iff st_ready_thread ready_thread_frame)
  then show "is_thread_ready (k_thread_create t p options 0 k) u \<longleftrightarrow> u = t \<or> is_thread_ready k u" by (simp add: e re)
  have "remaining (ready_thread t ?k1) = remaining ?k1" by (simp add: remaining_def ready_thread_frame)
  then show "remaining (k_thread_create t p options 0 k) = remaining k"
    using setup_remaining [OF kinvD(3) [OF k(1)] v(2)] by (simp add: e re)
qed

section \<open>Suspending and resuming\<close>

lemma mark_suspended_kinv:
  assumes "kinv S k" "t \<in> S \<or> \<not> is_thread_ready k t" shows "kinv S (mark_thread_as_suspended t k)"
  unfolding mark_thread_as_suspended_def
  by (rule upd_unready_kinv) (use assms in \<open>auto simp: kinv_prio is_thread_ready_iff bit_or_iff THREAD_SUSPENDED_def bit_simps\<close>)

lemma single_suspend_spec:
  assumes k: "kinv {} k" and t: "t \<noteq> idle_thread k"
  defines "k' \<equiv> k_thread_single_suspend t k"
  shows "kinv {} k'" "is_thread_ready k' u \<longleftrightarrow> u \<noteq> t \<and> is_thread_ready k u"
    "ready_list k' = remove1 t (ready_list k)" "timeouts k' = timeouts k" "timeout_q k' = timeout_q k"
    "current k' = current k" "handling_timeouts k' = handling_timeouts k" "queues k' (WaitQ w) = queues k (WaitQ w)"
    "prio (threads k' u) = prio (threads k u)" "sched_locked (threads k' u) = sched_locked (threads k u)"
    "st k' u n \<longleftrightarrow> st k u n \<or> u = t \<and> n = 4"
proof -
  let ?k1 = "if is_thread_ready k t then remove_thread_from_ready_q t k else k"
  have e: "k' = mark_thread_as_suspended t ?k1" by (simp add: k'_def k_thread_single_suspend_def)
  have w1: "queues ?k1 (WaitQ w) = queues k (WaitQ w)" for w
    using kinv_waiting [OF k, of t w] by (auto simp: is_thread_ready_iff intro: remove1_idem)
  show "ready_list k' = remove1 t (ready_list k)"
    using remove_kinv(2) [OF k _ _ t] kinv_ready_iff [OF k, of t]
    by (auto simp: e mark_thread_as_suspended_def remove1_idem)
  show "timeouts k' = timeouts k" "timeout_q k' = timeout_q k" "current k' = current k" "handling_timeouts k' = handling_timeouts k"
    "queues k' (WaitQ w) = queues k (WaitQ w)" "prio (threads k' u) = prio (threads k u)"
    "sched_locked (threads k' u) = sched_locked (threads k u)" and st: "st k' u n \<longleftrightarrow> st k u n \<or> u = t \<and> n = 4" for u n
    using w1 by (simp_all add: e st_mark) (simp_all add: mark_thread_as_suspended_def)
  show rd: "is_thread_ready k' u \<longleftrightarrow> u \<noteq> t \<and> is_thread_ready k u" for u
    using st by (auto simp: is_thread_ready_iff e)
  show "kinv {} k'"
  proof (cases "is_thread_ready k t")
    case True
    then have "kinv {t} ?k1" using remove_kinv(1) [OF k True _ t] by simp
    then have "kinv {t} k'" unfolding e by (rule mark_suspended_kinv) simp
    then show ?thesis using True rd st by (intro attach_kinv [of t "{}"]) (auto simp: is_thread_ready_iff e)
  qed (use k in \<open>simp add: e mark_suspended_kinv\<close>)
qed

lemma single_resume_spec:
  assumes k: "kinv {} k" and t: "st k t 4"
  defines "k' \<equiv> k_thread_single_resume t k"
  shows "kinv {} k'" "st k' u n \<longleftrightarrow> st k u n \<and> \<not> (u = t \<and> n = 4)"
    "timeouts k' = timeouts k" "timeout_q k' = timeout_q k" "current k' = current k" "handling_timeouts k' = handling_timeouts k"
    "queues k' (WaitQ w) = queues k (WaitQ w)" "prio (threads k' u) = prio (threads k u)"
    "ready_list k' = (if \<not> st k t 0 \<and> \<not> st k t 1 \<and> \<not> st k t 2 \<and> \<not> st k t 3 \<and> delta k (ThreadTO t) = INACTIVE
       then prio_insert (\<lambda>u. prio (threads k u)) t (ready_list k) else ready_list k)"
proof -
  let ?k1 = "mark_thread_as_not_suspended t k"
  have nr: "\<not> is_thread_ready k t" using t by (simp add: is_thread_ready_iff)
  have e: "k' = (if is_thread_ready ?k1 t then add_thread_to_ready_q t ?k1 else ?k1)"
    by (simp add: k'_def k_thread_single_resume_def Let_def)
  have up: "kinv S ?k1" if "kinv S k" "t \<in> S \<or> \<not> is_thread_ready ?k1 t" for S
    unfolding mark_thread_as_not_suspended_def
    by (rule upd_unready_kinv [OF that(1)])
       (use that(2) nr st_mark(5) [of t k t 1] in \<open>auto simp: kinv_prio [OF k] mark_thread_as_not_suspended_def\<close>)
  have d: "kinv {t} ?k1" if "is_thread_ready ?k1 t"
    using that nr by (intro up detach_kinv k) (auto simp: is_thread_ready_iff st_mark)
  show "kinv {} k'"
    using up [OF k] add_kinv [OF d] by (simp add: e)
  have l1: "ready_list ?k1 = ready_list k" by (simp add: mark_thread_as_not_suspended_def)
  have p1: "prio (threads ?k1 u) = prio (threads k u)" for u by (simp add: mark_thread_as_not_suspended_def)
  have "t \<notin> set (ready_list k)" using nr kinv_ready_iff [OF k] by simp
  then have "ready_list (add_thread_to_ready_q t ?k1) = prio_insert (\<lambda>u. prio (threads k u)) t (ready_list k)"
    if "is_thread_ready ?k1 t"
    using add_ok(2) [OF kinvD(6) [OF d [OF that]] kinv_prio [OF d [OF that]]] by (simp add: l1 p1)
  then show "ready_list k' = (if \<not> st k t 0 \<and> \<not> st k t 1 \<and> \<not> st k t 2 \<and> \<not> st k t 3 \<and> delta k (ThreadTO t) = INACTIVE
       then prio_insert (\<lambda>u. prio (threads k u)) t (ready_list k) else ready_list k)"
    by (auto simp: e l1) (auto simp: is_thread_ready_iff st_mark)
  show "st k' u n \<longleftrightarrow> st k u n \<and> \<not> (u = t \<and> n = 4)" "timeouts k' = timeouts k" "timeout_q k' = timeout_q k"
    "current k' = current k" "handling_timeouts k' = handling_timeouts k"
    "queues k' (WaitQ w) = queues k (WaitQ w)" "prio (threads k' u) = prio (threads k u)"
    by (simp_all add: e st_mark p1) (simp_all add: mark_thread_as_not_suspended_def)
qed

text \<open>The calls: the thread that runs after them is one that may.\<close>

lemma suspend_spec:
  assumes s: "sched_ok k" and t: "t \<noteq> idle_thread k"
  shows "sched_ok (k_thread_suspend t k)" "ready_list (k_thread_suspend t k) = remove1 t (ready_list k)"
    "timeouts (k_thread_suspend t k) = timeouts k" "timeout_q (k_thread_suspend t k) = timeout_q k"
    "queues (k_thread_suspend t k) (WaitQ w) = queues k (WaitQ w)"
    "prio (threads (k_thread_suspend t k) u) = prio (threads k u)"
    "st (k_thread_suspend t k) u n \<longleftrightarrow> st k u n \<or> u = t \<and> n = 4"
    "handling_timeouts (k_thread_suspend t k) = handling_timeouts k"
proof -
  note k = sched_okD [OF s]
  define j where "j = k_thread_single_suspend t k"
  note p = single_suspend_spec [OF k(1) t, folded j_def]
  have st1: "settled j" using k(4) p(4,7) by (simp add: settled_def)
  have e: "k_thread_suspend t k = (if t = current k then Swap j else j)"
    unfolding k_thread_suspend_def Let_def j_def [symmetric] p(6) by (rule refl)
  show "sched_ok (k_thread_suspend t k)"
  proof (cases "t = current k")
    case False
    have "sched_ok j"
      by (rule sched_ok_shrink [OF s p(1) st1 p(6)]) (use False k(2) in \<open>simp_all add: p(2,9,10)\<close>)
    with False show ?thesis by (simp add: e)
  qed (use e Swap_ok [OF p(1) st1] in simp)
  show "ready_list (k_thread_suspend t k) = remove1 t (ready_list k)"
    "timeouts (k_thread_suspend t k) = timeouts k" "timeout_q (k_thread_suspend t k) = timeout_q k"
    "queues (k_thread_suspend t k) (WaitQ w) = queues k (WaitQ w)"
    "prio (threads (k_thread_suspend t k) u) = prio (threads k u)"
    "st (k_thread_suspend t k) u n \<longleftrightarrow> st k u n \<or> u = t \<and> n = 4"
    "handling_timeouts (k_thread_suspend t k) = handling_timeouts k"
    by (simp_all add: e p)
qed

lemma resume_sched_ok:
  assumes s: "sched_ok k" and t: "st k t 4"
  shows "sched_ok (k_thread_resume t k)"
proof -
  note k = sched_okD [OF s] and q = single_resume_spec [OF sched_okD(1) [OF s] t]
  show ?thesis
    unfolding k_thread_resume_def
  proof (rule reschedule_ok [OF q(1)])
    show "settled (k_thread_single_resume t k)" using k(4) q(3,6) by (simp add: settled_def)
    show "is_thread_ready (k_thread_single_resume t k) (current (k_thread_single_resume t k))"
      using k(2) by (auto simp: is_thread_ready_iff q(2,3,5))
  qed
qed

section \<open>Aborting\<close>

text \<open>The thread is first set aside from every list, then marked dead.\<close>

definition off_wait_queue :: "tid \<Rightarrow> 'a kernel_scheme \<Rightarrow> 'a kernel_scheme" where
  "off_wait_queue t k = (if st k t 1 then unpend_thread t k else k)"

definition set_aside :: "tid \<Rightarrow> 'a kernel_scheme \<Rightarrow> 'a kernel_scheme" where
  "set_aside t k =
     (if is_thread_ready k t then remove_thread_from_ready_q t k else snd (abort_thread_timeout t (off_wait_queue t k)))"

lemma single_abort_eq:
  assumes "fn_abort (threads k t) = None"
  shows "k_thread_single_abort abort_fn t k = upd_thread t (thread_state_update (\<lambda>s. s OR THREAD_DEAD)) (set_aside t k)"
proof -
  have "(if is_thread_timeout_active j t then snd (abort_thread_timeout t j) else j) = snd (abort_thread_timeout t j)"
    for j :: "'a kernel_scheme"
    by (simp add: is_thread_timeout_active_def abort_thread_timeout_def abort_timeout_inactive)
  with assms show ?thesis by (simp add: k_thread_single_abort_def set_aside_def off_wait_queue_def Let_def)
qed

lemma off_wait_queue_simps:
  "timeouts (off_wait_queue t k) = timeouts k" "timeout_q (off_wait_queue t k) = timeout_q k"
  "current (off_wait_queue t k) = current k" "idle_thread (off_wait_queue t k) = idle_thread k"
  "handling_timeouts (off_wait_queue t k) = handling_timeouts k" "remaining (off_wait_queue t k) = remaining k"
  "prio (threads (off_wait_queue t k) u) = prio (threads k u)"
  "sched_locked (threads (off_wait_queue t k) u) = sched_locked (threads k u)"
  "u \<noteq> t \<Longrightarrow> is_thread_ready (off_wait_queue t k) u \<longleftrightarrow> is_thread_ready k u" "\<not> st (off_wait_queue t k) t 1"
  by (simp_all add: off_wait_queue_def remaining_def is_thread_ready_unpend st_unpend)
     (simp add: unpend_thread_def mark_thread_as_not_pending_def)

lemma off_wait_queue_kinv: "kinv {} k \<Longrightarrow> \<not> is_thread_ready k t \<Longrightarrow> kinv {t} (off_wait_queue t k)"
  by (auto simp: off_wait_queue_def intro: unpend_kinv [of "{}", simplified] detach_kinv [of "{}", simplified])

lemma off_wait_queue_waits: "kinv {} k \<Longrightarrow> queues (off_wait_queue t k) (WaitQ w) = remove1 t (queues k (WaitQ w))"
  using kinv_waiting [of "{}" k t w] by (auto simp: off_wait_queue_def intro: remove1_idem [symmetric])

lemma set_aside_frame:
  assumes k: "kinv {} k"
  shows "current (set_aside t k) = current k" "idle_thread (set_aside t k) = idle_thread k"
    "handling_timeouts (set_aside t k) = handling_timeouts k"
    "prio (threads (set_aside t k) u) = prio (threads k u)" "sched_locked (threads (set_aside t k) u) = sched_locked (threads k u)"
    "queues (set_aside t k) (WaitQ w) = remove1 t (queues k (WaitQ w))"
  using off_wait_queue_waits [OF k, of t w]
  by (simp_all add: set_aside_def abort_thread_timeout_def abort_timeout_frame off_wait_queue_simps)

lemma set_aside_ready:
  assumes k: "kinv {} k" and t: "t \<noteq> idle_thread k" and r: "is_thread_ready k t"
  shows "kinv {t} (set_aside t k)" "\<not> st (set_aside t k) t 1" "delta (set_aside t k) (ThreadTO t) = INACTIVE"
    "u \<noteq> t \<Longrightarrow> is_thread_ready (set_aside t k) u \<longleftrightarrow> is_thread_ready k u"
    "remaining (set_aside t k) = filter (\<lambda>(r, _). r \<noteq> ThreadTO t) (remaining k)" "settled k \<Longrightarrow> settled (set_aside t k)"
proof -
  show "kinv {t} (set_aside t k)" using remove_kinv(1) [OF k r _ t] r by (simp add: set_aside_def)
  have "delta k (ThreadTO t) = INACTIVE" using r by (simp add: is_thread_ready_iff)
  then have "ThreadTO t \<notin> set (timeout_q k)" by (simp add: delta_inv_cases [OF kinvD(3) [OF k]])
  then show "remaining (set_aside t k) = filter (\<lambda>(r, _). r \<noteq> ThreadTO t) (remaining k)"
    using r by (simp add: set_aside_def remaining_def filter_expiries)
  show "\<not> st (set_aside t k) t 1" "delta (set_aside t k) (ThreadTO t) = INACTIVE"
    "u \<noteq> t \<Longrightarrow> is_thread_ready (set_aside t k) u \<longleftrightarrow> is_thread_ready k u" "settled k \<Longrightarrow> settled (set_aside t k)"
    using r by (simp_all add: set_aside_def is_thread_ready_iff settled_def)
qed

lemma set_aside_unready:
  assumes k: "kinv {} k" and e: "delta k (ThreadTO t) \<noteq> EXPIRED" and r: "\<not> is_thread_ready k t"
  shows "kinv {t} (set_aside t k)" "\<not> st (set_aside t k) t 1" "delta (set_aside t k) (ThreadTO t) = INACTIVE"
    "u \<noteq> t \<Longrightarrow> is_thread_ready (set_aside t k) u \<longleftrightarrow> is_thread_ready k u"
    "remaining (set_aside t k) = filter (\<lambda>(r, _). r \<noteq> ThreadTO t) (remaining k)" "settled k \<Longrightarrow> settled (set_aside t k)"
proof -
  let ?k1 = "off_wait_queue t k"
  have k1: "kinv {t} ?k1" by (rule off_wait_queue_kinv [OF k r])
  note d = kinvD(3) [OF k1]
  have e1: "delta ?k1 (ThreadTO t) \<noteq> EXPIRED" using e by (simp add: off_wait_queue_simps)
  have s: "set_aside t k = snd (abort_timeout (ThreadTO t) ?k1)" using r by (simp add: set_aside_def abort_thread_timeout_def)
  show "kinv {t} (set_aside t k)"
    unfolding s abort_thread_timeout_def [symmetric] by (rule abort_thread_timeout_kinv [OF k1 _ e1]) simp
  show "\<not> st (set_aside t k) t 1" "delta (set_aside t k) (ThreadTO t) = INACTIVE"
    using off_wait_queue_simps(10) [of t k] by (simp_all add: s abort_timeout_frame abort_timeout_delta)
  show "is_thread_ready (set_aside t k) u \<longleftrightarrow> is_thread_ready k u" if "u \<noteq> t"
    using that abort_timeout_active_iff [OF d e1, of "ThreadTO u"] off_wait_queue_simps(9) [OF that, of k]
    by (simp add: s is_thread_ready_iff abort_timeout_frame)
  show "settled k \<Longrightarrow> settled (set_aside t k)"
    unfolding s by (rule settled_abort [OF d e1]) (simp add: settled_def off_wait_queue_simps)
  show "remaining (set_aside t k) = filter (\<lambda>(r, _). r \<noteq> ThreadTO t) (remaining k)"
  proof (cases "delta k (ThreadTO t) = INACTIVE")
    case True
    then have "ThreadTO t \<notin> set (timeout_q k)" by (simp add: delta_inv_cases [OF kinvD(3) [OF k]])
    with True show ?thesis
      by (simp add: s abort_timeout_inactive off_wait_queue_simps) (simp add: remaining_def filter_expiries)
  next
    case False
    then have "ThreadTO t \<in> set (timeout_q ?k1)" using e by (simp add: off_wait_queue_simps delta_inv_cases [OF kinvD(3) [OF k]])
    from abort_timeout_remaining [OF this d] show ?thesis by (simp add: s off_wait_queue_simps)
  qed
qed

lemma set_aside_spec:
  assumes k: "kinv {} k" and t: "t \<noteq> idle_thread k" and e: "delta k (ThreadTO t) \<noteq> EXPIRED"
  shows "kinv {t} (set_aside t k)" "\<not> st (set_aside t k) t 1" "delta (set_aside t k) (ThreadTO t) = INACTIVE"
    "u \<noteq> t \<Longrightarrow> is_thread_ready (set_aside t k) u \<longleftrightarrow> is_thread_ready k u"
    "remaining (set_aside t k) = filter (\<lambda>(r, _). r \<noteq> ThreadTO t) (remaining k)" "settled k \<Longrightarrow> settled (set_aside t k)"
  using set_aside_ready [OF k t] set_aside_unready [OF k e] by blast+

lemma single_abort_spec:
  assumes k: "kinv {} k" and t: "t \<noteq> idle_thread k" and e: "delta k (ThreadTO t) \<noteq> EXPIRED"
    and f: "fn_abort (threads k t) = None"
  shows "kinv {} (k_thread_single_abort abort_fn t k)" "st (k_thread_single_abort abort_fn t k) t 3"
    "is_thread_ready (k_thread_single_abort abort_fn t k) u \<longleftrightarrow> u \<noteq> t \<and> is_thread_ready k u"
    "queues (k_thread_single_abort abort_fn t k) (WaitQ w) = remove1 t (queues k (WaitQ w))"
    "remaining (k_thread_single_abort abort_fn t k) = filter (\<lambda>(r, _). r \<noteq> ThreadTO t) (remaining k)"
    "settled k \<Longrightarrow> settled (k_thread_single_abort abort_fn t k)"
    "current (k_thread_single_abort abort_fn t k) = current k"
    "delta (k_thread_single_abort abort_fn t k) (ThreadTO t) = INACTIVE"
proof -
  let ?k1 = "set_aside t k" and ?k = "k_thread_single_abort abort_fn t k"
  note a = set_aside_spec [OF k t e] and s = single_abort_eq [OF f, of abort_fn]
  show d: "st ?k t 3" by (simp add: s bit_or_iff THREAD_DEAD_def bit_simps)
  then have nr: "\<not> is_thread_ready ?k t" by (simp add: is_thread_ready_iff)
  have "kinv {t} ?k" unfolding s by (rule upd_unready_kinv [OF a(1)]) (simp_all add: kinv_prio [OF a(1)])
  then show "kinv {} ?k"
    by (rule attach_kinv) (use nr a(2,3) in \<open>simp_all add: s bit_or_iff THREAD_DEAD_def bit_simps\<close>)
  have "is_thread_ready ?k u \<longleftrightarrow> is_thread_ready ?k1 u" if "u \<noteq> t" for u using that by (simp add: s is_thread_ready_iff)
  with nr a(4) show "is_thread_ready ?k u \<longleftrightarrow> u \<noteq> t \<and> is_thread_ready k u" by (cases "u = t") simp_all
  show "queues ?k (WaitQ w) = remove1 t (queues k (WaitQ w))" "current ?k = current k" "delta ?k (ThreadTO t) = INACTIVE"
    using a(3) by (simp_all add: s set_aside_frame [OF k])
  show "remaining ?k = filter (\<lambda>(r, _). r \<noteq> ThreadTO t) (remaining k)" "settled k \<Longrightarrow> settled ?k"
    using a(5,6) by (simp_all add: s remaining_def settled_def)
qed

lemma abort_sched_ok:
  assumes s: "sched_ok k" and t: "t \<noteq> idle_thread k" and e: "delta k (ThreadTO t) \<noteq> EXPIRED"
    and f: "fn_abort (threads k t) = None"
  shows "sched_ok (k_thread_abort abort_fn t k)"
proof -
  note k = sched_okD [OF s] and a = single_abort_spec [OF sched_okD(1) [OF s] t e f, of abort_fn]
  show ?thesis
    using k(2) Swap_ok [OF a(1) a(6) [OF k(4)]] reschedule_ok [OF a(1) a(6) [OF k(4)]]
    by (simp add: k_thread_abort_def Let_def a(3,7))
qed

section \<open>Properties\<close>

text \<open>
  C28. Creating a thread in memory that holds no thread on any list: it has the priority
  asked for; without a delay it is ready at once and runs if it should, with one it is
  among the timeouts at its place in time, and with an endless delay it is on no list. No
  other thread is affected and the right thread runs.
\<close>

theorem k_thread_create_ok:
  assumes s: "sched_ok k" and t: "vacant k t" and p: "prio_ok p"
  shows "let k' = k_thread_create t p options delay k in
    sched_ok k' \<and> prio (threads k' t) = p \<and>
    (\<forall>u. is_thread_ready k' u \<longleftrightarrow> (if u = t then delay = 0 else is_thread_ready k u)) \<and>
    remaining k' = (if delay = 0 \<or> delay = K_FOREVER then remaining k
       else expiry_insert (ThreadTO t) (TICK_ALIGN + ms_to_ticks delay) (remaining k))"
proof (cases "delay = 0")
  case True
  with create_now [OF s t p, of options] show ?thesis by (simp add: Let_def)
next
  case False
  with create_delayed [OF s t p, of delay options] show ?thesis by (auto simp: Let_def)
qed

lemma vacant_pair: "vacant pair_kernel 4" "vacant pair_kernel 5"
  by code_simp+

theorem k_thread_create_ok_witness:
  "is_thread_ready (k_thread_create 5 3 0 0 pair_kernel) 5 \<and>
   remaining (k_thread_create 5 3 0 45 pair_kernel) = [(ThreadTO 5, 6)]"
proof -
  have "remaining pair_kernel = []" "TICK_ALIGN + ms_to_ticks 45 = 6" by code_simp+
  then show ?thesis
    using k_thread_create_ok [OF pair_sched_ok vacant_pair(2), of 3 0 0] k_thread_create_ok [OF pair_sched_ok vacant_pair(2), of 3 0 45]
    by (simp add: Let_def prio_ok_simps expiry_insert_def K_FOREVER_def)
qed

text \<open>
  C30. Suspending a thread takes it off the ready list and nothing else: it keeps its place
  on a wait queue and its timeout. Resuming it makes it ready again, behind the threads of
  its priority, unless something else still holds it back. Whichever thread runs after
  either call is one that may.
\<close>

theorem suspend_resume_ok:
  assumes s: "sched_ok k" and t: "t \<noteq> idle_thread k" "\<not> st k t 4"
  shows "let k1 = k_thread_suspend t k; k2 = k_thread_resume t k1 in
    sched_ok k1 \<and> ready_list k1 = remove1 t (ready_list k) \<and> timeouts k1 = timeouts k \<and>
    (\<forall>w. queues k1 (WaitQ w) = queues k (WaitQ w)) \<and>
    sched_ok k2 \<and> timeouts k2 = timeouts k \<and> (\<forall>w. queues k2 (WaitQ w) = queues k (WaitQ w)) \<and>
    ready_list k2 = (if is_thread_ready k t
      then prio_insert (\<lambda>u. prio (threads k u)) t (remove1 t (ready_list k)) else ready_list k)"
proof -
  note k = sched_okD [OF s] and f1 = suspend_spec [OF s t(1)]
  let ?k1 = "k_thread_suspend t k"
  have "st ?k1 t 4" by (simp add: f1)
  note q = single_resume_spec [OF sched_okD(1) [OF f1(1)] this] and r = resume_sched_ok [OF f1(1) this]
  have "ready_list (k_thread_single_resume t ?k1) = (if is_thread_ready k t
      then prio_insert (\<lambda>u. prio (threads k u)) t (remove1 t (ready_list k)) else ready_list k)"
    using t(2) kinv_ready_iff [OF k(1), of t] unfolding q(9) f1 by (auto simp: is_thread_ready_iff remove1_idem)
  then show ?thesis
    using r f1 q(3,7) by (simp add: Let_def k_thread_resume_def reschedule_threads_def)
qed

theorem suspend_resume_ok_witness:
  "ready_list (k_thread_suspend 3 pair_kernel) = [2, 0] \<and>
   ready_list (k_thread_resume 3 (k_thread_suspend 3 pair_kernel)) = [2, 3, 0]"
proof -
  have "is_thread_ready pair_kernel 3" "\<not> st pair_kernel 3 4" by code_simp+
  then show ?thesis
    using suspend_resume_ok [OF pair_sched_ok, of 3] by (simp add: Let_def pair_current pair_ready_list prio_insert_def)
qed

text \<open>
  Resuming a thread that is ready and not suspended: it is put on the ready queue a second
  time. The comment in the header says that the call has no effect on such a thread.
\<close>

lemma k_thread_resume_not_suspended:
  "is_thread_ready pair_kernel 3 \<and> \<not> st pair_kernel 3 4 \<and> ready_list pair_kernel = [2, 3, 0] \<and>
   ready_list (k_thread_resume 3 pair_kernel) = [2, 3, 3, 0]"
  by code_simp

text \<open>
  C29. Aborting a thread that has no abort handler, whatever it is doing: it is dead and on no list any more, neither
  of the ready threads nor of the waiters of any object nor of the timeouts, and no other
  thread and no other timeout is affected. Whichever thread runs then is one that may.
\<close>

theorem k_thread_abort_ok:
  assumes s: "sched_ok k" and t: "t \<noteq> idle_thread k" and e: "delta k (ThreadTO t) \<noteq> EXPIRED"
    and f: "fn_abort (threads k t) = None"
  shows "let k' = k_thread_abort abort_fn t k in
    sched_ok k' \<and> st k' t 3 \<and> (\<forall>u. is_thread_ready k' u \<longleftrightarrow> u \<noteq> t \<and> is_thread_ready k u) \<and>
    (\<forall>w. queues k' (WaitQ w) = remove1 t (queues k (WaitQ w)) \<and> t \<notin> set (queues k' (WaitQ w))) \<and>
    remaining k' = filter (\<lambda>(r, _). r \<noteq> ThreadTO t) (remaining k)"
proof -
  note k = sched_okD [OF s] and a = single_abort_spec [OF sched_okD(1) [OF s] t e f, of abort_fn]
  have "t \<notin> set (remove1 t (queues k (WaitQ w)))" for w using kinv_wait_distinct [OF k(1)] by simp
  then show ?thesis
    using a abort_sched_ok [OF s t e f, of abort_fn] by (simp add: Let_def k_thread_abort_def reschedule_threads_def remaining_def)
qed

theorem k_thread_abort_ok_witness:
  "let k' = k_thread_abort (\<lambda>f k. k) 2 sleeper_kernel in sched_ok k' \<and> remaining k' = []"
proof -
  have "2 \<noteq> idle_thread sleeper_kernel" "delta sleeper_kernel (ThreadTO 2) \<noteq> EXPIRED" "fn_abort (threads sleeper_kernel 2) = None"
    by code_simp+
  then show ?thesis
    using k_thread_abort_ok [OF sleeper_sched_ok, of 2 "\<lambda>f k. k"] by (simp add: Let_def sleeper_facts)
qed

text \<open>Setting up a thread and making it ready, as the kernel does for its first two threads.\<close>

definition boot_thread :: "tid \<Rightarrow> int \<Rightarrow> 'a kernel_scheme \<Rightarrow> 'a kernel_scheme" where
  "boot_thread t p k = add_thread_to_ready_q t (mark_thread_as_started t (setup_new_thread t p (ucast K_ESSENTIAL) k))"

lemma boot_thread_frame:
  assumes "prio_ok p"
  shows "queues (boot_thread t p k) (WaitQ w) = queues k (WaitQ w)"
    "st (boot_thread t p k) u n \<longleftrightarrow> u \<noteq> t \<and> st k u n"
    "prio (threads (boot_thread t p k) u) = (if u = t then p else prio (threads k u))"
    "delta (boot_thread t p k) r = (if r = ThreadTO t then INACTIVE else delta k r)"
    "idle_thread (boot_thread t p k) = idle_thread k" "handling_timeouts (boot_thread t p k) = handling_timeouts k"
  using assms by (auto simp: boot_thread_def st_mark to_s8_prio) (simp_all add: mark_thread_as_started_def to_s8_prio)

lemma boot_first:
  assumes k: "prio_bmap k = [0]" "\<forall>i. queues k (ReadyQ i) = []" "cache k = t" and p: "prio_ok p"
  shows "rq_ok (boot_thread t p k)" "ready_list (boot_thread t p k) = [t]"
proof -
  let ?k = "mark_thread_as_started t (setup_new_thread t p (ucast K_ESSENTIAL) k)"
  have f: "prio_bmap ?k = [0]" "queues ?k = queues k" "cache ?k = t" "prio (threads ?k t) = p"
    using k p by (simp_all add: mark_thread_as_started_def to_s8_prio)
  have "rq_shape ?k" "ready_list ?k = []" using f k(2) by (simp_all add: rq_shape_def ready_list_def)
  from add_first_ok [OF this f(3)] show "rq_ok (boot_thread t p k)" "ready_list (boot_thread t p k) = [t]"
    unfolding boot_thread_def using f(4) p by simp_all
qed

lemma boot_second:
  assumes k: "rq_ok k" "t \<notin> set (ready_list k)" and p: "prio_ok p"
  shows "rq_ok (boot_thread t p k)"
    "ready_list (boot_thread t p k) = prio_insert (\<lambda>u. if u = t then p else prio (threads k u)) t (ready_list k)"
proof -
  let ?k = "mark_thread_as_started t (setup_new_thread t p (ucast K_ESSENTIAL) k)"
  have pr: "prio (threads ?k u) = (if u = t then p else prio (threads k u))" for u
    using p by (simp add: mark_thread_as_started_def to_s8_prio)
  have "rq_ok ?k" by (rule rq_ok_cong [OF _ _ _ _ k(1)]) (use k(2) pr in \<open>auto simp: mark_thread_as_started_def\<close>)
  moreover have "ready_list ?k = ready_list k" by (simp add: mark_thread_as_started_def)
  ultimately show "rq_ok (boot_thread t p k)"
    "ready_list (boot_thread t p k) = prio_insert (\<lambda>u. if u = t then p else prio (threads k u)) t (ready_list k)"
    using add_ok [of ?k t] k(2) p pr by (simp_all add: boot_thread_def)
qed

text \<open>
  Memory in which no thread has been created; the kernel's own structures are zero, and no
  object has a waiter. A thread identifier stands for memory that a thread may be created in, and what that memory holds
  before is not a thread: by convention its state is one that is not ready and its timeout inactive, which the creation of
  the thread sets anyway.
\<close>

definition cleared :: "'a kernel_scheme \<Rightarrow> bool" where
  "cleared k \<longleftrightarrow> prio_bmap k = [0] \<and> \<not> handling_timeouts k \<and> (\<forall>w. queues k (WaitQ w) = []) \<and>
     (\<forall>t. \<not> is_thread_ready k t \<and> \<not> st k t 1 \<and> prio_ok (prio (threads k t))) \<and> (\<forall>r. delta k r = INACTIVE)"

lemma prepare_kinv:
  assumes k: "cleared k" and d: "m \<noteq> idle_thread k" "d \<noteq> m" "d \<noteq> idle_thread k"
  shows "kinv {} (prepare_multithreading d m k)" "ready_list (prepare_multithreading d m k) = [m, idle_thread k]"
    "settled (prepare_multithreading d m k)"
proof -
  define k2 where "k2 = upd_thread d (\<lambda>th. th\<lparr>user_options := K_ESSENTIAL, thread_state := THREAD_DUMMY\<rparr>) (k\<lparr>current := d\<rparr>)"
  define k4 where "k4 = k2\<lparr>queues := (\<lambda>q. case q of ReadyQ i \<Rightarrow> [] | WaitQ w \<Rightarrow> queues k2 q), cache := m\<rparr>"
  let ?i = "idle_thread k" and ?l = K_LOWEST_THREAD_PRIO
  let ?k6 = "boot_thread m 0 k4"
  let ?k8 = "boot_thread ?i ?l ?k6"
  have po: "prio_ok 0" "prio_ok ?l" by (simp_all add: prio_ok_simps prio_consts)
  note f6 = boot_thread_frame [OF po(1), of m k4] and f8 = boot_thread_frame [OF po(2), of ?i ?k6]
  have f4: "prio_bmap k4 = [0]" "queues k4 (ReadyQ i) = []" "queues k4 (WaitQ w) = []" "cache k4 = m" "idle_thread k4 = ?i"
    "st k4 u n \<longleftrightarrow> (if u = d then n = 0 else st k u n)" "delta k4 r = INACTIVE" "prio_ok (prio (threads k4 u))"
    "\<not> handling_timeouts k4" for i w u n r
    using k by (auto simp: cleared_def k4_def k2_def)
  have e: "prepare_multithreading d m k = ?k8\<lparr>timeout_q := [], nested := 0\<rparr>"
  proof -
    have "prepare_multithreading d m k = (boot_thread (idle_thread ?k6) ?l ?k6)\<lparr>timeout_q := [], nested := 0\<rparr>"
      by (simp only: prepare_multithreading_def boot_thread_def k4_def k2_def Let_def CONFIG_MAIN_THREAD_PRIORITY_def setup_simps)
    then show ?thesis by (simp add: f6 f4)
  qed
  note r6 = boot_first [OF f4(1) _ f4(4) po(1)]
  have r8: "rq_ok ?k8" "ready_list ?k8 = [m, ?i]"
    using boot_second [of ?k6 ?i ?l] r6 f4(2) po d(1) f6(3) by (simp_all add: prio_insert_def prio_consts)
  have rd: "is_thread_ready ?k8 t \<longleftrightarrow> t = m \<or> t = ?i" for t
  proof -
    have "\<not> is_thread_ready k t" "delta k (ThreadTO t) = INACTIVE" using k by (simp_all add: cleared_def)
    then have "st k t 0 \<or> st k t 1 \<or> st k t 2 \<or> st k t 3 \<or> st k t 4" by (simp add: is_thread_ready_iff)
    then show ?thesis using d by (auto simp: is_thread_ready_iff f8 f6 f4)
  qed
  show "ready_list (prepare_multithreading d m k) = [m, ?i]" using r8(2) by (simp add: e ready_list_def)
  show "settled (prepare_multithreading d m k)" by (auto simp: e settled_def f8 f6 f4 INACTIVE_def EXPIRED_def)
  have "ready_inv {} ?k8" using r8 rd by (auto simp: ready_inv_def)
  moreover have "wait_inv {} ?k8" using k d by (auto simp: wait_inv_def f8 f6 f4 cleared_def)
  moreover have "link_inv {} ?k8" by (simp add: link_inv_def f8 f6 f4)
  moreover have "thread_inv {} ?k8" using po by (simp add: thread_inv_def rd f8 f6 f4)
  ultimately show "kinv {} (prepare_multithreading d m k)"
    by (auto simp: e kinv_def ready_inv_def rq_ok_def rq_shape_def ready_list_def wait_inv_def link_inv_def thread_inv_def
        delta_inv_def is_thread_ready_iff timeout_link_def f8 f6 f4 INACTIVE_def EXPIRED_def cong: option.case_cong)
qed

lemma prepare_frame:
  "idle_thread (prepare_multithreading d m k) = idle_thread k" "timeout_q (prepare_multithreading d m k) = []"
  "nested (prepare_multithreading d m k) = 0" "handling_timeouts (prepare_multithreading d m k) = handling_timeouts k"
  "queues (prepare_multithreading d m k) (WaitQ w) = queues k (WaitQ w)"
  by (simp_all add: prepare_multithreading_def Let_def mark_thread_as_started_def)

lemma booted_sched_ok:
  assumes k: "cleared k" and d: "m \<noteq> idle_thread k" "d \<noteq> m" "d \<noteq> idle_thread k"
  shows "sched_ok (switch_to_main_thread (prepare_multithreading d m k))"
  unfolding switch_to_main_thread_def by (rule Swap_ok) (rule prepare_kinv [OF k d])+

text \<open>
  C31. The start of the kernel establishes the invariant: from memory in which no thread
  has been created, preparing the main and the idle thread and switching to the first of
  them leaves a state in which exactly these two are ready and the main thread runs.
\<close>

theorem boot_establishes_invariant:
  assumes k: "cleared k" and d: "m \<noteq> idle_thread k" "d \<noteq> m" "d \<noteq> idle_thread k"
  shows "let k' = switch_to_main_thread (prepare_multithreading d m k) in
    sched_ok k' \<and> current k' = m \<and> ready_list k' = [m, idle_thread k]"
proof -
  note p = prepare_kinv [OF k d]
  have "cache (prepare_multithreading d m k) = m" using kinvD(6) [OF p(1)] p(2) by (simp add: rq_ok_def)
  then show ?thesis using Swap_ok [OF p(1,3)] p(2) by (simp add: Let_def switch_to_main_thread_def)
qed

definition cleared_kernel :: kernel where
  "cleared_kernel = zero_kernel\<lparr>threads := (\<lambda>_. example_thread 0 THREAD_PRESTART)\<rparr>"

lemma cleared_kernel_ok: "cleared cleared_kernel" "idle_thread cleared_kernel = 0"
  by (simp_all add: cleared_def cleared_kernel_def zero_kernel_def example_thread_def is_thread_ready_iff prio_ok_simps)

theorem boot_establishes_invariant_witness:
  "sched_ok (switch_to_main_thread (prepare_multithreading 9 2 cleared_kernel))"
  using boot_establishes_invariant [OF cleared_kernel_ok(1), of 2 9] by (simp add: cleared_kernel_ok Let_def)

end
