(* ===== verification/Sem.thy ===== *)
theory Sem
  imports Waiters
begin

text \<open>
  Semaphores (\<^verbatim>\<open>kernel/sem.c\<close>). A call passes the semaphore in and out. A call that
  blocks returns no value: it is modelled up to the context switch, and the value the
  thread gets when it runs again is the one left in its context (\<open>swap_retval\<close>). The
  specification of a semaphore is its count and the list of its waiters.
\<close>

section \<open>Operations\<close>

record k_sem =
  sem_wait_q :: waddr
  sem_count :: u32
  sem_limit :: u32

definition k_sem_init :: "k_sem \<Rightarrow> u32 \<Rightarrow> u32 \<Rightarrow> 'a kernel_scheme \<Rightarrow> k_sem \<times> 'a kernel_scheme" where
  "k_sem_init sem initial_count limit k =
     (sem\<lparr>sem_count := initial_count, sem_limit := limit\<rparr>,
      k\<lparr>queues := (queues k)(WaitQ (sem_wait_q sem) := [])\<rparr>)"

definition increment_count_up_to_limit :: "k_sem \<Rightarrow> k_sem" where
  "increment_count_up_to_limit sem =
     sem\<lparr>sem_count := sem_count sem + (if sem_count sem \<noteq> sem_limit sem then 1 else 0)\<rparr>"

definition do_sem_give :: "k_sem \<Rightarrow> 'a kernel_scheme \<Rightarrow> bool \<times> k_sem \<times> 'a kernel_scheme" where
  "do_sem_give sem k =
     (case unpend_first_thread (sem_wait_q sem) k of
        (None, k1) \<Rightarrow> (False, increment_count_up_to_limit sem, k1)
      | (Some t, k1) \<Rightarrow>
          let k2 = snd (abort_thread_timeout t k1);
              k3 = ready_thread t k2;
              k4 = set_thread_return_value t 0 k3
          in (\<not> is_in_isr k4 \<and> must_switch_threads k4, sem, k4))"

definition sem_give_non_preemptible :: "k_sem \<Rightarrow> 'a kernel_scheme \<Rightarrow> k_sem \<times> 'a kernel_scheme" where
  "sem_give_non_preemptible sem k =
     (case unpend_first_thread (sem_wait_q sem) k of
        (None, k1) \<Rightarrow> (increment_count_up_to_limit sem, k1)
      | (Some t, k1) \<Rightarrow>
          let k2 = snd (abort_thread_timeout t k1);
              k3 = ready_thread t k2
          in (sem, set_thread_return_value t 0 k3))"

definition k_sem_give :: "k_sem \<Rightarrow> 'a kernel_scheme \<Rightarrow> k_sem \<times> 'a kernel_scheme" where
  "k_sem_give sem k =
     (let (swap, sem', k') = do_sem_give sem k in (sem', if swap then Swap k' else k'))"

definition k_sem_take :: "k_sem \<Rightarrow> int \<Rightarrow> 'a kernel_scheme \<Rightarrow> int option \<times> k_sem \<times> 'a kernel_scheme" where
  "k_sem_take sem timeout k =
     (if sem_count sem > 0 then (Some 0, sem\<lparr>sem_count := sem_count sem - 1\<rparr>, k)
      else if timeout = K_NO_WAIT then (Some (- EBUSY), sem, k)
      else (None, sem, Swap (pend_current_thread (sem_wait_q sem) timeout k)))"

definition k_sem_reset :: "k_sem \<Rightarrow> k_sem" where
  "k_sem_reset sem = sem\<lparr>sem_count := 0\<rparr>"

definition k_sem_count_get :: "k_sem \<Rightarrow> u32" where
  "k_sem_count_get sem = sem_count sem"

section \<open>Specification\<close>

text \<open>
  The abstract semaphore: the count, and the waiters in the order they will be served.
  Giving serves the first waiter or raises the count up to the limit; taking lowers the
  count or joins the waiters behind those of the same or a higher priority.
\<close>

type_synonym asem = "nat \<times> tid list"

definition abs_sem :: "k_sem \<Rightarrow> 'a kernel_scheme \<Rightarrow> asem" where
  "abs_sem sem k = (unat (sem_count sem), queues k (WaitQ (sem_wait_q sem)))"

fun asem_give :: "nat \<Rightarrow> asem \<Rightarrow> tid option \<times> asem" where
  "asem_give limit (c, []) = (None, (min (c + 1) limit, []))"
| "asem_give limit (c, t # ts) = (Some t, (c, ts))"

fun asem_take :: "(tid \<Rightarrow> int) \<Rightarrow> tid \<Rightarrow> bool \<Rightarrow> asem \<Rightarrow> int option \<times> asem" where
  "asem_take pf me wait (c, ts) =
     (if 0 < c then (Some 0, (c - 1, ts))
      else if wait then (None, (c, prio_insert pf me ts))
      else (Some (- EBUSY), (c, ts)))"

text \<open>A count above zero and a waiter do not occur together, and the count is within the limit.\<close>

definition sem_inv :: "k_sem \<Rightarrow> 'a kernel_scheme \<Rightarrow> bool" where
  "sem_inv sem k \<longleftrightarrow> sem_count sem \<le> sem_limit sem \<and>
     (0 < sem_count sem \<longrightarrow> queues k (WaitQ (sem_wait_q sem)) = [])"

interpretation sem_obj: waited_object sem_inv sem_wait_q
  by unfold_locales (auto simp: sem_inv_def)

section \<open>Giving\<close>

lemma increment_abs:
  assumes "sem_count sem \<le> sem_limit sem"
  shows "unat (sem_count (increment_count_up_to_limit sem)) = min (unat (sem_count sem) + 1) (unat (sem_limit sem))"
proof (cases "sem_count sem = sem_limit sem")
  case False
  with assms have "sem_count sem < sem_limit sem" by simp
  then have "unat (sem_count sem) < unat (sem_limit sem)" by (simp add: word_less_nat_alt)
  moreover from this have "unat (sem_count sem + 1) = unat (sem_count sem) + 1"
    by (rule unat_Suc_exact)
  ultimately show ?thesis using False by (simp add: increment_count_up_to_limit_def)
qed (simp add: increment_count_up_to_limit_def)

lemma do_sem_give_cases:
  assumes "\<not> handling_timeouts k"
  shows "do_sem_give sem k =
    (case queues k (WaitQ (sem_wait_q sem)) of
       [] \<Rightarrow> (False, increment_count_up_to_limit sem, k)
     | t # _ \<Rightarrow>
         let k' = set_thread_return_value t 0 (woken t (unpend_thread t k))
         in (\<not> is_in_isr k' \<and> must_switch_threads k', sem, k'))"
  by (simp add: do_sem_give_def unpend_first_head [OF assms] woken_def Let_def split: list.split)

lemma k_sem_give_empty:
  assumes "\<not> handling_timeouts k" "queues k (WaitQ (sem_wait_q sem)) = []"
  shows "k_sem_give sem k = (increment_count_up_to_limit sem, k)"
  by (simp add: k_sem_give_def do_sem_give_cases [OF assms(1)] assms(2))

lemma k_sem_give_waiter:
  assumes s: "sched_ok k" and h: "\<not> handling_timeouts k" and i: "\<not> is_in_isr k"
    and q: "queues k (WaitQ (sem_wait_q sem)) = t # ts"
  obtains k' where "k_sem_give sem k = (sem, k')" and "served t 0 k k'"
proof -
  let ?k2 = "set_thread_return_value t 0 (woken t (unpend_thread t k))"
  have "unpend_first_thread (sem_wait_q sem) k = (Some t, unpend_thread t k)" by (simp add: unpend_first_head [OF h] q)
  note d = serve_retval [OF s i this, of 0]
  show ?thesis
    by (rule that [OF _ d(1)]) (use d(3) in \<open>simp add: k_sem_give_def do_sem_give_cases [OF h] q Let_def\<close>)
qed

lemma k_sem_give_keeps:
  assumes s: "sched_ok k" and h: "\<not> handling_timeouts k" and i: "\<not> is_in_isr k" and v: "sem_inv sem k"
  shows "evolves W k (snd (k_sem_give sem k))" "sem_inv (fst (k_sem_give sem k)) (snd (k_sem_give sem k))"
    "sem_wait_q (fst (k_sem_give sem k)) = sem_wait_q sem"
proof -
  have "evolves W k (snd (k_sem_give sem k)) \<and> sem_inv (fst (k_sem_give sem k)) (snd (k_sem_give sem k)) \<and>
    sem_wait_q (fst (k_sem_give sem k)) = sem_wait_q sem"
  proof (cases "queues k (WaitQ (sem_wait_q sem))")
    case Nil
    have "sem_count (increment_count_up_to_limit sem) \<le> sem_limit sem"
      using increment_abs [of sem] v by (simp add: sem_inv_def word_le_nat_alt)
    with Nil s show ?thesis
      by (simp add: k_sem_give_empty [OF h Nil] sem_inv_def evolves_refl) (simp add: increment_count_up_to_limit_def)
  next
    case (Cons t ts)
    obtain k' where "k_sem_give sem k = (sem, k')" "served t 0 k k'" by (rule k_sem_give_waiter [OF s h i Cons])
    with Cons v show ?thesis by (simp add: sem_inv_def served_evolves)
  qed
  then show "evolves W k (snd (k_sem_give sem k))" "sem_inv (fst (k_sem_give sem k)) (snd (k_sem_give sem k))"
    "sem_wait_q (fst (k_sem_give sem k)) = sem_wait_q sem" by simp_all
qed

lemma k_sem_take_keeps:
  assumes s: "sched_ok k" and c: "current k \<noteq> idle_thread k" and v: "sem_inv sem k"
  shows "evolves {sem_wait_q sem} k (snd (snd (k_sem_take sem timeout k)))"
    "sem_inv (fst (snd (k_sem_take sem timeout k))) (snd (snd (k_sem_take sem timeout k)))"
    "sem_wait_q (fst (snd (k_sem_take sem timeout k))) = sem_wait_q sem"
proof -
  have "sem_count sem - 1 \<le> sem_limit sem" if "sem_count sem > 0"
    using v unat_pred_exact [OF that] by (auto simp: sem_inv_def word_le_nat_alt)
  moreover have "sem_count sem = 0" if "\<not> sem_count sem > 0" using that by (simp add: word_gt_0)
  ultimately show "evolves {sem_wait_q sem} k (snd (snd (k_sem_take sem timeout k)))"
    "sem_inv (fst (snd (k_sem_take sem timeout k))) (snd (snd (k_sem_take sem timeout k)))"
    "sem_wait_q (fst (snd (k_sem_take sem timeout k))) = sem_wait_q sem"
    using v block_evolves [OF sched_okD(1,2,4) [OF s] c, of "sem_wait_q sem" timeout] s
    by (auto simp: k_sem_take_def sem_inv_def evolves_refl)
qed

section \<open>Properties\<close>

text \<open>
  C19. Giving a semaphore from a thread implements the abstract semaphore: with no waiter
  the count goes up by one but not above the limit; otherwise the first waiter is taken
  off the queue, its pending \<^verbatim>\<open>k_sem_take\<close> returns 0, and it is ready unless it is
  suspended or dead. The invariants of the semaphore and of the scheduler hold again.
\<close>

theorem k_sem_give_refines:
  assumes s: "sched_ok k" and h: "\<not> handling_timeouts k" and i: "\<not> is_in_isr k" and v: "sem_inv sem k"
  shows "case k_sem_give sem k of (sem', k') \<Rightarrow>
    sched_ok k' \<and> sem_inv sem' k' \<and>
    abs_sem sem' k' = snd (asem_give (unat (sem_limit sem)) (abs_sem sem k)) \<and>
    (case fst (asem_give (unat (sem_limit sem)) (abs_sem sem k)) of
       None \<Rightarrow> k' = k
     | Some t \<Rightarrow> swap_retval (threads k' t) = 0 \<and>
         (is_thread_ready k' t \<longleftrightarrow> \<not> st k t 0 \<and> \<not> st k t 3 \<and> \<not> st k t 4))"
proof (cases "queues k (WaitQ (sem_wait_q sem))")
  case Nil
  with k_sem_give_keeps [OF s h i v] s v show ?thesis
    by (simp add: k_sem_give_empty [OF h Nil] abs_sem_def increment_abs sem_inv_def)
next
  case (Cons t ts)
  obtain k' where k': "k_sem_give sem k = (sem, k')" "served t 0 k k'" by (rule k_sem_give_waiter [OF s h i Cons])
  with Cons v show ?thesis by (simp add: abs_sem_def sem_inv_def served_def)
qed

definition example_sem :: k_sem where
  "example_sem = \<lparr>sem_wait_q = 7, sem_count = 0, sem_limit = 1\<rparr>"

lemma example_sem_inv: "sem_inv example_sem boot_kernel"
  by (simp add: sem_inv_def example_sem_def)

theorem k_sem_give_refines_witness:
  "abs_sem (fst (k_sem_give example_sem boot_kernel)) (snd (k_sem_give example_sem boot_kernel)) = (1, [])"
  using k_sem_give_refines [OF boot_sched_ok _ _ example_sem_inv]
  by (simp add: case_prod_unfold abs_sem_def is_in_isr_def) (simp add: example_sem_def)

text \<open>
  C27. Taking a semaphore implements the abstract semaphore: a count above zero goes down
  by one and the call returns 0 at once; otherwise a call that may not wait returns
  \<^verbatim>\<open>-EBUSY\<close> and one that may joins the waiters behind those of the same or a higher
  priority, another thread runs, and the result prepared for the caller is \<^verbatim>\<open>-EAGAIN\<close>.
\<close>

theorem k_sem_take_refines:
  assumes s: "sched_ok k" and c: "current k \<noteq> idle_thread k" and v: "sem_inv sem k"
  shows "case k_sem_take sem timeout k of (r, sem', k') \<Rightarrow>
    sched_ok k' \<and> sem_inv sem' k' \<and>
    (r, abs_sem sem' k') = asem_take (\<lambda>t. prio (threads k t)) (current k) (timeout \<noteq> K_NO_WAIT) (abs_sem sem k) \<and>
    (r = None \<longrightarrow> swap_retval (threads k' (current k)) = - EAGAIN \<and> is_thread_pending k' (current k))"
proof (cases "sem_count sem > 0")
  case True
  then have e: "unat (sem_count sem - 1) = unat (sem_count sem) - 1" by (rule unat_pred_exact)
  have pos: "0 < unat (sem_count sem)" using True by (simp add: word_less_nat_alt)
  have "sem_count sem - 1 \<le> sem_limit sem"
    using v e by (auto simp: sem_inv_def word_le_nat_alt)
  with True s v pos e show ?thesis by (simp add: k_sem_take_def abs_sem_def sem_inv_def)
next
  case False
  then have "sem_count sem = 0" by (simp add: word_gt_0)
  with False s v block_current [OF sched_okD(1,2,4) [OF s] c, of "sem_wait_q sem" timeout] show ?thesis
    by (simp add: k_sem_take_def abs_sem_def sem_inv_def)
qed

theorem k_sem_take_refines_witness:
  "fst (k_sem_take example_sem K_FOREVER boot_kernel) = None \<and>
   abs_sem (fst (snd (k_sem_take example_sem K_FOREVER boot_kernel)))
     (snd (snd (k_sem_take example_sem K_FOREVER boot_kernel))) = (0, [2])"
  using k_sem_take_refines [OF boot_sched_ok _ example_sem_inv, of K_FOREVER]
  by (simp add: case_prod_unfold abs_sem_def K_FOREVER_def K_NO_WAIT_def) (simp add: example_sem_def)

text \<open>
  The test against the limit is for equality: a semaphore whose initial count was above
  its limit goes up without bound, one count per call.
\<close>

theorem increment_above_limit:
  assumes "sem_limit sem < sem_count sem" and "sem_count sem \<noteq> - 1"
  shows "unat (sem_count (increment_count_up_to_limit sem)) = unat (sem_count sem) + 1 \<and>
    sem_limit sem < sem_count (increment_count_up_to_limit sem)"
proof -
  have "unat (sem_count sem + 1) = unat (sem_count sem) + 1" using assms(2) by (rule unat_Suc_not_max)
  then show ?thesis using assms by (auto simp: increment_count_up_to_limit_def word_less_nat_alt)
qed

theorem increment_above_limit_witness:
  "unat (sem_count (increment_count_up_to_limit \<lparr>sem_wait_q = 7, sem_count = 5, sem_limit = 1\<rparr>)) = 6"
  using increment_above_limit [of "\<lparr>sem_wait_q = 7, sem_count = 5, sem_limit = 1\<rparr>"] by simp

end
