(* ===== verification/Mutex.thy ===== *)
theory Mutex
  imports Waiters
begin

text \<open>
  Mutexes with priority inheritance (\<^verbatim>\<open>kernel/mutex.c\<close>). \<^verbatim>\<open>k_mutex_lock\<close> is modelled in two
  parts: up to the context switch, and what the thread does when it runs again, with the
  mutex as it is then. A dereference of a null owner is the error value \<open>NullDeref\<close>.
\<close>

section \<open>Operations\<close>

datatype fault = NullDeref

record k_mutex =
  mutex_wait_q :: waddr
  owner :: "tid option"
  lock_count :: u32
  owner_orig_prio :: int

definition k_mutex_init :: "k_mutex \<Rightarrow> 'a kernel_scheme \<Rightarrow> k_mutex \<times> 'a kernel_scheme" where
  "k_mutex_init m k =
     (m\<lparr>owner := None, lock_count := 0\<rparr>, k\<lparr>queues := (queues k)(WaitQ (mutex_wait_q m) := [])\<rparr>)"

definition new_prio_for_inheritance :: "int \<Rightarrow> int \<Rightarrow> int" where
  "new_prio_for_inheritance target limit =
     (let new_prio = (if is_prio_higher target limit then target else limit)
      in get_new_prio_with_ceiling new_prio)"

definition adjust_owner_prio :: "k_mutex \<Rightarrow> int \<Rightarrow> 'a kernel_scheme \<Rightarrow> fault + 'a kernel_scheme" where
  "adjust_owner_prio m new_prio k =
     (case owner m of
        None \<Rightarrow> Inl NullDeref
      | Some t \<Rightarrow> Inr (if prio (threads k t) \<noteq> new_prio then thread_priority_set t new_prio k else k))"

definition k_mutex_lock ::
  "k_mutex \<Rightarrow> int \<Rightarrow> 'a kernel_scheme \<Rightarrow> fault + (int option \<times> k_mutex \<times> 'a kernel_scheme)" where
  "k_mutex_lock m timeout k =
     (let k1 = sched_lock k
      in if lock_count m = 0 \<or> owner m = Some (current k1)
         then Inr (Some 0,
                m\<lparr>owner_orig_prio := (if lock_count m = 0 then prio (threads k1 (current k1)) else owner_orig_prio m),
                  lock_count := lock_count m + 1, owner := Some (current k1)\<rparr>,
                k_sched_unlock k1)
         else if timeout = K_NO_WAIT then Inr (Some (- EBUSY), m, k_sched_unlock k1)
         else
           (case owner m of
              None \<Rightarrow> Inl NullDeref
            | Some t \<Rightarrow>
                let new_prio = new_prio_for_inheritance (prio (threads k1 (current k1))) (prio (threads k1 t))
                in case (if is_prio_higher new_prio (prio (threads k1 t)) then adjust_owner_prio m new_prio k1
                         else Inr k1) of
                     Inl e \<Rightarrow> Inl e
                   | Inr k2 \<Rightarrow> Inr (None, m, Swap (pend_current_thread (mutex_wait_q m) timeout k2))))"

definition k_mutex_lock_resume ::
  "k_mutex \<Rightarrow> 'a kernel_scheme \<Rightarrow> fault + (int \<times> k_mutex \<times> 'a kernel_scheme)" where
  "k_mutex_lock_resume m k =
     (let got_mutex = swap_retval (threads k (current k))
      in if got_mutex = 0 then Inr (0, m, k_sched_unlock k)
         else
           let waiter = peek_first_pending_thread k (mutex_wait_q m);
               new_prio = (case waiter of
                             Some w \<Rightarrow> new_prio_for_inheritance (prio (threads k w)) (owner_orig_prio m)
                           | None \<Rightarrow> owner_orig_prio m)
           in case adjust_owner_prio m new_prio k of
                Inl e \<Rightarrow> Inl e
              | Inr k1 \<Rightarrow> Inr (- EAGAIN, m, k_sched_unlock k1))"

definition k_mutex_unlock :: "k_mutex \<Rightarrow> 'a kernel_scheme \<Rightarrow> fault + (k_mutex \<times> 'a kernel_scheme)" where
  "k_mutex_unlock m k =
     (let k1 = sched_lock k;
          m1 = m\<lparr>lock_count := lock_count m - 1\<rparr>
      in if lock_count m1 \<noteq> 0 then Inr (m1, k_sched_unlock k1)
         else
           (case adjust_owner_prio m1 (owner_orig_prio m1) k1 of
              Inl e \<Rightarrow> Inl e
            | Inr k2 \<Rightarrow>
                (case unpend_first_thread (mutex_wait_q m1) k2 of
                   (Some t, k3) \<Rightarrow>
                     let k4 = snd (abort_thread_timeout t k3);
                         k5 = ready_thread t k4;
                         k6 = set_thread_return_value t 0 k5;
                         m2 = m1\<lparr>owner := Some t, lock_count := lock_count m1 + 1,
                                 owner_orig_prio := prio (threads k6 t)\<rparr>
                     in Inr (m2, k_sched_unlock k6)
                 | (None, k3) \<Rightarrow> Inr (m1\<lparr>owner := None\<rparr>, k_sched_unlock k3))))"

section \<open>Invariant\<close>

text \<open>
  The mutex is locked exactly when it has an owner, only a locked mutex has waiters, and
  the owner is an ordinary thread whose own priority the mutex remembers.
\<close>

definition mutex_inv :: "k_mutex \<Rightarrow> 'a kernel_scheme \<Rightarrow> bool" where
  "mutex_inv m k \<longleftrightarrow>
     (lock_count m = 0 \<longleftrightarrow> owner m = None) \<and>
     (owner m = None \<longrightarrow> queues k (WaitQ (mutex_wait_q m)) = []) \<and>
     (\<forall>t. owner m = Some t \<longrightarrow> t \<noteq> idle_thread k \<and> prio_ok (owner_orig_prio m))"

interpretation mutex_obj: waited_object mutex_inv mutex_wait_q
  by unfold_locales (auto simp: mutex_inv_def)

lemma inherited_prio_ok:
  "prio_ok p \<Longrightarrow> prio_ok q \<Longrightarrow> prio_ok (new_prio_for_inheritance p q)"
  by (auto simp: new_prio_for_inheritance_def get_new_prio_with_ceiling_def is_under_prio_ceiling_def
      prio_defs prio_ok_simps Let_def)

lemma k_mutex_lock_free:
  assumes "sched_ok k" "lock_count m = 0 \<or> owner m = Some (current k)"
  shows "k_mutex_lock m timeout k =
    Inr (Some 0,
      m\<lparr>owner_orig_prio := (if lock_count m = 0 then prio (threads k (current k)) else owner_orig_prio m),
        lock_count := lock_count m + 1, owner := Some (current k)\<rparr>, k)"
  using assms(2) by (simp add: k_mutex_lock_def lock_unlock_id [OF assms(1)])

lemma k_mutex_lock_busy:
  assumes "sched_ok k" "lock_count m \<noteq> 0" "owner m \<noteq> Some (current k)"
  shows "k_mutex_lock m K_NO_WAIT k = Inr (Some (- EBUSY), m, k)"
  using assms(2,3) by (simp add: k_mutex_lock_def lock_unlock_id [OF assms(1)])

text \<open>The priority the owner has once a thread of priority \<open>p\<close> waits for it.\<close>

lemma inheritance_raises:
  "(if is_prio_higher (new_prio_for_inheritance p q) q then new_prio_for_inheritance p q else q) =
     (if p < q \<and> CONFIG_PRIORITY_CEILING < q then max p CONFIG_PRIORITY_CEILING else q)"
  by (auto simp: new_prio_for_inheritance_def get_new_prio_with_ceiling_def is_under_prio_ceiling_def
      prio_defs Let_def max_def)

section \<open>Blocking on a mutex\<close>

lemma priority_set_wait_queues:
  assumes k: "kinv S k"
  shows "queues (thread_priority_set t p k) (WaitQ w) = queues k (WaitQ w)"
proof -
  have "t \<notin> set (queues k (WaitQ w))" if "is_thread_ready k t"
    using that kinv_waiting [OF k, of t w] by (auto simp: is_thread_ready_iff)
  then show ?thesis by (simp add: thread_priority_set_def set_prio_def remove1_idem)
qed

text \<open>Adjusting the priority of the owner: the priority changes and nothing else of the state does.\<close>

lemma adjust_owner_prio_spec:
  assumes k: "kinv {} k" and o: "owner m = Some t" "t \<noteq> idle_thread k" and p: "prio_ok p"
  obtains k' where "adjust_owner_prio m p k = Inr k'" and "kinv {} k'"
    and "\<And>u. prio (threads k' u) = (if u = t then p else prio (threads k u))"
    and "\<And>w. queues k' (WaitQ w) = queues k (WaitQ w)"
    and "\<And>u. is_thread_ready k' u \<longleftrightarrow> is_thread_ready k u" and "\<And>u n. st k' u n \<longleftrightarrow> st k u n"
    and "current k' = current k" "idle_thread k' = idle_thread k" "timeouts k' = timeouts k"
    and "handling_timeouts k' = handling_timeouts k" "nested k' = nested k"
    and "\<And>u. sched_locked (threads k' u) = sched_locked (threads k u)" and "timeout_q k' = timeout_q k"
proof (cases "prio (threads k t) = p")
  case True
  with o k show ?thesis by (intro that [of k]) (simp_all add: adjust_owner_prio_def)
next
  case False
  with o k p show ?thesis
    by (intro that [of "thread_priority_set t p k"])
       (simp_all add: adjust_owner_prio_def thread_priority_set_kinv priority_set_wait_queues to_s8_prio)
qed

lemma settled_same: "timeouts k' = timeouts k \<Longrightarrow> handling_timeouts k' = handling_timeouts k \<Longrightarrow> settled k \<Longrightarrow> settled k'"
  by (simp add: settled_def)

lemma k_mutex_lock_block:
  assumes s: "sched_ok k" and v: "mutex_inv m k" and o: "owner m = Some t" "t \<noteq> current k"
    and c: "current k \<noteq> idle_thread k" and w: "timeout \<noteq> K_NO_WAIT"
  obtains k' where "k_mutex_lock m timeout k = Inr (None, m, k')" and "sched_ok k'" and "mutex_inv m k'"
    and "\<And>u. prio (threads k' u) = (if u = t \<and> prio (threads k (current k)) < prio (threads k t) \<and>
        CONFIG_PRIORITY_CEILING < prio (threads k t)
      then max (prio (threads k (current k))) CONFIG_PRIORITY_CEILING else prio (threads k u))"
    and "queues k' (WaitQ (mutex_wait_q m)) =
      prio_insert (\<lambda>u. prio (threads k' u)) (current k) (queues k (WaitQ (mutex_wait_q m)))"
    and "swap_retval (threads k' (current k)) = - EAGAIN" and "evolves {mutex_wait_q m} k k'"
proof -
  let ?k1 = "sched_lock k" and ?p = "prio (threads k (current k))" and ?q = "prio (threads k t)"
  let ?np = "new_prio_for_inheritance ?p ?q"
  note l = sched_lock_keeps [OF s]
  have ti: "t \<noteq> idle_thread k" and lc: "lock_count m \<noteq> 0" using v o by (auto simp: mutex_inv_def)
  have np: "prio_ok ?np" using kinv_prio [OF sched_okD(1) [OF s]] by (intro inherited_prio_ok)
  obtain k2 where a: "(if is_prio_higher ?np ?q then adjust_owner_prio m ?np ?k1 else Inr ?k1) = Inr k2"
    and k2: "kinv {} k2" "settled k2" "is_thread_ready k2 (current k2)"
    and pr: "\<And>u. prio (threads k2 u) = (if u = t \<and> is_prio_higher ?np ?q then ?np else prio (threads k u))"
    and qs: "\<And>w. queues k2 (WaitQ w) = queues k (WaitQ w)"
    and cur: "current k2 = current k" "idle_thread k2 = idle_thread k" "handling_timeouts k2 = handling_timeouts k"
      "nested k2 = nested k" "timeout_q k2 = timeout_q k"
  proof (cases "is_prio_higher ?np ?q")
    case True
    obtain k2 where "adjust_owner_prio m ?np ?k1 = Inr k2" "kinv {} k2"
      "\<And>u. prio (threads k2 u) = (if u = t then ?np else prio (threads ?k1 u))"
      "\<And>w. queues k2 (WaitQ w) = queues ?k1 (WaitQ w)"
      "\<And>u. is_thread_ready k2 u \<longleftrightarrow> is_thread_ready ?k1 u" "current k2 = current ?k1"
      "idle_thread k2 = idle_thread ?k1" "timeouts k2 = timeouts ?k1" "handling_timeouts k2 = handling_timeouts ?k1"
      "nested k2 = nested ?k1" "timeout_q k2 = timeout_q ?k1"
      using adjust_owner_prio_spec [OF l(1) o(1) _ np] ti by (metis sched_lock_simps(5))
    with True l sched_okD(2) [OF s] show ?thesis
      by (intro that [of k2]) (simp_all add: settled_same [of k2 ?k1])
  next
    case False
    with l sched_okD(2) [OF s] show ?thesis by (intro that [of ?k1]) simp_all
  qed
  let ?k' = "Swap (pend_current_thread (mutex_wait_q m) timeout k2)"
  note b = block_current [OF k2(1,3,2), of "mutex_wait_q m" timeout]
  have pr': "prio (threads ?k' u) = prio (threads k2 u)" for u by (simp add: pend_current_simps)
  show ?thesis
  proof (rule that [of ?k'])
    show "k_mutex_lock m timeout k = Inr (None, m, ?k')"
      using lc o w a by (simp add: k_mutex_lock_def Let_def)
    show "sched_ok ?k'" using b(1) c cur by simp
    show "mutex_inv m ?k'" using v o by (simp add: mutex_inv_def pend_current_simps cur)
    show "prio (threads ?k' u) = (if u = t \<and> ?p < ?q \<and> CONFIG_PRIORITY_CEILING < ?q
        then max ?p CONFIG_PRIORITY_CEILING else prio (threads k u))" for u
      unfolding pr' pr using inheritance_raises [of ?p ?q] by (auto split: if_splits)
    show "queues ?k' (WaitQ (mutex_wait_q m)) =
        prio_insert (\<lambda>u. prio (threads ?k' u)) (current k) (queues k (WaitQ (mutex_wait_q m)))"
      unfolding pr' using b(2) c cur qs by simp
    show "swap_retval (threads ?k' (current k)) = - EAGAIN" using b(3) c cur by simp
    show "evolves {mutex_wait_q m} k ?k'"
      using block_evolves [OF k2(1,3,2), of "mutex_wait_q m" timeout] c cur qs by (simp add: evolves_def)
  qed
qed

section \<open>Unlocking\<close>

lemma retval_unlock:
  "t \<noteq> current k \<Longrightarrow> swap_retval (threads (k_sched_unlock k) t) = swap_retval (threads k t)"
  by (simp add: k_sched_unlock_def reschedule_threads_def Swap_def Let_def update_time_slice_before_swap_def)

lemma k_mutex_unlock_nested:
  assumes "sched_ok k" "lock_count m \<noteq> 1"
  shows "k_mutex_unlock m k = Inr (m\<lparr>lock_count := lock_count m - 1\<rparr>, k)"
  using assms(2) by (simp add: k_mutex_unlock_def Let_def lock_unlock_id [OF assms(1)])

lemma restore_owner_prio:
  assumes s: "sched_ok k" and v: "mutex_inv m k" and o: "owner m = Some (current k)"
  obtains k' where "adjust_owner_prio (m\<lparr>lock_count := c\<rparr>) (owner_orig_prio m) (sched_lock k) = Inr k'"
    and "kinv {} k'" "settled k'"
    and "\<And>u. prio (threads k' u) = (if u = current k then owner_orig_prio m else prio (threads k u))"
    and "\<And>w. queues k' (WaitQ w) = queues k (WaitQ w)"
    and "\<And>u. is_thread_ready k' u \<longleftrightarrow> is_thread_ready k u" and "\<And>u n. st k' u n \<longleftrightarrow> st k u n"
    and "current k' = current k" "idle_thread k' = idle_thread k" "handling_timeouts k' = handling_timeouts k"
    and "nested k' = nested k" and "timeout_q k' = timeout_q k"
proof -
  note l = sched_lock_keeps [OF s]
  have i: "current k \<noteq> idle_thread (sched_lock k)" and p: "prio_ok (owner_orig_prio m)"
    using v o by (simp_all add: mutex_inv_def)
  show ?thesis
    by (rule adjust_owner_prio_spec [OF l(1) _ i p, of "m\<lparr>lock_count := c\<rparr>"])
       (use o l(2,3) in \<open>auto intro!: that intro: settled_same [of _ "sched_lock k"]\<close>)
qed

lemma k_mutex_unlock_free:
  assumes s: "sched_ok k" and v: "mutex_inv m k" and o: "owner m = Some (current k)" and l: "lock_count m = 1"
    and h: "\<not> handling_timeouts k" and q: "queues k (WaitQ (mutex_wait_q m)) = []"
  obtains k' where "k_mutex_unlock m k = Inr (m\<lparr>lock_count := 0, owner := None\<rparr>, k')" and "sched_ok k'"
    and "\<And>u. prio (threads k' u) = (if u = current k then owner_orig_prio m else prio (threads k u))"
    and "queues k' (WaitQ (mutex_wait_q m)) = []" and "evolves {} k k'"
proof (rule restore_owner_prio [OF s v o, of 0], goal_cases)
  case (1 k2)
  then have "unpend_first_thread (mutex_wait_q m) k2 = (None, k2)" using h q by (simp add: unpend_first_head)
  moreover have "sched_ok (k_sched_unlock k2)" using 1 sched_okD(2) [OF s] by (intro sched_unlock_spec) simp_all
  ultimately show ?case
    using 1 l q by (intro that [of "k_sched_unlock k2"]) (auto simp: k_mutex_unlock_def Let_def evolves_def)
qed

lemma k_mutex_unlock_waiter:
  assumes s: "sched_ok k" and v: "mutex_inv m k" and o: "owner m = Some (current k)" and l: "lock_count m = 1"
    and h: "\<not> handling_timeouts k" and q: "queues k (WaitQ (mutex_wait_q m)) = t # ts"
  obtains k' where "k_mutex_unlock m k = Inr (m\<lparr>owner := Some t, owner_orig_prio := prio (threads k t)\<rparr>, k')"
    and "sched_ok k'" and "t \<noteq> idle_thread k'" "idle_thread k' = idle_thread k"
    and "\<And>u. prio (threads k' u) = (if u = current k then owner_orig_prio m else prio (threads k u))"
    and "queues k' (WaitQ (mutex_wait_q m)) = ts" and "swap_retval (threads k' t) = 0"
    and "is_thread_ready k' t \<longleftrightarrow> \<not> st k t 0 \<and> \<not> st k t 3 \<and> \<not> st k t 4" and "evolves {} k k'"
proof (rule restore_owner_prio [OF s v o, of 0], goal_cases)
  case (1 k2)
  let ?k3 = "unpend_thread t k2" let ?k6 = "set_thread_return_value t 0 (woken t ?k3)"
  have u: "unpend_first_thread (mutex_wait_q m) k2 = (Some t, ?k3)" using h q 1 by (simp add: unpend_first_head)
  note w = wake_first [OF 1(3,4) u]
  have ct: "t \<noteq> current k" using w(6) 1(7) sched_okD(2) [OF s] by auto
  have ok: "sched_ok (k_sched_unlock ?k6)"
    using w(1,2,8,9) 1(7,9) ct sched_okD(2) [OF s] by (intro sched_unlock_spec) (simp_all add: set_retval_kinv)
  have m: "m\<lparr>lock_count := 1\<rparr> = m" using l by (cases m) simp
  have qs: "set (timeout_q (woken t ?k3)) \<subseteq> set (timeout_q k) \<union> range ThreadTO"
    using woken_timeout_q [of t ?k3] 1 by (simp add: le_supI1)
  have "k_mutex_unlock m k = Inr (m\<lparr>owner := Some t, owner_orig_prio := prio (threads k t)\<rparr>, k_sched_unlock ?k6)"
    using 1(2,5) l u ct by (simp add: k_mutex_unlock_def Let_def woken_def [symmetric])
  then show ?case
    using ok w(5,7,8) 1(2-) q ct l m qs by (intro that [of "k_sched_unlock ?k6"]) (simp_all add: retval_unlock evolves_def)
qed

text \<open>
  What a call that waited does when it runs again: with the mutex in hand it returns;
  otherwise it gives the owner back the priority it should have without this waiter, and
  returns \<^verbatim>\<open>-EAGAIN\<close>. A mutex that has no owner by then is dereferenced all the same.
\<close>

lemma k_mutex_lock_resume_spec:
  assumes s: "sched_ok k" and v: "mutex_inv m k" and o: "swap_retval (threads k (current k)) = 0 \<or> owner m \<noteq> None"
  obtains r k' where "k_mutex_lock_resume m k = Inr (r, m, k')" and "evolves {} k k'"
proof (cases "swap_retval (threads k (current k)) = 0")
  case True
  have "sched_ok (k_sched_unlock k)" using sched_okD [OF s] by (intro sched_unlock_spec)
  with True show ?thesis
    by (intro that [of 0 "k_sched_unlock k"]) (auto simp: k_mutex_lock_resume_def Let_def evolves_def)
next
  case False
  then obtain t where t: "owner m = Some t" using o by auto
  let ?p = "case peek_first_pending_thread k (mutex_wait_q m) of
      Some w \<Rightarrow> new_prio_for_inheritance (prio (threads k w)) (owner_orig_prio m) | None \<Rightarrow> owner_orig_prio m"
  note k = sched_okD [OF s]
  have ti: "t \<noteq> idle_thread k" and op: "prio_ok (owner_orig_prio m)" using v t by (auto simp: mutex_inv_def)
  have p: "prio_ok ?p" using op kinv_prio [OF k(1)] by (auto intro: inherited_prio_ok split: option.split)
  obtain k1 where a: "adjust_owner_prio m ?p k = Inr k1" "kinv {} k1" "\<And>w. queues k1 (WaitQ w) = queues k (WaitQ w)"
    "\<And>u. is_thread_ready k1 u \<longleftrightarrow> is_thread_ready k u" "current k1 = current k" "idle_thread k1 = idle_thread k"
    "timeouts k1 = timeouts k" "handling_timeouts k1 = handling_timeouts k" "nested k1 = nested k"
    "timeout_q k1 = timeout_q k"
    using adjust_owner_prio_spec [OF k(1) t ti p] by metis
  have "sched_ok (k_sched_unlock k1)"
    using a k by (intro sched_unlock_spec) (simp_all add: settled_same [of k1 k])
  with a False show ?thesis
    by (intro that [of "- EAGAIN" "k_sched_unlock k1"])
       (auto simp: k_mutex_lock_resume_def Let_def evolves_def)
qed

text \<open>What every call keeps: the invariant of its mutex, and every object nobody waits on but this one.\<close>

lemma k_mutex_lock_keeps:
  assumes s: "sched_ok k" and v: "mutex_inv m k" and c: "current k \<noteq> idle_thread k" and n: "lock_count m \<noteq> - 1"
  obtains r m' k' where "k_mutex_lock m timeout k = Inr (r, m', k')" and "evolves {mutex_wait_q m} k k'"
    and "mutex_inv m' k'" and "mutex_wait_q m' = mutex_wait_q m"
proof (cases "lock_count m = 0 \<or> owner m = Some (current k)")
  case True
  have "lock_count m + 1 \<noteq> 0" using n by (metis eq_neg_iff_add_eq_0)
  moreover have "prio_ok (prio (threads k (current k)))" by (rule kinv_prio [OF sched_okD(1) [OF s]])
  ultimately show thesis
    using v c True by (intro that [OF k_mutex_lock_free [OF s True] evolves_refl [OF s]]) (auto simp: mutex_inv_def)
next
  case False
  with v obtain t where t: "owner m = Some t" "t \<noteq> current k" by (auto simp: mutex_inv_def)
  show thesis
  proof (cases "timeout = K_NO_WAIT")
    case True
    with False v show thesis using k_mutex_lock_busy [OF s] by (intro that [OF _ evolves_refl [OF s]]) simp_all
  next
    case w: False
    show thesis by (rule k_mutex_lock_block [OF s v t c w]) (rule that, auto)
  qed
qed

lemma k_mutex_unlock_keeps:
  assumes s: "sched_ok k" and v: "mutex_inv m k" and o: "owner m = Some (current k)" and h: "\<not> handling_timeouts k"
  obtains m' k' where "k_mutex_unlock m k = Inr (m', k')" and "evolves {mutex_wait_q m} k k'"
    and "mutex_inv m' k'" and "mutex_wait_q m' = mutex_wait_q m"
proof (cases "lock_count m = 1")
  case False
  have "lock_count m - 1 \<noteq> 0" using False by simp
  with v o show thesis
    by (intro that [OF k_mutex_unlock_nested [OF s False] evolves_refl [OF s]]) (auto simp: mutex_inv_def)
next
  case l: True
  have w: "evolves {mutex_wait_q m} k k'" if "evolves {} k k'" for k' using that by (simp add: evolves_def)
  show thesis
  proof (cases "queues k (WaitQ (mutex_wait_q m))")
    case Nil
    show thesis
    proof (rule k_mutex_unlock_free [OF s v o l h Nil], goal_cases)
      case (1 k')
      then show ?case by (intro that [OF 1(1) w [OF 1(5)]]) (simp_all add: mutex_inv_def)
    qed
  next
    case (Cons t ts)
    have p: "prio_ok (prio (threads k t))" by (rule kinv_prio [OF sched_okD(1) [OF s]])
    show thesis
    proof (rule k_mutex_unlock_waiter [OF s v o l h Cons], goal_cases)
      case (1 k')
      with l p show ?case by (intro that [OF 1(1) w [OF 1(9)]]) (simp_all add: mutex_inv_def)
    qed
  qed
qed

lemma k_mutex_lock_resume_keeps:
  assumes s: "sched_ok k" and v: "mutex_inv m k" and r: "k_mutex_lock_resume m k = Inr (r, m', k')"
  shows "m' = m" and "evolves {} k k'"
proof -
  have "swap_retval (threads k (current k)) = 0 \<or> owner m \<noteq> None"
    using r by (cases "owner m") (auto simp: k_mutex_lock_resume_def adjust_owner_prio_def Let_def split: if_splits)
  from k_mutex_lock_resume_spec [OF s v this] r show "m' = m" and "evolves {} k k'" by auto
qed

section \<open>Specification\<close>

text \<open>
  The abstract mutex: the owner with the depth of its locking, if it has one, and the
  waiters in the order they will be served.
\<close>

type_synonym amutex = "(tid \<times> nat) option \<times> tid list"

definition abs_mutex :: "k_mutex \<Rightarrow> 'a kernel_scheme \<Rightarrow> amutex" where
  "abs_mutex m k = (map_option (\<lambda>t. (t, unat (lock_count m))) (owner m), queues k (WaitQ (mutex_wait_q m)))"

fun amutex_lock :: "(tid \<Rightarrow> int) \<Rightarrow> tid \<Rightarrow> bool \<Rightarrow> amutex \<Rightarrow> int option \<times> amutex" where
  "amutex_lock pf me wait (None, ts) = (Some 0, (Some (me, 1), ts))"
| "amutex_lock pf me wait (Some (t, n), ts) =
     (if t = me then (Some 0, (Some (me, n + 1), ts))
      else if wait then (None, (Some (t, n), prio_insert pf me ts))
      else (Some (- EBUSY), (Some (t, n), ts)))"

fun amutex_unlock :: "amutex \<Rightarrow> amutex" where
  "amutex_unlock (None, ts) = (None, ts)"
| "amutex_unlock (Some (t, n), ts) =
     (if 1 < n then (Some (t, n - 1), ts)
      else case ts of [] \<Rightarrow> (None, []) | u # us \<Rightarrow> (Some (u, 1), us))"

section \<open>Properties\<close>

text \<open>
  C25. Locking implements the abstract mutex: a free mutex, or one the caller owns, is
  locked once more and the call returns 0; a mutex of another thread makes a call that may
  not wait return \<^verbatim>\<open>-EBUSY\<close>, and one that may wait join the waiters by priority. The call
  never dereferences a null owner and leaves a state in which the right thread runs.
\<close>

theorem k_mutex_lock_refines:
  assumes s: "sched_ok k" and v: "mutex_inv m k" and c: "current k \<noteq> idle_thread k" and n: "lock_count m \<noteq> - 1"
  shows "\<exists>r m' k'. k_mutex_lock m timeout k = Inr (r, m', k') \<and> sched_ok k' \<and> mutex_inv m' k' \<and>
    (r, abs_mutex m' k') =
      amutex_lock (\<lambda>u. prio (threads k' u)) (current k) (timeout \<noteq> K_NO_WAIT) (abs_mutex m k)"
proof (cases "lock_count m = 0 \<or> owner m = Some (current k)")
  case True
  have u: "unat (lock_count m + 1) = unat (lock_count m) + 1"
    using n by (rule unat_Suc_not_max)
  then have "lock_count m + 1 \<noteq> 0" by auto
  moreover have "prio_ok (prio (threads k (current k)))" by (rule kinv_prio [OF sched_okD(1) [OF s]])
  ultimately show ?thesis
    unfolding k_mutex_lock_free [OF s True] using s v c u True
    by (auto simp: mutex_inv_def abs_mutex_def)
next
  case False
  with v obtain t where t: "owner m = Some t" "t \<noteq> current k" by (auto simp: mutex_inv_def)
  show ?thesis
  proof (cases "timeout = K_NO_WAIT")
    case True
    with False s v t show ?thesis by (simp add: k_mutex_lock_busy abs_mutex_def)
  next
    case w: False
    show ?thesis
      by (rule k_mutex_lock_block [OF s v t c w]) (use t w in \<open>simp add: abs_mutex_def\<close>)
  qed
qed

definition example_mutex :: k_mutex where
  "example_mutex = \<lparr>mutex_wait_q = 7, owner = Some 3, lock_count = 1, owner_orig_prio = 5\<rparr>"

lemma example_mutex_inv: "mutex_inv example_mutex pair_kernel"
  by (simp add: mutex_inv_def example_mutex_def pair_current prio_ok_simps)

theorem k_mutex_lock_refines_witness:
  "\<exists>m' k'. k_mutex_lock example_mutex K_FOREVER pair_kernel = Inr (None, m', k') \<and> abs_mutex m' k' = (Some (3, 1), [2])"
  using k_mutex_lock_refines [OF pair_sched_ok example_mutex_inv, of K_FOREVER]
  by (auto simp: pair_current abs_mutex_def K_FOREVER_def K_NO_WAIT_def) (auto simp: example_mutex_def pair_current)

text \<open>
  C26. Priority inheritance: a thread that waits for a mutex raises the owner to its own
  priority, but not above the priority ceiling, never lowers it, and changes the priority
  of no other thread.
\<close>

theorem k_mutex_lock_inherits:
  assumes s: "sched_ok k" and v: "mutex_inv m k" and c: "current k \<noteq> idle_thread k"
    and o: "owner m = Some t" "t \<noteq> current k" and w: "timeout \<noteq> K_NO_WAIT"
  shows "\<exists>k'. k_mutex_lock m timeout k = Inr (None, m, k') \<and>
    prio (threads k' t) = (let p = prio (threads k (current k)); q = prio (threads k t)
      in if p < q \<and> CONFIG_PRIORITY_CEILING < q then max p CONFIG_PRIORITY_CEILING else q) \<and>
    (\<forall>u. u \<noteq> t \<longrightarrow> prio (threads k' u) = prio (threads k u))"
  by (rule k_mutex_lock_block [OF s v o c w]) (simp add: Let_def)

theorem k_mutex_lock_inherits_witness:
  "\<exists>k'. k_mutex_lock example_mutex K_FOREVER pair_kernel = Inr (None, example_mutex, k') \<and>
     prio (threads pair_kernel 3) = 5 \<and> prio (threads k' 3) = 0"
  using k_mutex_lock_inherits [OF pair_sched_ok example_mutex_inv, of 3 K_FOREVER]
  by (auto simp: pair_current K_FOREVER_def K_NO_WAIT_def example_mutex_def CONFIG_PRIORITY_CEILING_def)

text \<open>
  C6. Unlocking by the owner implements the abstract mutex: a mutex locked more than once
  stays with its owner; the last unlock gives it to the first waiter, whose pending
  \<^verbatim>\<open>k_mutex_lock\<close> returns 0, or frees it, and puts the former owner back to the priority it
  had when it locked the mutex.
\<close>

theorem k_mutex_unlock_refines:
  assumes s: "sched_ok k" and v: "mutex_inv m k" and o: "owner m = Some (current k)" and h: "\<not> handling_timeouts k"
  shows "\<exists>m' k'. k_mutex_unlock m k = Inr (m', k') \<and> sched_ok k' \<and> mutex_inv m' k' \<and>
    abs_mutex m' k' = amutex_unlock (abs_mutex m k) \<and>
    (if lock_count m = 1
     then prio (threads k' (current k)) = owner_orig_prio m \<and>
       (\<forall>t. owner m' = Some t \<longrightarrow> swap_retval (threads k' t) = 0 \<and>
          (is_thread_ready k' t \<longleftrightarrow> \<not> st k t 0 \<and> \<not> st k t 3 \<and> \<not> st k t 4))
     else k' = k)"
proof (cases "lock_count m = 1")
  case False
  have "lock_count m \<noteq> 0" using v o by (auto simp: mutex_inv_def)
  then have g: "0 < lock_count m" by (simp add: word_gt_0)
  moreover have "unat (lock_count m) \<noteq> 1" using False by (metis unat_1 word_unat_eq_iff)
  ultimately have "1 < unat (lock_count m)" by (simp add: word_less_nat_alt)
  then show ?thesis
    using s v o False unat_pred_exact [OF g] k_mutex_unlock_nested [OF s False]
    by (auto simp: mutex_inv_def abs_mutex_def)
next
  case True
  show ?thesis
  proof (cases "queues k (WaitQ (mutex_wait_q m))")
    case Nil
    show ?thesis
      by (rule k_mutex_unlock_free [OF s v o True h Nil])
         (use Nil o True in \<open>simp add: abs_mutex_def mutex_inv_def\<close>)
  next
    case (Cons t ts)
    show ?thesis
      by (rule k_mutex_unlock_waiter [OF s v o True h Cons])
         (use Cons o True kinv_prio [OF sched_okD(1) [OF s], of t] in \<open>simp add: abs_mutex_def mutex_inv_def\<close>)
  qed
qed

definition locked_kernel :: kernel where
  "locked_kernel =
     (case k_mutex_lock example_mutex K_FOREVER pair_kernel of Inr (_, _, k) \<Rightarrow> k | Inl _ \<Rightarrow> pair_kernel)"

lemma locked_kernel_ok: "sched_ok locked_kernel" "mutex_inv example_mutex locked_kernel"
  by (rule k_mutex_lock_block [OF pair_sched_ok example_mutex_inv, of 3 K_FOREVER],
      simp_all add: pair_current example_mutex_def locked_kernel_def K_FOREVER_def K_NO_WAIT_def)+

lemma locked_kernel_facts: "current locked_kernel = 3" "\<not> handling_timeouts locked_kernel"
  "queues locked_kernel (WaitQ 7) = [2]"
  by code_simp+

theorem k_mutex_unlock_refines_witness:
  "\<exists>m' k'. k_mutex_unlock example_mutex locked_kernel = Inr (m', k') \<and>
     abs_mutex m' k' = (Some (2, 1), []) \<and> prio (threads k' 3) = 5"
  using k_mutex_unlock_refines [OF locked_kernel_ok]
  by (auto simp: locked_kernel_facts abs_mutex_def example_mutex_def)

end
