(* ===== verification/System.thy ===== *)
theory System
  imports Thread Sem Mutex
begin

text \<open>
  The components together. The state is the kernel with its semaphores and mutexes, and
  every move of it is one kernel call of the running thread, or a clock interrupt: entry
  and exit of an interrupt are those of \<^verbatim>\<open>_interrupt_enter\<close> in
  \<^verbatim>\<open>arch/x86/core/intstub.S\<close>. What holds of the scheduler and of every object after each
  single call then holds in every state the system can reach from boot.
\<close>

section \<open>Interrupts\<close>

definition interrupt_entry :: "'a kernel_scheme \<Rightarrow> 'a kernel_scheme" where
  "interrupt_entry k = k\<lparr>nested := nested k + 1\<rparr>"

text \<open>
  The thread that was interrupted is switched out only if it can be preempted. Unlike
  \<^const>\<open>Swap\<close> the switch leaves alone what a call of the thread that is under way will
  return: \<^verbatim>\<open>__swap\<close> stores its own return value in a stack frame of its own, above the
  frame of the interrupt.
\<close>

definition interrupt_exit :: "'a kernel_scheme \<Rightarrow> 'a kernel_scheme" where
  "interrupt_exit k =
     (let k1 = k\<lparr>nested := nested k - 1\<rparr>
      in if nested k1 \<noteq> 0 then k1
         else if \<not> is_preempt k1 (current k1) then k1
         else if cache k1 = current k1 then k1
         else let k2 = update_time_slice_before_swap k1 in k2\<lparr>current := cache k2\<rparr>)"

section \<open>The system\<close>

text \<open>
  \<open>lock_call t\<close> is the mutex whose \<^verbatim>\<open>k_mutex_lock\<close> thread \<open>t\<close> has blocked in: when \<open>t\<close> runs
  again, the rest of that call comes first.
\<close>

record system =
  kern :: kernel
  sems :: "nat \<Rightarrow> k_sem"
  mtxs :: "nat \<Rightarrow> k_mutex"
  lock_call :: "tid \<Rightarrow> nat option"

datatype event =
    Yield | Sleep int | Wakeup tid | SetPriority tid int | SchedLock | SchedUnlock
  | Create tid int u32 int | Suspend tid | Resume tid | Abort tid
  | SemGive nat | SemTake nat int | SemReset nat
  | MutexLock nat int | MutexUnlock nat | Continue
  | Tick int

text \<open>
  When an event can happen: calls are made by a thread that is not the idle thread and not
  inside another call, with arguments that meet the assertions of the source and the
  documentation in \<^verbatim>\<open>kernel.h\<close>. One call that the documentation allows is left out: resuming
  a thread that is ready, which puts it on the ready queue a second time
  (\<open>k_thread_resume_not_suspended\<close> in \<open>Thread\<close>). The clock announces no more ticks than the next
  timeout is away, which a single tick never is.
\<close>

definition calls :: "system \<Rightarrow> bool" where
  "calls s \<longleftrightarrow> current (kern s) \<noteq> idle_thread (kern s) \<and> lock_call s (current (kern s)) = None"

fun enabled :: "event \<Rightarrow> system \<Rightarrow> bool" where
  "enabled Yield s \<longleftrightarrow> calls s"
| "enabled (Sleep d) s \<longleftrightarrow> calls s \<and> d \<noteq> K_FOREVER"
| "enabled (Wakeup t) s \<longleftrightarrow> calls s"
| "enabled (SetPriority t p) s \<longleftrightarrow> calls s \<and> prio_ok p \<and> t \<noteq> idle_thread (kern s)"
| "enabled SchedLock s \<longleftrightarrow> calls s \<and> sched_locked (threads (kern s) (current (kern s))) \<noteq> 1"
| "enabled SchedUnlock s \<longleftrightarrow> calls s \<and> sched_locked (threads (kern s) (current (kern s))) \<noteq> 0"
| "enabled (Create t p opts d) s \<longleftrightarrow> calls s \<and> vacant (kern s) t \<and> prio_ok p"
| "enabled (Suspend t) s \<longleftrightarrow> calls s \<and> t \<noteq> idle_thread (kern s)"
| "enabled (Resume t) s \<longleftrightarrow> calls s \<and> \<not> is_thread_ready (kern s) t"
| "enabled (Abort t) s \<longleftrightarrow> calls s \<and> t \<noteq> idle_thread (kern s) \<and> fn_abort (threads (kern s) t) = None"
| "enabled (SemGive i) s \<longleftrightarrow> calls s"
| "enabled (SemTake i d) s \<longleftrightarrow> calls s"
| "enabled (SemReset i) s \<longleftrightarrow> calls s"
| "enabled (MutexLock i d) s \<longleftrightarrow> calls s \<and> lock_count (mtxs s i) \<noteq> - 1"
| "enabled (MutexUnlock i) s \<longleftrightarrow> calls s \<and> owner (mtxs s i) = Some (current (kern s))"
| "enabled Continue s \<longleftrightarrow> lock_call s (current (kern s)) \<noteq> None"
| "enabled (Tick n) s \<longleftrightarrow> 0 \<le> n \<and> (timeout_q (kern s) \<noteq> [] \<longrightarrow> n \<le> get_next_timeout_expiry (kern s))"

text \<open>
  What an event does, or the fault it ends in. Only the calls on mutexes follow a pointer that can be null, that to the
  owner; the other operations have no fault in their definitions.
\<close>

fun step :: "event \<Rightarrow> system \<Rightarrow> fault + system" where
  "step Yield s = Inr (s\<lparr>kern := k_yield (kern s)\<rparr>)"
| "step (Sleep d) s = Inr (s\<lparr>kern := k_sleep d (kern s)\<rparr>)"
| "step (Wakeup t) s = Inr (s\<lparr>kern := k_wakeup t (kern s)\<rparr>)"
| "step (SetPriority t p) s = Inr (s\<lparr>kern := k_thread_priority_set t p (kern s)\<rparr>)"
| "step SchedLock s = Inr (s\<lparr>kern := k_sched_lock (kern s)\<rparr>)"
| "step SchedUnlock s = Inr (s\<lparr>kern := k_sched_unlock (kern s)\<rparr>)"
| "step (Create t p opts d) s =
     Inr (s\<lparr>kern := k_thread_create t p opts d (kern s), lock_call := (lock_call s)(t := None)\<rparr>)"
| "step (Suspend t) s = Inr (s\<lparr>kern := k_thread_suspend t (kern s)\<rparr>)"
| "step (Resume t) s = Inr (s\<lparr>kern := k_thread_resume t (kern s)\<rparr>)"
| "step (Abort t) s = Inr (s\<lparr>kern := k_thread_abort (\<lambda>_ k. k) t (kern s)\<rparr>)"
| "step (SemGive i) s =
     (let (sem, k) = k_sem_give (sems s i) (kern s) in Inr (s\<lparr>kern := k, sems := (sems s)(i := sem)\<rparr>))"
| "step (SemTake i d) s =
     (let (_, sem, k) = k_sem_take (sems s i) d (kern s) in Inr (s\<lparr>kern := k, sems := (sems s)(i := sem)\<rparr>))"
| "step (SemReset i) s = Inr (s\<lparr>sems := (sems s)(i := k_sem_reset (sems s i))\<rparr>)"
| "step (MutexLock i d) s =
     (case k_mutex_lock (mtxs s i) d (kern s) of
        Inl e \<Rightarrow> Inl e
      | Inr (r, m, k) \<Rightarrow>
          Inr (s\<lparr>kern := k, mtxs := (mtxs s)(i := m),
                 lock_call := (if r = None then (lock_call s)(current (kern s) := Some i) else lock_call s)\<rparr>))"
| "step (MutexUnlock i) s =
     (case k_mutex_unlock (mtxs s i) (kern s) of
        Inl e \<Rightarrow> Inl e
      | Inr (m, k) \<Rightarrow> Inr (s\<lparr>kern := k, mtxs := (mtxs s)(i := m)\<rparr>))"
| "step Continue s =
     (case lock_call s (current (kern s)) of
        None \<Rightarrow> Inr s
      | Some i \<Rightarrow>
          (case k_mutex_lock_resume (mtxs s i) (kern s) of
             Inl e \<Rightarrow> Inl e
           | Inr (r, m, k) \<Rightarrow>
               Inr (s\<lparr>kern := k, mtxs := (mtxs s)(i := m),
                      lock_call := (lock_call s)(current (kern s) := None)\<rparr>)))"
| "step (Tick n) s =
     Inr (s\<lparr>kern := interrupt_exit (nano_sys_clock_tick_announce thread_call n (interrupt_entry (kern s)))\<rparr>)"

inductive reachable :: "system \<Rightarrow> system \<Rightarrow> bool" for s0 where
  start: "reachable s0 s0"
| move: "reachable s0 s \<Longrightarrow> enabled e s \<Longrightarrow> step e s = Inr s' \<Longrightarrow> reachable s0 s'"

text \<open>The same as a function, for runs on concrete inputs: nothing if an event cannot happen.\<close>

fun run :: "event list \<Rightarrow> system \<Rightarrow> (fault + system) option" where
  "run [] s = Some (Inr s)"
| "run (e # es) s =
     (if \<not> enabled e s then None
      else case step e s of Inl f \<Rightarrow> Some (Inl f) | Inr s' \<Rightarrow> run es s')"

section \<open>Kernel calls as moves of the system\<close>

lemma timeout_q_remaining: "set (timeout_q k) = fst ` set (remaining k)"
  unfolding remaining_def using map_fst_expiries [of "timeouts k" 0 "timeout_q k"] by (metis list.set_map)

lemma evolvesI:
  assumes "sched_ok k'" "idle_thread k' = idle_thread k" "nested k' = nested k"
    "handling_timeouts k' = handling_timeouts k"
    "fst ` set (remaining k') \<subseteq> fst ` set (remaining k) \<union> range ThreadTO"
    "\<And>w. set (queues k' (WaitQ w)) \<subseteq> set (queues k (WaitQ w))"
  shows "evolves W k k'"
proof -
  have "queues k' (WaitQ w) = []" if "queues k (WaitQ w) = []" for w using assms(6) [of w] that by simp
  then show ?thesis using assms(1-5) by (simp add: evolves_def timeout_q_remaining)
qed

lemma reschedule_frame [simp]:
  "idle_thread (reschedule_threads k) = idle_thread k" "handling_timeouts (reschedule_threads k) = handling_timeouts k"
  by (simp_all add: reschedule_threads_def)

lemma remaining_same: "timeouts k' = timeouts k \<Longrightarrow> timeout_q k' = timeout_q k \<Longrightarrow> remaining k' = remaining k"
  by (simp add: remaining_def)

lemma yield_evolves:
  assumes "sched_ok k"
  shows "evolves W k (k_yield k)"
  by (rule evolvesI [OF k_yield_spec(1) [OF assms]])
     (use move_waits_subset [of "current k" k] in \<open>auto simp: k_yield_def Let_def remaining_def\<close>)

lemma sleep_evolves:
  assumes "sched_ok k" "current k \<noteq> idle_thread k"
  shows "evolves W k (k_sleep d k)"
proof (cases "d = 0")
  case False
  show ?thesis
    by (rule evolvesI [OF k_sleep_spec(1) [OF assms False]])
       (use False in \<open>auto simp: k_sleep_spec(2) [OF assms False] set_expiry_insert\<close>,
        auto simp: k_sleep_def Let_def add_thread_timeout_frame [OF timeout_ticks_pos] dest: subsetD [OF set_remove1_subset])
qed (simp add: k_sleep_def yield_evolves [OF assms(1)])

lemma wakeup_evolves:
  assumes "sched_ok k" "\<not> is_in_isr k" "\<not> handling_timeouts k"
  shows "evolves W k (k_wakeup t k)"
proof (cases "st k t 1")
  case False
  have "delta k (ThreadTO t) \<noteq> EXPIRED" using sched_okD(4) [OF assms(1)] assms(3) by (simp add: settled_def)
  note w = k_wakeup_spec [OF assms(1,2) False this]
  show ?thesis
    by (rule evolvesI [OF w(1)])
       (auto simp: w(2), auto simp: k_wakeup_def case_prod_unfold Let_def ready_thread_frame
          abort_thread_timeout_def abort_timeout_frame split: if_splits)
qed (simp add: k_wakeup_def evolves_refl [OF assms(1)])

lemma set_priority_evolves:
  assumes "sched_ok k" "prio_ok p" "t \<noteq> idle_thread k"
  shows "evolves W k (k_thread_priority_set t p k)"
  by (rule evolvesI [OF k_thread_priority_set_spec(1) [OF assms]])
     (auto simp: k_thread_priority_set_def remaining_def priority_set_wait_queues [OF sched_okD(1) [OF assms(1)]])

lemma sched_lock_evolves:
  assumes "sched_ok k" "sched_locked (threads k (current k)) \<noteq> 1"
  shows "evolves W k (k_sched_lock k)"
  by (rule evolvesI [OF sched_lock_spec(1) [OF assms]])
     (auto simp: k_sched_lock_def remaining_def)

lemma sched_unlock_evolves: "sched_ok k \<Longrightarrow> evolves W k (k_sched_unlock k)"
  by (rule evolvesI [OF sched_unlock_spec]) (auto dest: sched_okD simp: timeout_q_remaining [symmetric])


lemma create_evolves:
  assumes "sched_ok k" "vacant k t" "prio_ok p"
  shows "evolves W k (k_thread_create t p opts d k)"
proof (cases "d = 0")
  case True
  note c = create_now [OF assms, of opts]
  show ?thesis
    unfolding True
    by (rule evolvesI [OF c(1)])
       (auto simp: c(4), auto simp: k_thread_create_def schedule_new_thread_def k_thread_start_eq
          ready_thread_frame K_FOREVER_def Let_def split: if_splits)
next
  case False
  note c = create_delayed [OF assms False, of opts]
  show ?thesis
    by (rule evolvesI [OF c(1)])
       (use False in \<open>auto simp: c(4) set_expiry_insert\<close>, use False in \<open>auto simp: k_thread_create_def
          schedule_new_thread_def Let_def add_thread_timeout_frame [OF timeout_ticks_pos] split: if_splits\<close>)
qed

lemma suspend_evolves:
  assumes "sched_ok k" "t \<noteq> idle_thread k"
  shows "evolves W k (k_thread_suspend t k)"
proof -
  note p = suspend_spec [OF assms]
  show ?thesis
    by (rule evolvesI [OF p(1)])
       (auto simp: p remaining_same [OF p(3,4)], auto simp: k_thread_suspend_def k_thread_single_suspend_def Let_def
          mark_thread_as_suspended_def)
qed

text \<open>Resuming a thread that is not suspended and waits, sleeps or is dead does nothing to it.\<close>

lemma not_suspended_id: "\<not> st k t 4 \<Longrightarrow> mark_thread_as_not_suspended t k = k"
proof -
  assume "\<not> st k t 4"
  then have "thread_state (threads k t) AND NOT THREAD_SUSPENDED = thread_state (threads k t)"
    by (intro bit_word_eqI) (auto simp: bit_and_iff bit_not_iff)
  then have "thread_state_update (\<lambda>s. s AND NOT THREAD_SUSPENDED) (threads k t) = threads k t" by simp
  then show ?thesis by (simp add: mark_thread_as_not_suspended_def upd_thread_def fun_upd_idem)
qed

lemma resume_evolves:
  assumes s: "sched_ok k" and t: "\<not> is_thread_ready k t"
  shows "evolves W k (k_thread_resume t k)"
proof (cases "st k t 4")
  case True
  note q = single_resume_spec [OF sched_okD(1) [OF s] True]
  have "remaining (k_thread_resume t k) = remaining k" by (simp add: k_thread_resume_def remaining_def q)
  then show ?thesis
    by (intro evolvesI resume_sched_ok s True)
       (auto simp: k_thread_resume_def q, auto simp: k_thread_single_resume_def Let_def mark_thread_as_not_suspended_def)
next
  case False
  then have e: "k_thread_resume t k = reschedule_threads k"
    using t by (simp add: k_thread_resume_def k_thread_single_resume_def Let_def not_suspended_id)
  show ?thesis
    unfolding e by (rule evolvesI [OF reschedule_ok [OF sched_okD(1,4,2) [OF s]]]) (simp_all add: reschedule_threads_def remaining_def)
qed

lemma abort_evolves:
  assumes "sched_ok k" "t \<noteq> idle_thread k" "\<not> handling_timeouts k" "fn_abort (threads k t) = None"
  shows "evolves W k (k_thread_abort abort_fn t k)"
proof -
  have e: "delta k (ThreadTO t) \<noteq> EXPIRED" using sched_okD(4) [OF assms(1)] assms(3) by (simp add: settled_def)
  note a = single_abort_spec [OF sched_okD(1) [OF assms(1)] assms(2) e assms(4), of abort_fn]
  have "remaining (k_thread_abort abort_fn t k) = filter (\<lambda>(r, _). r \<noteq> ThreadTO t) (remaining k)"
    using a(5) by (auto simp: k_thread_abort_def Let_def remaining_def)
  then show ?thesis
    by (intro evolvesI abort_sched_ok assms e)
       (auto simp: k_thread_abort_def Let_def a dest: subsetD [OF set_remove1_subset],
        auto simp: single_abort_eq [OF assms(4)] set_aside_frame [OF sched_okD(1) [OF assms(1)]],
        simp add: set_aside_def abort_thread_timeout_def abort_timeout_frame off_wait_queue_def)
qed

section \<open>Clock interrupts\<close>

text \<open>On the way out of an interrupt the processor goes to the thread that should have it.\<close>

lemma kinv_nested [simp]: "kinv S (k\<lparr>nested := n\<rparr>) \<longleftrightarrow> kinv S k"
  by (simp add: kinv_defs rq_ok_def rq_shape_def ready_list_def is_thread_ready_iff timeout_link_def cong: option.case_cong)

lemma interrupt_exit_ok:
  assumes k: "kinv {} k" "settled k" "is_thread_ready k (current k)" and n: "nested k = 1"
  shows "sched_ok (interrupt_exit k)"
proof -
  let ?k1 = "k\<lparr>nested := 0\<rparr>" and ?k2 = "update_time_slice_before_swap (k\<lparr>nested := 0\<rparr>)\<lparr>current := cache k\<rparr>"
  have st: "st ?k1 u i \<longleftrightarrow> st k u i" "st ?k2 u i \<longleftrightarrow> st k u i" for u i
    by (simp_all add: update_time_slice_before_swap_def)
  have r: "is_thread_ready ?k1 u \<longleftrightarrow> is_thread_ready k u" "is_thread_ready ?k2 u \<longleftrightarrow> is_thread_ready k u" for u
    by (simp_all add: is_thread_ready_iff update_time_slice_before_swap_def)
  have s: "settled ?k1" "settled ?k2" using k(2) by (simp_all add: settled_def update_time_slice_before_swap_def)
  note c = kinv_cache [OF k(1)]
  have "sched_ok ?k2"
    using k c s r by (auto simp: sched_ok_def) (auto simp: update_time_slice_before_swap_def)
  moreover have "sched_ok ?k1" if "is_preempt ?k1 (current k) \<Longrightarrow> cache k = current k"
    using that k c(4) s r by (auto simp: sched_ok_def)
  ultimately show ?thesis
    using n by (auto simp: interrupt_exit_def Let_def) (simp add: update_time_slice_before_swap_def)
qed

lemma interrupt_exit_frame:
  "idle_thread (interrupt_exit k) = idle_thread k" "handling_timeouts (interrupt_exit k) = handling_timeouts k"
  "timeout_q (interrupt_exit k) = timeout_q k" "queues (interrupt_exit k) = queues k"
  "nested (interrupt_exit k) = nested k - 1"
  by (simp_all add: interrupt_exit_def Let_def update_time_slice_before_swap_def)

text \<open>What the expiry of timeouts of threads leaves as it was, as an instance of the clock's interface.\<close>

lemma thread_call_frame:
  "timeout_callback thread_call (\<lambda>k. idle_thread k = i \<and> nested k = n \<and> (\<forall>w \<in> W. queues k (WaitQ w) = []))"
  by unfold_locales (auto simp: thread_call_def callable_def, metis set_empty subset_empty)

lemma tick_evolves:
  assumes s: "sched_ok k" and h: "\<not> handling_timeouts k" "nested k = 0" and q: "set (timeout_q k) \<subseteq> range ThreadTO"
    and n: "0 \<le> n" "timeout_q k \<noteq> [] \<longrightarrow> n \<le> get_next_timeout_expiry k"
  shows "evolves W k (interrupt_exit (nano_sys_clock_tick_announce thread_call n (interrupt_entry k)))"
proof -
  let ?k1 = "interrupt_entry k" and ?E = "{w. queues k (WaitQ w) = []}"
  let ?k2 = "nano_sys_clock_tick_announce thread_call n ?k1"
  note k = sched_okD [OF s]
  have k1: "kinv {} ?k1" "is_thread_ready ?k1 (current ?k1)" "settled ?k1"
    using k by (simp_all add: interrupt_entry_def is_thread_ready_iff settled_def)
  have t: "timeout_q ?k1 \<noteq> [] \<longrightarrow> n \<le> delta ?k1 (hd (timeout_q ?k1))"
    using n(2) by (cases "timeout_q k") (simp_all add: get_next_timeout_expiry_def interrupt_entry_def)
  have o: "\<forall>r \<in> set (timeout_q ?k1). \<exists>t. r = ThreadTO t" using q by (auto simp: interrupt_entry_def)
  have i: "idle_thread ?k1 = idle_thread k \<and> nested ?k1 = 1 \<and> (\<forall>w \<in> ?E. queues ?k1 (WaitQ w) = [])"
    using h(2) by (simp add: interrupt_entry_def)
  note a = timeout_callback.announce_inv [OF thread_call_frame k1(1) i k1(2) n(1) t]
  have o': "\<forall>r \<in> set (timeout_q ?k1). (\<forall>t. r \<noteq> ThreadTO t) \<longrightarrow> to_thread (timeouts ?k1 r) = None" using o by blast
  have hd: "\<not> handling_timeouts ?k2"
    using h(1) by (auto simp: nano_sys_clock_tick_announce_def handle_time_slicing_def handle_timeouts_def Let_def
        interrupt_entry_def split: list.split prod.split)
  have "fst ` set (remaining ?k2) \<subseteq> fst ` set (remaining ?k1)"
    unfolding announce_remaining [OF k1(1,2) n(1) t o] not_due_def advance_def
    by (auto dest!: set_dropWhileD) force
  then have tq: "set (timeout_q ?k2) \<subseteq> set (timeout_q k)"
    by (simp add: timeout_q_remaining [symmetric] interrupt_entry_def)
  have n2: "nested ?k2 = 1" "idle_thread ?k2 = idle_thread k" "\<forall>w \<in> ?E. queues ?k2 (WaitQ w) = []"
    using a(2) [OF o'] by auto
  have "settled ?k2" using hd a(6) [OF o'] h(1) k1(3) by (simp add: interrupt_entry_def)
  then have "sched_ok (interrupt_exit ?k2)"
    using a(1,3) [OF o'] a(4) [OF o' k1(2)] n2(1) by (intro interrupt_exit_ok) simp_all
  then show ?thesis using h hd tq n2 by (auto simp: evolves_def interrupt_exit_frame)
qed

section \<open>The invariant\<close>

text \<open>
  The scheduler and every object are as they should be between two moves, no two objects
  share a wait queue, and no interrupt is being served.
\<close>

definition kernel_ok :: "'a kernel_scheme \<Rightarrow> bool" where
  "kernel_ok k \<longleftrightarrow> sched_ok k \<and> \<not> handling_timeouts k \<and> nested k = 0 \<and> set (timeout_q k) \<subseteq> range ThreadTO"

definition queues_apart :: "system \<Rightarrow> bool" where
  "queues_apart s \<longleftrightarrow> inj (\<lambda>i. sem_wait_q (sems s i)) \<and> inj (\<lambda>i. mutex_wait_q (mtxs s i)) \<and>
     (\<forall>i j. sem_wait_q (sems s i) \<noteq> mutex_wait_q (mtxs s j))"

definition sys_ok :: "system \<Rightarrow> bool" where
  "sys_ok s \<longleftrightarrow> kernel_ok (kern s) \<and> queues_apart s \<and>
     (\<forall>i. sem_inv (sems s i) (kern s)) \<and> (\<forall>i. mutex_inv (mtxs s i) (kern s))"

lemma queues_apart_cong:
  "(\<And>i. sem_wait_q (sems s' i) = sem_wait_q (sems s i)) \<Longrightarrow> (\<And>i. mutex_wait_q (mtxs s' i) = mutex_wait_q (mtxs s i)) \<Longrightarrow>
   queues_apart s' \<longleftrightarrow> queues_apart s"
  by (simp add: queues_apart_def)

lemma sys_okD:
  assumes "sys_ok s"
  shows "sched_ok (kern s)" "\<not> handling_timeouts (kern s)" "nested (kern s) = 0" "\<not> is_in_isr (kern s)"
    "set (timeout_q (kern s)) \<subseteq> range ThreadTO" "sem_inv (sems s i) (kern s)" "mutex_inv (mtxs s i) (kern s)"
  using assms by (simp_all add: sys_ok_def kernel_ok_def is_in_isr_def)

lemma kernel_ok_evolves: "kernel_ok k \<Longrightarrow> evolves W k k' \<Longrightarrow> kernel_ok k'"
  by (auto simp: kernel_ok_def evolves_def)

text \<open>A call on the kernel alone, on a semaphore, and on a mutex.\<close>

lemma kernel_move:
  assumes "sys_ok s" "evolves {} (kern s) k"
  shows "sys_ok (s\<lparr>kern := k, lock_call := c\<rparr>)"
proof -
  have "sem_inv (sems s i) k" "mutex_inv (mtxs s i) k" for i
    using sem_obj.inv_evolves [OF sys_okD(6) [OF assms(1)] assms(2)]
      mutex_obj.inv_evolves [OF sys_okD(7) [OF assms(1)] assms(2)] by simp_all
  moreover have "queues_apart (s\<lparr>kern := k, lock_call := c\<rparr>) \<longleftrightarrow> queues_apart s" by (rule queues_apart_cong) simp_all
  ultimately show ?thesis using assms kernel_ok_evolves [OF _ assms(2)] by (simp add: sys_ok_def)
qed

lemma sem_move:
  assumes s: "sys_ok s" and k: "evolves {sem_wait_q (sems s i)} (kern s) k"
    and v: "sem_inv sem k" "sem_wait_q sem = sem_wait_q (sems s i)"
  shows "sys_ok (s\<lparr>kern := k, sems := (sems s)(i := sem)\<rparr>)"
proof -
  have a: "j \<noteq> i \<Longrightarrow> sem_wait_q (sems s j) \<noteq> sem_wait_q (sems s i)" "mutex_wait_q (mtxs s j) \<noteq> sem_wait_q (sems s i)"
    for j using s by (metis sys_ok_def queues_apart_def injD)+
  have "\<forall>j. sem_inv (((sems s)(i := sem)) j) k"
    by (rule sem_obj.inv_others [OF _ k v(1)]) (use sys_okD(6) [OF s] a(1) in blast)+
  moreover have "mutex_inv (mtxs s j) k" for j
    by (rule mutex_obj.inv_evolves [OF sys_okD(7) [OF s] k]) (use a in simp)
  moreover have "queues_apart (s\<lparr>kern := k, sems := (sems s)(i := sem)\<rparr>) \<longleftrightarrow> queues_apart s" by (rule queues_apart_cong) (simp_all add: v(2))
  ultimately show ?thesis using s kernel_ok_evolves [OF _ k] by (simp add: sys_ok_def)
qed

lemma mutex_move:
  assumes s: "sys_ok s" and k: "evolves {mutex_wait_q (mtxs s i)} (kern s) k"
    and v: "mutex_inv m k" "mutex_wait_q m = mutex_wait_q (mtxs s i)"
  shows "sys_ok (s\<lparr>kern := k, mtxs := (mtxs s)(i := m), lock_call := c\<rparr>)"
proof -
  have a: "j \<noteq> i \<Longrightarrow> mutex_wait_q (mtxs s j) \<noteq> mutex_wait_q (mtxs s i)" "sem_wait_q (sems s j) \<noteq> mutex_wait_q (mtxs s i)"
    for j using s by (metis sys_ok_def queues_apart_def injD)+
  have "\<forall>j. mutex_inv (((mtxs s)(i := m)) j) k"
    by (rule mutex_obj.inv_others [OF _ k v(1)]) (use sys_okD(7) [OF s] a(1) in blast)+
  moreover have "sem_inv (sems s j) k" for j
    by (rule sem_obj.inv_evolves [OF sys_okD(6) [OF s] k]) (use a in simp)
  moreover have "queues_apart (s\<lparr>kern := k, mtxs := (mtxs s)(i := m), lock_call := c\<rparr>) \<longleftrightarrow> queues_apart s"
    by (rule queues_apart_cong) (simp_all add: v(2))
  ultimately show ?thesis using s kernel_ok_evolves [OF _ k] by (simp add: sys_ok_def)
qed

lemma step_ok:
  assumes s: "sys_ok s" and e: "enabled e s" and st: "step e s = Inr s'"
  shows "sys_ok s'"
proof -
  note k = sys_okD [OF s]
  have move: "sys_ok (s\<lparr>kern := k\<rparr>)" if "evolves {} (kern s) k" for k
    using kernel_move [OF s that, of "lock_call s"] by simp
  have c: "current (kern s) \<noteq> idle_thread (kern s)" if "calls s" using that by (simp add: calls_def)
  show ?thesis
  proof (cases e)
    case (SemGive i)
    have "sys_ok (s\<lparr>kern := snd (k_sem_give (sems s i) (kern s)), sems := (sems s)(i := fst (k_sem_give (sems s i) (kern s)))\<rparr>)"
      by (rule sem_move [OF s]) (use k_sem_give_keeps [OF k(1,2,4,6)] in auto)
    with st SemGive show ?thesis by (simp add: case_prod_unfold Let_def)
  next
    case (SemTake i d)
    then have "current (kern s) \<noteq> idle_thread (kern s)" using e c by simp
    note t = k_sem_take_keeps [OF k(1) this k(6), of i d]
    show ?thesis using sem_move [OF s t] st SemTake by (simp add: case_prod_unfold Let_def)
  next
    case (SemReset i)
    have "sem_inv (k_sem_reset (sems s i)) (kern s)" using k(6) [of i] by (simp add: sem_inv_def k_sem_reset_def)
    then have "sys_ok (s\<lparr>kern := kern s, sems := (sems s)(i := k_sem_reset (sems s i))\<rparr>)"
      by (intro sem_move [OF s evolves_refl [OF k(1)]]) (simp_all add: k_sem_reset_def)
    with st SemReset show ?thesis by simp
  next
    case (MutexLock i d)
    then obtain r m j where "k_mutex_lock (mtxs s i) d (kern s) = Inr (r, m, j)"
      "evolves {mutex_wait_q (mtxs s i)} (kern s) j" "mutex_inv m j" "mutex_wait_q m = mutex_wait_q (mtxs s i)"
      using k_mutex_lock_keeps [OF k(1,7), of i d] c e by auto
    with mutex_move [OF s] st MutexLock show ?thesis by auto
  next
    case (MutexUnlock i)
    then obtain m j where "k_mutex_unlock (mtxs s i) (kern s) = Inr (m, j)"
      "evolves {mutex_wait_q (mtxs s i)} (kern s) j" "mutex_inv m j" "mutex_wait_q m = mutex_wait_q (mtxs s i)"
      using k_mutex_unlock_keeps [OF k(1,7) _ k(2)] e by auto
    with mutex_move [OF s, of i j m "lock_call s"] st MutexUnlock show ?thesis by auto
  next
    case Continue
    then obtain i r m j where i: "lock_call s (current (kern s)) = Some i"
      "k_mutex_lock_resume (mtxs s i) (kern s) = Inr (r, m, j)"
      "s' = s\<lparr>kern := j, mtxs := (mtxs s)(i := m), lock_call := (lock_call s)(current (kern s) := None)\<rparr>"
      using st e by (auto split: sum.splits)
    have "m = mtxs s i \<and> evolves {} (kern s) j" using k_mutex_lock_resume_keeps [OF k(1,7) i(2)] by simp
    with kernel_move [OF s] i(3) show ?thesis by simp
  next
    case (Tick n)
    with tick_evolves [OF k(1,2,3,5)] e st show ?thesis by (auto intro: move)
  qed (use e st c k in \<open>auto intro!: move kernel_move [OF s] yield_evolves sleep_evolves wakeup_evolves
      set_priority_evolves sched_lock_evolves sched_unlock_evolves create_evolves suspend_evolves resume_evolves
      abort_evolves\<close>)
qed

section \<open>Properties\<close>

text \<open>The system the kernel starts: the main thread runs, semaphores and mutexes are as their initialisers left them.\<close>

definition booted :: "tid \<Rightarrow> tid \<Rightarrow> kernel \<Rightarrow> (nat \<Rightarrow> k_sem) \<Rightarrow> (nat \<Rightarrow> k_mutex) \<Rightarrow> system" where
  "booted d m k ss ms =
     \<lparr>kern = switch_to_main_thread (prepare_multithreading d m k), sems = ss, mtxs = ms, lock_call = (\<lambda>_. None)\<rparr>"

lemma booted_ok:
  assumes k: "cleared k" and d: "m \<noteq> idle_thread k" "d \<noteq> m" "d \<noteq> idle_thread k"
    and o: "\<forall>i. sem_count (ss i) \<le> sem_limit (ss i)" "\<forall>i. owner (ms i) = None \<and> lock_count (ms i) = 0"
    and a: "queues_apart (booted d m k ss ms)"
  shows "sys_ok (booted d m k ss ms)"
proof -
  let ?k = "switch_to_main_thread (prepare_multithreading d m k)"
  have "queues ?k (WaitQ w) = []" "\<not> handling_timeouts ?k" "nested ?k = 0" "timeout_q ?k = []" for w
    using k by (simp_all add: switch_to_main_thread_def prepare_frame cleared_def)
  then have "kernel_ok ?k" "sem_inv (ss i) ?k" "mutex_inv (ms i) ?k" for i
    using booted_sched_ok [OF k d] o by (simp_all add: kernel_ok_def sem_inv_def mutex_inv_def)
  moreover have "kern (booted d m k ss ms) = ?k" "sems (booted d m k ss ms) = ss" "mtxs (booted d m k ss ms) = ms"
    by (simp_all add: booted_def)
  ultimately show ?thesis using a by (simp add: sys_ok_def)
qed

lemma run_reachable:
  assumes "run es s = Some (Inr s')" "reachable s0 s"
  shows "reachable s0 s'"
  using assms by (induction es arbitrary: s) (auto split: if_splits sum.splits intro: move)

lemma run_append:
  "run (es @ fs) s = (case run es s of Some (Inr s') \<Rightarrow> run fs s' | r \<Rightarrow> r)"
  by (induction es arbitrary: s) (auto split: sum.split)

lemma run_ok: "run es s = Some (Inr s') \<Longrightarrow> sys_ok s \<Longrightarrow> sys_ok s'"
  by (induction es arbitrary: s) (auto split: if_splits sum.splits intro: step_ok)

text \<open>
  C1. From the start of the kernel, take any sequence of the modelled calls and clock interrupts. The calls are those that
  yield, sleep, wake a thread, change a priority, lock and unlock the scheduler, create, suspend, resume and abort threads,
  give, take and reset semaphores, and lock and unlock mutexes, made by threads as the documentation has it; resuming a
  ready thread is left out, since it breaks the ready queue, and so is aborting a thread that has an abort handler. A clock
  interrupt announces one tick, or more up to the next expiry. Then in every state reached the invariant of the scheduler
  holds: the thread that runs is ready and, if it can be preempted, no ready thread has a higher priority; the ready queue
  and its bit map hold exactly the ready threads in order, the timeout queue exactly the timeouts that count, and every
  waiting thread is in one wait queue. Every semaphore and every mutex keeps its own invariant, whichever threads use the
  others.
\<close>

theorem reachable_states_ok:
  assumes k: "cleared k" and d: "m \<noteq> idle_thread k" "d \<noteq> m" "d \<noteq> idle_thread k"
    and o: "\<forall>i. sem_count (ss i) \<le> sem_limit (ss i)" "\<forall>i. owner (ms i) = None \<and> lock_count (ms i) = 0"
    and a: "queues_apart (booted d m k ss ms)" and s: "reachable (booted d m k ss ms) s"
  shows "sys_ok s"
  using s
proof induction
  case start
  show ?case by (rule booted_ok [OF k d o a])
next
  case (move s e s')
  show ?case by (rule step_ok [OF move.IH move.hyps(2,3)])
qed

text \<open>A clock interrupt of a single tick can always come.\<close>

lemma single_tick_enabled:
  assumes "sys_ok s"
  shows "enabled (Tick 1) s"
proof -
  have "delta_inv (kern s)" using kinvD(3) [OF sched_okD(1) [OF sys_okD(1) [OF assms]]] .
  then show ?thesis by (cases "timeout_q (kern s)") (auto simp: delta_inv_def get_next_timeout_expiry_def)
qed

definition example_sems :: "nat \<Rightarrow> k_sem" where
  "example_sems i = \<lparr>sem_wait_q = 2 * i, sem_count = 0, sem_limit = 1\<rparr>"

definition example_mutexes :: "nat \<Rightarrow> k_mutex" where
  "example_mutexes i = \<lparr>mutex_wait_q = 2 * i + 1, owner = None, lock_count = 0, owner_orig_prio = 0\<rparr>"

abbreviation example_system :: system where
  "example_system \<equiv> booted 9 2 cleared_kernel example_sems example_mutexes"

lemma example_queues_apart: "queues_apart example_system"
  by (auto simp: queues_apart_def booted_def example_sems_def example_mutexes_def inj_def) presburger

text \<open>
  The main thread makes a thread of higher priority, which waits for a semaphore until the main thread gives it.
\<close>

definition example_run :: "event list" where
  "example_run = [Create 3 (- 1) 0 0, SemTake 0 K_FOREVER, SemGive 0]"

lemma example_run_ends:
  "(case run example_run example_system of Some (Inr s) \<Rightarrow> current (kern s) = 3 | _ \<Rightarrow> False)"
  by code_simp

theorem reachable_states_ok_witness:
  "\<exists>s. run example_run example_system = Some (Inr s) \<and> sys_ok s \<and> current (kern s) = 3"
proof -
  obtain s where s: "run example_run example_system = Some (Inr s)" "current (kern s) = 3"
    using example_run_ends by (auto split: option.splits sum.splits)
  have "sys_ok s"
    by (rule reachable_states_ok [OF cleared_kernel_ok(1) _ _ _ _ _ example_queues_apart run_reachable [OF s(1) start]])
       (simp_all add: cleared_kernel_ok example_sems_def example_mutexes_def)
  with s show ?thesis by blast
qed

lemma example_system_ok: "sys_ok example_system"
  by (rule booted_ok [OF cleared_kernel_ok(1) _ _ _ _ _ example_queues_apart])
     (simp_all add: cleared_kernel_ok example_sems_def example_mutexes_def)

text \<open>
  C2. When the calls on mutexes dereference a null owner, in any state of the system that satisfies the invariant. A call of
  \<^verbatim>\<open>k_mutex_lock\<close> up to the point where it blocks and a call of \<^verbatim>\<open>k_mutex_unlock\<close> by the owner never do. The rest of a call
  of \<^verbatim>\<open>k_mutex_lock\<close>, after the caller has waited, does exactly if the call timed out and the mutex has no owner at the
  time the caller runs again; otherwise it returns, 0 if the caller got the mutex and -EAGAIN if it timed out.
\<close>

theorem mutex_fault_iff:
  assumes "sys_ok s"
  shows "(\<forall>i d. enabled (MutexLock i d) s \<longrightarrow> (\<exists>r m k. k_mutex_lock (mtxs s i) d (kern s) = Inr (r, m, k))) \<and>
    (\<forall>i. enabled (MutexUnlock i) s \<longrightarrow> (\<exists>m k. k_mutex_unlock (mtxs s i) (kern s) = Inr (m, k))) \<and>
    (\<forall>i. let got_mutex = swap_retval (threads (kern s) (current (kern s))) in
      if got_mutex \<noteq> 0 \<and> owner (mtxs s i) = None then k_mutex_lock_resume (mtxs s i) (kern s) = Inl NullDeref
      else \<exists>k. k_mutex_lock_resume (mtxs s i) (kern s) = Inr (if got_mutex = 0 then 0 else - EAGAIN, mtxs s i, k) \<and>
        sys_ok (s\<lparr>kern := k\<rparr>))"
proof -
  note k = sys_okD [OF assms]
  have l: "\<exists>r m k. k_mutex_lock (mtxs s i) d (kern s) = Inr (r, m, k)" if "enabled (MutexLock i d) s" for i d
    using that k_mutex_lock_keeps [OF k(1,7), of i d] by (metis enabled.simps(14) calls_def)
  have u: "\<exists>m k. k_mutex_unlock (mtxs s i) (kern s) = Inr (m, k)" if "enabled (MutexUnlock i) s" for i
    using that k_mutex_unlock_keeps [OF k(1,7) _ k(2), of i] by (metis enabled.simps(15))
  have r: "let got_mutex = swap_retval (threads (kern s) (current (kern s))) in
      if got_mutex \<noteq> 0 \<and> owner (mtxs s i) = None then k_mutex_lock_resume (mtxs s i) (kern s) = Inl NullDeref
      else \<exists>k. k_mutex_lock_resume (mtxs s i) (kern s) = Inr (if got_mutex = 0 then 0 else - EAGAIN, mtxs s i, k) \<and>
        sys_ok (s\<lparr>kern := k\<rparr>)" for i
  proof (cases "swap_retval (threads (kern s) (current (kern s))) = 0 \<or> owner (mtxs s i) \<noteq> None")
    case True
    then obtain x k' where x: "k_mutex_lock_resume (mtxs s i) (kern s) = Inr (x, mtxs s i, k')" "evolves {} (kern s) k'"
      by (rule k_mutex_lock_resume_spec [OF k(1,7)])
    then have "x = (if swap_retval (threads (kern s) (current (kern s))) = 0 then 0 else - EAGAIN)"
      by (auto simp: k_mutex_lock_resume_def Let_def split: if_splits sum.splits)
    with x True kernel_move [OF assms x(2), of "lock_call s"] show ?thesis by (simp add: Let_def)
  qed (simp add: k_mutex_lock_resume_def adjust_owner_prio_def Let_def)
  show ?thesis by (intro conjI allI impI r) (rule l, assumption, rule u)
qed

theorem mutex_fault_iff_witness:
  "(\<exists>r m k. k_mutex_lock (mtxs example_system 0) K_FOREVER (kern example_system) = Inr (r, m, k)) \<and>
   (\<exists>m k. k_mutex_unlock ((mtxs example_system 0)\<lparr>owner := Some 2, lock_count := 1\<rparr>) (kern example_system) = Inr (m, k))"
proof -
  let ?s = "example_system\<lparr>mtxs := (mtxs example_system)(0 := (mtxs example_system 0)\<lparr>owner := Some 2, lock_count := 1\<rparr>)\<rparr>"
  have c: "enabled (MutexLock 0 K_FOREVER) example_system" "enabled (MutexUnlock 0) ?s" by code_simp+
  have e: "prio_ok (owner_orig_prio (mtxs example_system 0))" "idle_thread (kern example_system) \<noteq> 2" by code_simp+
  have "mutex_inv ((mtxs example_system 0)\<lparr>owner := Some 2, lock_count := 1\<rparr>) (kern example_system)"
    using sys_okD(7) [OF example_system_ok, of 0] e by (simp add: mutex_inv_def)
  then have ok: "sys_ok ?s"
    using mutex_move [OF example_system_ok evolves_refl [OF sys_okD(1) [OF example_system_ok]],
      where i = 0 and m = "(mtxs example_system 0)\<lparr>owner := Some 2, lock_count := 1\<rparr>" and c = "lock_call example_system"] by simp
  have "\<exists>m k. k_mutex_unlock (mtxs ?s 0) (kern ?s) = Inr (m, k)" using mutex_fault_iff [OF ok] c(2) by blast
  moreover have "\<exists>r m k. k_mutex_lock (mtxs example_system 0) K_FOREVER (kern example_system) = Inr (r, m, k)"
    using mutex_fault_iff [OF example_system_ok] c(1) by blast
  ultimately show ?thesis by simp
qed

text \<open>
  C3. The fault happens. Let a thread have timed out in \<^verbatim>\<open>k_mutex_lock\<close> without having run since, so that no thread waits
  for the mutex any more. When the owner, which has locked the mutex once, unlocks it, the mutex has no owner, and whenever
  the thread then runs again before another has locked the mutex, the rest of its call dereferences a null pointer.
\<close>

theorem k_mutex_lock_timeout_faults:
  assumes s: "sys_ok s" and u: "enabled (MutexUnlock i) s" "lock_count (mtxs s i) = 1"
    and t: "lock_call s t = Some i" "swap_retval (threads (kern s) t) \<noteq> 0"
      "queues (kern s) (WaitQ (mutex_wait_q (mtxs s i))) = []"
  shows "\<exists>s'. step (MutexUnlock i) s = Inr s' \<and> owner (mtxs s' i) = None \<and> sys_ok s' \<and> lock_call s' t = Some i \<and>
    (\<forall>s2. mtxs s2 i = mtxs s' i \<and> lock_call s2 t = Some i \<and> current (kern s2) = t \<and>
       swap_retval (threads (kern s2) t) = swap_retval (threads (kern s) t) \<longrightarrow> step Continue s2 = Inl NullDeref)"
proof -
  note k = sys_okD [OF s]
  have o: "owner (mtxs s i) = Some (current (kern s))" using u(1) by simp
  obtain j where j: "k_mutex_unlock (mtxs s i) (kern s) = Inr ((mtxs s i)\<lparr>lock_count := 0, owner := None\<rparr>, j)"
    by (rule k_mutex_unlock_free [OF k(1,7) o u(2) k(2) t(3)])
  let ?s' = "s\<lparr>kern := j, mtxs := (mtxs s)(i := (mtxs s i)\<lparr>lock_count := 0, owner := None\<rparr>)\<rparr>"
  have e: "step (MutexUnlock i) s = Inr ?s'" by (simp add: j)
  have "step Continue s2 = Inl NullDeref"
    if "mtxs s2 i = mtxs ?s' i" "lock_call s2 t = Some i" "current (kern s2) = t" "swap_retval (threads (kern s2) t) \<noteq> 0" for s2
    using that by (simp add: k_mutex_lock_resume_def adjust_owner_prio_def Let_def)
  with e step_ok [OF s u(1) e] t(1,2) show ?thesis by (intro exI [of _ ?s']) auto
qed

text \<open>
  A run that ends so: the main thread locks a mutex and sleeps; another thread waits for the mutex, with a timeout; both come
  back in the same tick. The main thread unlocks the mutex and blocks again; the other thread then finds that it timed out.
\<close>

definition fault_prefix :: "event list" where
  "fault_prefix = [MutexLock 0 K_FOREVER, Create 3 5 0 0, Sleep 10, MutexLock 0 10, Tick 2]"

definition has_timed_out :: "system \<Rightarrow> bool" where
  "has_timed_out s \<longleftrightarrow> lock_call s 3 = Some 0 \<and> swap_retval (threads (kern s) 3) = - EAGAIN"

lemma fault_prefix_ends:
  "case run fault_prefix example_system of
     Some (Inr s) \<Rightarrow> enabled (MutexUnlock 0) s \<and> lock_count (mtxs s 0) = 1 \<and> has_timed_out s \<and>
       queues (kern s) (WaitQ (mutex_wait_q (mtxs s 0))) = []
   | _ \<Rightarrow> False"
  by code_simp

lemma fault_run_ends:
  "case run (fault_prefix @ [MutexUnlock 0, Sleep 10]) example_system of
     Some (Inr s) \<Rightarrow> current (kern s) = 3 \<and> has_timed_out s
   | _ \<Rightarrow> False"
  by code_simp

theorem k_mutex_lock_timeout_faults_witness:
  "\<exists>s s2. run fault_prefix example_system = Some (Inr s) \<and> run [MutexUnlock 0, Sleep 10] s = Some (Inr s2) \<and>
     step Continue s2 = Inl NullDeref"
proof -
  obtain s where s: "run fault_prefix example_system = Some (Inr s)" "enabled (MutexUnlock 0) s" "lock_count (mtxs s 0) = 1"
      "has_timed_out s" "queues (kern s) (WaitQ (mutex_wait_q (mtxs s 0))) = []"
    using fault_prefix_ends by (auto split: option.splits sum.splits simp del: run.simps enabled.simps)
  obtain s2 where s2: "run [MutexUnlock 0, Sleep 10] s = Some (Inr s2)" "current (kern s2) = 3" "has_timed_out s2"
    using fault_run_ends unfolding run_append s(1) by (auto split: option.splits sum.splits simp del: run.simps)
  have ok: "sys_ok s" by (rule run_ok [OF s(1) example_system_ok])
  have "- EAGAIN \<noteq> 0" by (simp add: EAGAIN_def)
  with k_mutex_lock_timeout_faults [OF ok s(2,3), of 3] s(4,5) s2(2,3) obtain s' where s': "step (MutexUnlock 0) s = Inr s'"
    "mtxs s2 0 = mtxs s' 0 \<longrightarrow> step Continue s2 = Inl NullDeref" unfolding has_timed_out_def by metis
  have "run [Sleep 10] s' = Some (Inr s2)" using s2(1) s'(1) s(2) by (simp only: run.simps(2) [of "MutexUnlock 0"] sum.case if_False simp_thms)
  then have "mtxs s2 = mtxs s'" by (auto split: if_splits)
  with s'(2) s(1) s2(1) show ?thesis by auto
qed

end
