(* ===== verification/Memory.thy ===== *)
theory Memory
  imports Prelude
begin

text \<open>
  Byte-addressed memory, and the regions of it that the buffers of the kernel and the
  strings of the C library occupy. An address is a natural number and stands for a 32-bit
  pointer; pointer arithmetic out of the address space is undefined in C and does not
  occur in the model. Words are stored with the least significant byte first (x86).
\<close>

type_synonym mem = "nat \<Rightarrow> u8"

definition poke :: "nat \<Rightarrow> u8 \<Rightarrow> mem \<Rightarrow> mem" where
  "poke a v m = m(a := v)"

lemma poke_apply: "poke a v m b = (if b = a then v else m b)"
  by (simp add: poke_def)

definition load32 :: "mem \<Rightarrow> nat \<Rightarrow> u32" where
  "load32 m a =
     ucast (m a) OR push_bit 8 (ucast (m (a + 1))) OR push_bit 16 (ucast (m (a + 2))) OR
     push_bit 24 (ucast (m (a + 3)))"

definition store32 :: "nat \<Rightarrow> u32 \<Rightarrow> mem \<Rightarrow> mem" where
  "store32 a v m =
     poke (a + 3) (ucast (drop_bit 24 v)) (poke (a + 2) (ucast (drop_bit 16 v))
       (poke (a + 1) (ucast (drop_bit 8 v)) (poke a (ucast v) m)))"

definition region :: "mem \<Rightarrow> nat \<Rightarrow> nat \<Rightarrow> u8 list" where
  "region m a n = map m [a..<a + n]"

definition apart :: "nat \<Rightarrow> nat \<Rightarrow> nat \<Rightarrow> nat \<Rightarrow> bool" where
  "apart a n b l \<longleftrightarrow> a + n \<le> b \<or> b + l \<le> a"

text \<open>What copying and filling a region do, as functions on the whole memory.\<close>

definition copy_bytes :: "nat \<Rightarrow> nat \<Rightarrow> nat \<Rightarrow> mem \<Rightarrow> mem" where
  "copy_bytes d s n m = (\<lambda>a. if d \<le> a \<and> a < d + n then m (s + (a - d)) else m a)"

definition fill_bytes :: "nat \<Rightarrow> u8 \<Rightarrow> nat \<Rightarrow> mem \<Rightarrow> mem" where
  "fill_bytes d c n m = (\<lambda>a. if d \<le> a \<and> a < d + n then c else m a)"

section \<open>Regions\<close>

lemma length_region [simp]: "length (region m a n) = n"
  by (simp add: region_def)

lemma region_0 [simp]: "region m a 0 = []"
  by (simp add: region_def)

lemma nth_region [simp]: "i < n \<Longrightarrow> region m a n ! i = m (a + i)"
  by (simp add: region_def)

lemma region_Suc: "region m a (Suc n) = m a # region m (Suc a) n"
  by (rule nth_equalityI) (auto simp: nth_Cons split: nat.split)

lemma region_cong: "(\<And>i. i < n \<Longrightarrow> m' (a' + i) = m (a + i)) \<Longrightarrow> region m' a' n = region m a n"
  by (rule nth_equalityI) simp_all

lemma region_append: "region m a (n + l) = region m a n @ region m (a + n) l"
  by (rule nth_equalityI) (auto simp: nth_append)

lemma region_copy [simp]: "region (copy_bytes d s n m) d n = region m s n"
  by (rule region_cong) (simp add: copy_bytes_def)

lemma region_copy_apart: "apart d n a l \<Longrightarrow> region (copy_bytes d s n m) a l = region m a l"
  by (rule region_cong) (auto simp: copy_bytes_def apart_def)

lemma region_fill [simp]: "region (fill_bytes d c n m) d n = replicate n c"
  by (rule nth_equalityI) (simp_all add: fill_bytes_def)

lemma copy_bytes_0 [simp]: "copy_bytes d s 0 m = m"
  by (rule ext) (auto simp: copy_bytes_def)

lemma fill_bytes_0 [simp]: "fill_bytes d c 0 m = m"
  by (rule ext) (auto simp: fill_bytes_def)

lemma copy_bytes_Suc:
  "apart d (Suc n) s (Suc n) \<Longrightarrow> copy_bytes (d + 1) (s + 1) n (poke d (m s) m) = copy_bytes d s (Suc n) m"
  by (rule ext) (auto simp: copy_bytes_def apart_def Suc_diff_Suc poke_apply)

lemma fill_bytes_Suc: "fill_bytes (d + 1) c n (poke d c m) = fill_bytes d c (Suc n) m"
  by (rule ext) (auto simp: fill_bytes_def poke_apply)

lemma copy_bytes_add:
  "apart d (n + l) s (n + l) \<Longrightarrow> copy_bytes (d + n) (s + n) l (copy_bytes d s n m) = copy_bytes d s (n + l) m"
  by (rule ext) (auto simp: copy_bytes_def apart_def)

lemma fill_bytes_add: "fill_bytes (d + n) c l (fill_bytes d c n m) = fill_bytes d c (n + l) m"
  by (rule ext) (auto simp: fill_bytes_def)

section \<open>Words\<close>

lemma load32_byte:
  "ucast (load32 m a) = m a" "ucast (drop_bit 8 (load32 m a)) = m (a + 1)"
  "ucast (drop_bit 16 (load32 m a)) = m (a + 2)" "ucast (drop_bit 24 (load32 m a)) = m (a + 3)"
  by (rule bit_word_eqI; auto simp: load32_def bit_ucast_iff bit_or_iff bit_push_bit_iff bit_drop_bit_eq
      dest: bit_imp_le_length)+

text \<open>Copying a word copies its four bytes.\<close>

lemma store_load: "apart d 4 s 4 \<or> d = s \<Longrightarrow> store32 d (load32 m s) m = copy_bytes d s 4 m"
proof (rule ext)
  fix a
  assume "apart d 4 s 4 \<or> d = s"
  consider "a = d" | "a = d + 1" | "a = d + 2" | "a = d + 3" | "a < d \<or> d + 4 \<le> a" by linarith
  then show "store32 d (load32 m s) m a = copy_bytes d s 4 m a"
    by cases (auto simp: store32_def poke_apply copy_bytes_def load32_byte [unfolded One_nat_def] load32_byte)
qed

lemma load_store32 [simp]: "load32 (store32 a v m) a = v"
proof (rule bit_word_eqI)
  fix i assume "i < LENGTH(32)"
  then consider "i < 8" | "8 \<le> i \<and> i < 16" | "16 \<le> i \<and> i < 24" | "24 \<le> i \<and> i < 32" by force
  then show "bit (load32 (store32 a v m) a) i = bit v i"
    by cases (auto simp: load32_def store32_def poke_apply bit_ucast_iff bit_or_iff bit_push_bit_iff bit_drop_bit_eq)
qed

lemma load32_cong: "(\<And>i. i < 4 \<Longrightarrow> m' (a + i) = m (a + i)) \<Longrightarrow> load32 m' a = load32 m a"
proof -
  assume e: "\<And>i. i < 4 \<Longrightarrow> m' (a + i) = m (a + i)"
  from e [of 0] e [of 1] e [of 2] e [of 3] show ?thesis by (simp add: load32_def)
qed

lemma load_store32_apart: "apart a 4 b 4 \<Longrightarrow> load32 (store32 a v m) b = load32 m b"
  by (auto simp: load32_def store32_def poke_apply apart_def)

end
