(* ===== verification/Libc_String.thy ===== *)
theory Libc_String
  imports Memory
begin

text \<open>
  The string and memory functions of the minimal C library
  (\<^verbatim>\<open>lib/libc/minimal/source/string/string.c\<close>). A function takes the memory as its last
  argument; those that write it return it with their result. \<^verbatim>\<open>char\<close> is signed, as on x86.
  A loop over a string ends at the first zero byte and runs on when there is none: such
  loops are partial functions, whose value \<open>None\<close> is a loop that does not end. The loops
  with a count end.
\<close>

section \<open>Operations\<close>

partial_function (option) strcpy_loop :: "nat \<Rightarrow> nat \<Rightarrow> mem \<Rightarrow> mem option" where
  "strcpy_loop d s m = (if m s \<noteq> 0 then strcpy_loop (d + 1) (s + 1) (poke d (m s) m) else Some (poke d 0 m))"

definition strcpy :: "nat \<Rightarrow> nat \<Rightarrow> mem \<Rightarrow> (nat \<times> mem) option" where
  "strcpy d s m = map_option (\<lambda>m'. (d, m')) (strcpy_loop d s m)"

fun strncpy_loop :: "nat \<Rightarrow> nat \<Rightarrow> nat \<Rightarrow> mem \<Rightarrow> nat \<times> nat \<times> mem" where
  "strncpy_loop d s 0 m = (d, 0, m)"
| "strncpy_loop d s (Suc n) m =
     (if m s \<noteq> 0 then strncpy_loop (d + 1) (s + 1) n (poke d (m s) m) else (d, Suc n, m))"

fun set_loop :: "nat \<Rightarrow> u8 \<Rightarrow> nat \<Rightarrow> mem \<Rightarrow> mem" where
  "set_loop d c 0 m = m"
| "set_loop d c (Suc n) m = set_loop (d + 1) c n (poke d c m)"

definition strncpy :: "nat \<Rightarrow> nat \<Rightarrow> nat \<Rightarrow> mem \<Rightarrow> nat \<times> mem" where
  "strncpy d s n m = (case strncpy_loop d s n m of (d', n', m') \<Rightarrow> (d, set_loop d' 0 n' m'))"

partial_function (option) strchr_loop :: "nat \<Rightarrow> u8 \<Rightarrow> mem \<Rightarrow> nat option" where
  "strchr_loop s tmp m = (if m s \<noteq> tmp \<and> m s \<noteq> 0 then strchr_loop (s + 1) tmp m else Some s)"

text \<open>The result of a search is \<open>None\<close> for the null pointer.\<close>

definition strchr :: "nat \<Rightarrow> int \<Rightarrow> mem \<Rightarrow> nat option option" where
  "strchr s c m =
     (let tmp = word_of_int c
      in map_option (\<lambda>s'. if m s' = tmp then Some s' else None) (strchr_loop s tmp m))"

partial_function (option) strrchr_loop :: "nat \<Rightarrow> u8 \<Rightarrow> nat option \<Rightarrow> mem \<Rightarrow> nat option option" where
  "strrchr_loop s c match m =
     (let match' = (if m s = c then Some s else match)
      in if m s \<noteq> 0 then strrchr_loop (s + 1) c match' m else Some match')"

definition strrchr :: "nat \<Rightarrow> int \<Rightarrow> mem \<Rightarrow> nat option option" where
  "strrchr s c m = strrchr_loop s (word_of_int c) None m"

partial_function (option) strlen_loop :: "nat \<Rightarrow> nat \<Rightarrow> mem \<Rightarrow> nat option" where
  "strlen_loop s n m = (if m s \<noteq> 0 then strlen_loop (s + 1) (n + 1) m else Some n)"

definition strlen :: "nat \<Rightarrow> mem \<Rightarrow> nat option" where
  "strlen s m = strlen_loop s 0 m"

partial_function (option) strcmp :: "nat \<Rightarrow> nat \<Rightarrow> mem \<Rightarrow> int option" where
  "strcmp s1 s2 m =
     (if m s1 = m s2 \<and> m s1 \<noteq> 0 then strcmp (s1 + 1) (s2 + 1) m else Some (sint (m s1) - sint (m s2)))"

fun strncmp :: "nat \<Rightarrow> nat \<Rightarrow> nat \<Rightarrow> mem \<Rightarrow> int" where
  "strncmp s1 s2 0 m = 0"
| "strncmp s1 s2 (Suc n) m =
     (if m s1 = m s2 \<and> m s1 \<noteq> 0 then strncmp (s1 + 1) (s2 + 1) n m else sint (m s1) - sint (m s2))"

definition strcat :: "nat \<Rightarrow> nat \<Rightarrow> mem \<Rightarrow> (nat \<times> mem) option" where
  "strcat dest src m =
     (case strlen dest m of
        None \<Rightarrow> None
      | Some l \<Rightarrow> map_option (\<lambda>(_, m'). (dest, m')) (strcpy (dest + l) src m))"

fun strncat_loop :: "nat \<Rightarrow> nat \<Rightarrow> nat \<Rightarrow> mem \<Rightarrow> nat \<times> mem" where
  "strncat_loop dest src 0 m = (dest, m)"
| "strncat_loop dest src (Suc n) m =
     (if m src \<noteq> 0 then strncat_loop (dest + 1) (src + 1) n (poke dest (m src) m) else (dest, m))"

definition strncat :: "nat \<Rightarrow> nat \<Rightarrow> nat \<Rightarrow> mem \<Rightarrow> (nat \<times> mem) option" where
  "strncat dest src n m =
     (case strlen dest m of
        None \<Rightarrow> None
      | Some l \<Rightarrow> (case strncat_loop (dest + l) src n m of (dest', m') \<Rightarrow> Some (dest, poke dest' 0 m')))"

fun memcmp_loop :: "nat \<Rightarrow> nat \<Rightarrow> nat \<Rightarrow> mem \<Rightarrow> int" where
  "memcmp_loop c1 c2 n m =
     (if n - 1 > 0 \<and> m c1 = m c2 then memcmp_loop (c1 + 1) (c2 + 1) (n - 1) m
      else sint (m c1) - sint (m c2))"

declare memcmp_loop.simps [simp del]

definition memcmp :: "nat \<Rightarrow> nat \<Rightarrow> nat \<Rightarrow> mem \<Rightarrow> int" where
  "memcmp m1 m2 n m = (if n = 0 then 0 else memcmp_loop m1 m2 n m)"

fun copy_backward :: "nat \<Rightarrow> nat \<Rightarrow> nat \<Rightarrow> mem \<Rightarrow> mem" where
  "copy_backward dest src 0 m = m"
| "copy_backward dest src (Suc n) m = copy_backward dest src n (poke (dest + n) (m (src + n)) m)"

fun copy_forward :: "nat \<Rightarrow> nat \<Rightarrow> nat \<Rightarrow> mem \<Rightarrow> mem" where
  "copy_forward dest src 0 m = m"
| "copy_forward dest src (Suc n) m = copy_forward (dest + 1) (src + 1) n (poke dest (m src) m)"

definition memmove :: "nat \<Rightarrow> nat \<Rightarrow> nat \<Rightarrow> mem \<Rightarrow> nat \<times> mem" where
  "memmove d s n m =
     (if (int d - int s) mod 2 ^ 32 < int n then (d, copy_backward d s n m) else (d, copy_forward d s n m))"

text \<open>The bytes in front of the first aligned word: the value is \<open>Inl\<close> when the count runs out there.\<close>

fun align_copy :: "nat \<Rightarrow> nat \<Rightarrow> nat \<Rightarrow> mem \<Rightarrow> mem + (nat \<times> nat \<times> nat \<times> mem)" where
  "align_copy d s n m =
     (if d AND 3 \<noteq> 0
      then (if n = 0 then Inl m else align_copy (d + 1) (s + 1) (n - 1) (poke d (m s) m))
      else Inr (d, s, n, m))"

declare align_copy.simps [simp del]

fun word_copy :: "nat \<Rightarrow> nat \<Rightarrow> nat \<Rightarrow> mem \<Rightarrow> nat \<times> nat \<times> nat \<times> mem" where
  "word_copy d s n m =
     (if n \<ge> 4 then word_copy (d + 4) (s + 4) (n - 4) (store32 d (load32 m s) m) else (d, s, n, m))"

declare word_copy.simps [simp del]

definition memcpy :: "nat \<Rightarrow> nat \<Rightarrow> nat \<Rightarrow> mem \<Rightarrow> nat \<times> mem" where
  "memcpy d s n m =
     (if (d XOR s) AND 3 = 0
      then (case align_copy d s n m of
              Inl m' \<Rightarrow> (d, m')
            | Inr (d1, s1, n1, m1) \<Rightarrow>
                (case word_copy d1 s1 n1 m1 of (d2, s2, n2, m2) \<Rightarrow> (d, copy_forward d2 s2 n2 m2)))
      else (d, copy_forward d s n m))"

fun align_set :: "nat \<Rightarrow> u8 \<Rightarrow> nat \<Rightarrow> mem \<Rightarrow> mem + (nat \<times> nat \<times> mem)" where
  "align_set d c n m =
     (if d AND 3 \<noteq> 0
      then (if n = 0 then Inl m else align_set (d + 1) c (n - 1) (poke d c m))
      else Inr (d, n, m))"

declare align_set.simps [simp del]

fun word_set :: "nat \<Rightarrow> u32 \<Rightarrow> nat \<Rightarrow> mem \<Rightarrow> nat \<times> nat \<times> mem" where
  "word_set d c n m = (if n \<ge> 4 then word_set (d + 4) c (n - 4) (store32 d c m) else (d, n, m))"

declare word_set.simps [simp del]

definition memset_word :: "u8 \<Rightarrow> u32" where
  "memset_word c_byte =
     (let c_word = ucast c_byte;
          c_word1 = c_word OR push_bit 8 c_word
      in c_word1 OR push_bit 16 c_word1)"

definition memset :: "nat \<Rightarrow> int \<Rightarrow> nat \<Rightarrow> mem \<Rightarrow> nat \<times> mem" where
  "memset buf c n m =
     (let c_byte = word_of_int c
      in case align_set buf c_byte n m of
           Inl m' \<Rightarrow> (buf, m')
         | Inr (d1, n1, m1) \<Rightarrow>
             (case word_set d1 (memset_word c_byte) n1 m1 of
                (d2, n2, m2) \<Rightarrow> (buf, set_loop d2 c_byte n2 m2)))"

fun memchr_loop :: "nat \<Rightarrow> u8 \<Rightarrow> nat \<Rightarrow> mem \<Rightarrow> nat option" where
  "memchr_loop p c n m =
     (if m p = c then Some p else if n - 1 \<noteq> 0 then memchr_loop (p + 1) c (n - 1) m else None)"

declare memchr_loop.simps [simp del]

definition memchr :: "nat \<Rightarrow> u8 \<Rightarrow> nat \<Rightarrow> mem \<Rightarrow> nat option" where
  "memchr s c n m = (if n \<noteq> 0 then memchr_loop s c n m else None)"

section \<open>Copying\<close>

lemma copy_forward_eq: "d \<le> s \<or> s + n \<le> d \<Longrightarrow> copy_forward d s n m = copy_bytes d s n m"
proof (induction n arbitrary: d s m)
  case (Suc n)
  have "copy_bytes (d + 1) (s + 1) n (poke d (m s) m) = copy_bytes d s (Suc n) m"
    by (rule ext) (use Suc.prems in \<open>auto simp: copy_bytes_def Suc_diff_Suc poke_apply\<close>)
  with Suc.IH [of "d + 1" "s + 1" "poke d (m s) m"] Suc.prems show ?case by auto
qed simp

lemma copy_backward_eq: "s \<le> d \<or> d + n \<le> s \<Longrightarrow> copy_backward d s n m = copy_bytes d s n m"
proof (induction n arbitrary: m)
  case (Suc n)
  have "copy_bytes d s n (poke (d + n) (m (s + n)) m) = copy_bytes d s (Suc n) m"
    by (rule ext) (use Suc.prems in \<open>auto simp: copy_bytes_def less_Suc_eq poke_apply\<close>)
  with Suc.IH [of "poke (d + n) (m (s + n)) m"] Suc.prems show ?case by auto
qed simp

lemma apart_forward: "apart d n s n \<Longrightarrow> d \<le> s \<or> s + n \<le> d"
  by (auto simp: apart_def)

lemma align_copy_spec:
  assumes "apart d n s n"
  shows "case align_copy d s n m of
      Inl m' \<Rightarrow> m' = copy_bytes d s n m
    | Inr (d1, s1, n1, m1) \<Rightarrow> \<exists>j \<le> n. d1 = d + j \<and> s1 = s + j \<and> n1 = n - j \<and> m1 = copy_bytes d s j m"
  using assms
proof (induction d s n m rule: align_copy.induct)
  case (1 d s n m)
  show ?case
  proof (cases "d AND 3 \<noteq> 0 \<and> n \<noteq> 0")
    case True
    then obtain n' where n: "n = Suc n'" using not0_implies_Suc by auto
    have "apart (d + 1) (n - 1) (s + 1) (n - 1)" using "1.prems" by (auto simp: apart_def)
    note ih = "1.IH" [OF _ _ this]
    have step: "copy_bytes (d + 1) (s + 1) j (poke d (m s) m) = copy_bytes d s (Suc j) m" if "j \<le> n'" for j
      using that "1.prems" n by (intro copy_bytes_Suc) (auto simp: apart_def)
    have e: "align_copy d s n m = align_copy (d + 1) (s + 1) (n - 1) (poke d (m s) m)"
      using True by (subst align_copy.simps) simp
    show ?thesis
    proof (cases "align_copy d s n m")
      case (Inl m')
      with ih True e n step [of n'] show ?thesis by simp
    next
      case (Inr b)
      obtain d1 s1 n1 m1 where b: "b = (d1, s1, n1, m1)" by (cases b)
      have "align_copy (d + 1) (s + 1) (n - 1) (poke d (m s) m) = Inr (d1, s1, n1, m1)" using e Inr b by simp
      with ih True obtain j where "j \<le> n - 1" "d1 = d + 1 + j" "s1 = s + 1 + j" "n1 = n - 1 - j"
        "m1 = copy_bytes (d + 1) (s + 1) j (poke d (m s) m)" by auto
      with step [of j] n Inr b show ?thesis by (auto intro!: exI [of _ "Suc j"])
    qed
  qed (auto simp: align_copy.simps [of d s n m])
qed

lemma word_copy_spec:
  assumes "apart d n s n"
  shows "word_copy d s n m =
    (d + 4 * (n div 4), s + 4 * (n div 4), n mod 4, copy_bytes d s (4 * (n div 4)) m)"
  using assms
proof (induction d s n m rule: word_copy.induct)
  case (1 d s n m)
  show ?case
  proof (cases "4 \<le> n")
    case True
    then obtain q where n: "n = 4 + q" using le_Suc_ex by blast
    have a: "apart (d + 4) q (s + 4) q" "apart d 4 s 4" using "1.prems" n by (auto simp: apart_def)
    have "copy_bytes (d + 4) (s + 4) (4 * (q div 4)) (copy_bytes d s 4 m) = copy_bytes d s (4 + 4 * (q div 4)) m"
      using "1.prems" n by (intro copy_bytes_add) (auto simp: apart_def)
    moreover have "4 * (n div 4) = 4 + 4 * (q div 4)" "n mod 4 = q mod 4" using n by (simp_all add: div_add_self1)
    ultimately show ?thesis using "1.IH" [OF True] a n by (subst word_copy.simps) (simp add: store_load)
  next
    case False
    then show ?thesis by (subst word_copy.simps) simp
  qed
qed

lemma memcpy_copy:
  assumes a: "apart d n s n"
  shows "memcpy d s n m = (d, copy_bytes d s n m)"
proof (cases "(d XOR s) AND 3 = 0")
  case True
  show ?thesis
  proof (cases "align_copy d s n m")
    case (Inl m')
    with True align_copy_spec [OF a, of m] show ?thesis by (simp add: memcpy_def)
  next
    case (Inr b)
    obtain d1 s1 n1 m1 where b: "b = (d1, s1, n1, m1)" by (cases b)
    with Inr align_copy_spec [OF a, of m] obtain j where j: "j \<le> n" "d1 = d + j" "s1 = s + j" "n1 = n - j"
      "m1 = copy_bytes d s j m" by auto
    let ?w = "4 * (n1 div 4)"
    have a1: "apart d1 n1 s1 n1" using a j by (auto simp: apart_def)
    have w: "?w + n1 mod 4 = n1" by simp
    have a2: "apart d1 (?w + n1 mod 4) s1 (?w + n1 mod 4)" unfolding w by (rule a1)
    have "d1 + ?w \<le> s1 + ?w \<or> s1 + ?w + n1 mod 4 \<le> d1 + ?w" using a2 by (auto simp: apart_def)
    then have "copy_forward (d1 + ?w) (s1 + ?w) (n1 mod 4) (copy_bytes d1 s1 ?w m1) = copy_bytes d1 s1 n1 m1"
      using copy_bytes_add [OF a2, of m1] unfolding w by (simp add: copy_forward_eq)
    also have "\<dots> = copy_bytes d s n m" using copy_bytes_add [of d j n1 s m] a j by simp
    finally show ?thesis using True Inr b by (simp add: memcpy_def word_copy_spec [OF a1])
  qed
next
  case False
  with a show ?thesis by (simp add: memcpy_def copy_forward_eq [OF apart_forward])
qed

section \<open>Filling\<close>

lemma set_loop_eq: "set_loop d c n m = fill_bytes d c n m"
proof (induction n arbitrary: d m)
  case (Suc n)
  show ?case using Suc.IH [of "d + 1" "poke d c m"] fill_bytes_Suc [of d c n m] by simp
qed simp

lemma align_set_spec:
  "case align_set d c n m of
     Inl m' \<Rightarrow> m' = fill_bytes d c n m
   | Inr (d1, n1, m1) \<Rightarrow> \<exists>j \<le> n. d1 = d + j \<and> n1 = n - j \<and> m1 = fill_bytes d c j m"
proof (induction d c n m rule: align_set.induct)
  case (1 d c n m)
  show ?case
  proof (cases "d AND 3 \<noteq> 0 \<and> n \<noteq> 0")
    case True
    then obtain n' where n: "n = Suc n'" using not0_implies_Suc by auto
    have step: "fill_bytes (d + 1) c j (poke d c m) = fill_bytes d c (Suc j) m" for j
      by (rule fill_bytes_Suc)
    have e: "align_set d c n m = align_set (d + 1) c (n - 1) (poke d c m)"
      using True by (subst align_set.simps) simp
    show ?thesis
    proof (cases "align_set d c n m")
      case (Inl m')
      with "1.IH" True e n step [of n'] show ?thesis by simp
    next
      case (Inr b)
      obtain d1 n1 m1 where b: "b = (d1, n1, m1)" by (cases b)
      have "align_set (d + 1) c (n - 1) (poke d c m) = Inr (d1, n1, m1)" using e Inr b by simp
      with "1.IH" True obtain j where "j \<le> n - 1" "d1 = d + 1 + j" "n1 = n - 1 - j"
        "m1 = fill_bytes (d + 1) c j (poke d c m)" by auto
      with step [of j] n Inr b show ?thesis by (auto intro!: exI [of _ "Suc j"])
    qed
  qed (auto simp: align_set.simps [of d c n m])
qed

lemma store_fill: "store32 d (memset_word c) m = fill_bytes d c 4 m"
proof (rule ext)
  fix a
  let ?w = "memset_word c"
  have "ucast ?w = c" "ucast (drop_bit 8 ?w) = c" "ucast (drop_bit 16 ?w) = c" "ucast (drop_bit 24 ?w) = c"
    by (rule bit_word_eqI; auto simp: memset_word_def Let_def bit_ucast_iff bit_or_iff bit_push_bit_iff bit_drop_bit_eq
        dest: bit_imp_le_length)+
  moreover consider "a = d" | "a = d + 1" | "a = d + 2" | "a = d + 3" | "a < d \<or> d + 4 \<le> a" by linarith
  ultimately show "store32 d ?w m a = fill_bytes d c 4 m a"
    by cases (auto simp: store32_def fill_bytes_def poke_apply)
qed

lemma word_set_spec:
  assumes "\<And>d m. store32 d w m = fill_bytes d c 4 m"
  shows "word_set d w n m = (d + 4 * (n div 4), n mod 4, fill_bytes d c (4 * (n div 4)) m)"
  using assms
proof (induction d w n m rule: word_set.induct)
  case (1 d w n m)
  show ?case
  proof (cases "4 \<le> n")
    case True
    then obtain q where n: "n = 4 + q" using le_Suc_ex by blast
    have "4 * (n div 4) = 4 + 4 * (q div 4)" "n mod 4 = q mod 4" using n by (simp_all add: div_add_self1)
    then show ?thesis using "1.IH" [OF True "1.prems"] True n
      by (subst word_set.simps) (simp add: "1.prems" fill_bytes_add)
  qed (subst word_set.simps, simp)
qed

lemma memset_fill: "memset d c n m = (d, fill_bytes d (word_of_int c) n m)"
proof (cases "align_set d (word_of_int c) n m")
  case (Inl m')
  with align_set_spec [of d "word_of_int c" n m] show ?thesis by (simp add: memset_def Let_def)
next
  case (Inr b)
  obtain d1 n1 m1 where b: "b = (d1, n1, m1)" by (cases b)
  with Inr align_set_spec [of d "word_of_int c" n m] obtain j where j: "j \<le> n" "d1 = d + j" "n1 = n - j"
    "m1 = fill_bytes d (word_of_int c) j m" by auto
  have "4 * (n1 div 4) + n1 mod 4 = n1" by simp
  then show ?thesis
    using Inr b j by (simp add: memset_def Let_def word_set_spec [OF store_fill] set_loop_eq fill_bytes_add)
qed

section \<open>Strings\<close>

text \<open>\<open>cstring m s xs\<close>: a zero-terminated string of bytes \<open>xs\<close> stands at \<open>s\<close>.\<close>

fun cstring :: "mem \<Rightarrow> nat \<Rightarrow> u8 list \<Rightarrow> bool" where
  "cstring m s [] \<longleftrightarrow> m s = 0"
| "cstring m s (x # xs) \<longleftrightarrow> m s = x \<and> x \<noteq> 0 \<and> cstring m (s + 1) xs"

lemma cstring_cong:
  "cstring m s xs \<Longrightarrow> (\<And>i. i \<le> length xs \<Longrightarrow> m' (s + i) = m (s + i)) \<Longrightarrow> cstring m' s xs"
proof (induction xs arbitrary: s)
  case Nil
  from Nil.prems(2) [of 0] Nil.prems(1) show ?case by simp
next
  case (Cons x xs)
  have "cstring m' (s + 1) xs"
    using Cons.prems(1) Cons.prems(2) [of "Suc i" for i] by (intro Cons.IH) simp_all
  with Cons.prems(1) Cons.prems(2) [of 0] show ?case by simp
qed

lemma cstring_shift:
  "cstring m s xs \<Longrightarrow> (\<And>i. i \<le> length xs \<Longrightarrow> m' (d + i) = m (s + i)) \<Longrightarrow> cstring m' d xs"
proof (induction xs arbitrary: s d)
  case Nil
  from Nil.prems(2) [of 0] Nil.prems(1) show ?case by simp
next
  case (Cons x xs)
  have "cstring m' (d + 1) xs"
    using Cons.prems(1) Cons.prems(2) [of "Suc i" for i] by (intro Cons.IH [of "s + 1"]) simp_all
  with Cons.prems(1) Cons.prems(2) [of 0] show ?case by simp
qed

lemma cstring_append:
  "cstring m s (xs @ ys) \<longleftrightarrow> region m s (length xs) = xs \<and> 0 \<notin> set xs \<and> cstring m (s + length xs) ys"
  by (induction xs arbitrary: s) (auto simp: region_Suc)

lemma cstring_region: "cstring m s xs \<longleftrightarrow> region m s (length xs) = xs \<and> 0 \<notin> set xs \<and> m (s + length xs) = 0"
  using cstring_append [of m s xs "[]"] by simp

lemma strlen_loop_spec: "cstring m s xs \<Longrightarrow> strlen_loop s n m = Some (n + length xs)"
  by (induction xs arbitrary: s n) (simp_all add: strlen_loop.simps)

lemma strlen_spec: "cstring m s xs \<Longrightarrow> strlen s m = Some (length xs)"
  by (simp add: strlen_def strlen_loop_spec)

lemma strcpy_loop_spec:
  "cstring m s xs \<Longrightarrow> apart d (length xs + 1) s (length xs + 1) \<Longrightarrow>
   strcpy_loop d s m = Some (copy_bytes d s (length xs + 1) m)"
proof (induction xs arbitrary: d s m)
  case Nil
  have "poke d 0 m = copy_bytes d s 1 m"
    by (rule ext) (use Nil in \<open>auto simp: copy_bytes_def poke_apply\<close>)
  with Nil show ?case by (subst strcpy_loop.simps) simp
next
  case (Cons x xs)
  let ?m = "poke d (m s) m"
  have "cstring ?m (s + 1) xs"
    by (rule cstring_cong [of m "s + 1" xs]) (use Cons.prems in \<open>auto simp: poke_apply apart_def\<close>)
  moreover have "apart (d + 1) (length xs + 1) (s + 1) (length xs + 1)" using Cons.prems(2) by (auto simp: apart_def)
  ultimately have "strcpy_loop (d + 1) (s + 1) ?m = Some (copy_bytes (d + 1) (s + 1) (length xs + 1) ?m)"
    by (rule Cons.IH)
  also have "copy_bytes (d + 1) (s + 1) (length xs + 1) ?m = copy_bytes d s (length (x # xs) + 1) m"
    using copy_bytes_Suc [of d "length xs + 1" s m] Cons.prems(2) by simp
  finally show ?case using Cons.prems(1) by (subst strcpy_loop.simps) simp
qed

lemma strcpy_spec:
  "cstring m s xs \<Longrightarrow> apart d (length xs + 1) s (length xs + 1) \<Longrightarrow>
   strcpy d s m = Some (d, copy_bytes d s (length xs + 1) m)"
  by (simp add: strcpy_def strcpy_loop_spec)

lemma cstring_copy: "cstring m s xs \<Longrightarrow> cstring (copy_bytes d s (length xs + 1) m) d xs"
  by (rule cstring_shift) (simp_all add: copy_bytes_def)

lemma strcat_spec:
  assumes x: "cstring m d xs" and y: "cstring m s ys"
    and a: "apart (d + length xs) (length ys + 1) s (length ys + 1)"
  shows "strcat d s m = Some (d, copy_bytes (d + length xs) s (length ys + 1) m)"
    and "cstring (copy_bytes (d + length xs) s (length ys + 1) m) d (xs @ ys)"
proof -
  let ?m = "copy_bytes (d + length xs) s (length ys + 1) m"
  show "strcat d s m = Some (d, ?m)"
    by (simp add: strcat_def strlen_spec [OF x] strcpy_spec [OF y a])
  have "region ?m d (length xs) = region m d (length xs)"
    by (rule region_cong) (simp add: copy_bytes_def)
  with x cstring_copy [OF y] show "cstring ?m d (xs @ ys)" by (simp add: cstring_append cstring_region [of m d xs])
qed

text \<open>The result of comparing two strings: the difference of the first bytes that differ, as signed bytes.\<close>

fun bytes_compare :: "u8 list \<Rightarrow> u8 list \<Rightarrow> int" where
  "bytes_compare [] [] = 0"
| "bytes_compare (x # xs) [] = sint x"
| "bytes_compare [] (y # ys) = - sint y"
| "bytes_compare (x # xs) (y # ys) = (if x = y then bytes_compare xs ys else sint x - sint y)"

lemma sint_eq_iff [simp]: "sint x = sint y \<longleftrightarrow> x = y" for x y :: u8
  by (metis signed_word_eqI)

lemma sint_eq_0 [simp]: "sint x = 0 \<longleftrightarrow> x = 0" for x :: u8
  using sint_eq_iff [of x 0] by (simp del: sint_eq_iff)

lemma bytes_compare_0: "0 \<notin> set xs \<Longrightarrow> 0 \<notin> set ys \<Longrightarrow> bytes_compare xs ys = 0 \<longleftrightarrow> xs = ys"
  by (induction xs ys rule: bytes_compare.induct) auto

lemma strcmp_spec: "cstring m s1 xs \<Longrightarrow> cstring m s2 ys \<Longrightarrow> strcmp s1 s2 m = Some (bytes_compare xs ys)"
proof (induction xs ys arbitrary: s1 s2 rule: bytes_compare.induct)
  case (4 x xs y ys)
  then show ?case by (subst strcmp.simps) auto
qed (subst strcmp.simps, auto)+

lemma memcmp_loop_spec:
  "memcmp_loop c1 c2 (Suc n) m = bytes_compare (region m c1 (Suc n)) (region m c2 (Suc n))"
  by (induction n arbitrary: c1 c2) (subst memcmp_loop.simps, auto simp: region_Suc)+

lemma memcmp_spec: "memcmp m1 m2 n m = bytes_compare (region m m1 n) (region m m2 n)"
  by (cases n) (simp_all add: memcmp_def memcmp_loop_spec)

lemma bytes_compare_eq: "length xs = length ys \<Longrightarrow> bytes_compare xs ys = 0 \<longleftrightarrow> xs = ys"
  by (induction xs ys rule: list_induct2) auto

section \<open>Properties\<close>

text \<open>
  C23. Moving memory: whatever way the two areas overlap, the destination holds afterwards
  the bytes the source held before, and no byte outside the destination has changed. The
  choice of direction by the unsigned difference of the pointers is the right one for all
  areas within the address space.
\<close>

theorem memmove_any_overlap:
  assumes "d + n \<le> 2 ^ 32" and "s + n \<le> 2 ^ 32"
  shows "memmove d s n m = (d, copy_bytes d s n m)"
proof (cases "(int d - int s) mod 2 ^ 32 < int n")
  case True
  have "s \<le> d"
  proof (rule ccontr)
    assume "\<not> s \<le> d"
    then have "(int d - int s + 2 ^ 32) mod 2 ^ 32 = int d - int s + 2 ^ 32"
      using assms by (intro mod_pos_pos_trivial) simp_all
    then have "(int d - int s) mod 2 ^ 32 = int d - int s + 2 ^ 32" by simp
    with True assms show False by simp
  qed
  with True show ?thesis by (simp add: memmove_def copy_backward_eq)
next
  case False
  have "d \<le> s \<or> s + n \<le> d"
  proof (rule ccontr)
    assume "\<not> (d \<le> s \<or> s + n \<le> d)"
    then have "(int d - int s) mod 2 ^ 32 = int d - int s" using assms by (intro mod_pos_pos_trivial) simp_all
    with False \<open>\<not> (d \<le> s \<or> s + n \<le> d)\<close> show False by simp
  qed
  with False show ?thesis by (simp add: memmove_def copy_forward_eq)
qed

definition example_mem :: mem where
  "example_mem = (\<lambda>a. if a = 8 then 97 else if a = 9 then 98 else if a = 10 then 99 else 0)"

theorem memmove_any_overlap_witness:
  "region (snd (memmove 9 8 3 example_mem)) 9 3 = [97, 98, 99] \<and>
   region (snd (memmove 7 8 3 example_mem)) 7 3 = [97, 98, 99]"
  using memmove_any_overlap [of 9 3 8 example_mem] memmove_any_overlap [of 7 3 8 example_mem]
  by (simp add: region_def example_mem_def copy_bytes_def upt_rec)

text \<open>
  C22. The word-by-word copy: on areas that do not overlap, the bytes up to the first
  aligned word, the words and the bytes that are left together copy every byte once, for
  every alignment of the two areas; areas of different alignment are copied bytewise.
\<close>

theorem memcpy_equals_bytewise:
  assumes "apart d n s n"
  shows "memcpy d s n m = (d, copy_bytes d s n m) \<and> snd (memcpy d s n m) = copy_forward d s n m"
  using memcpy_copy [OF assms] copy_forward_eq [OF apart_forward [OF assms]] by simp

theorem memcpy_equals_bytewise_witness:
  "region (snd (memcpy 17 9 2 example_mem)) 17 2 = [98, 99]"
  using memcpy_equals_bytewise [of 17 2 9 example_mem]
  by (simp add: apart_def) (simp add: region_def example_mem_def copy_bytes_def upt_rec)

text \<open>
  Appending a string: the length of the destination is found, the source is copied
  behind it with its terminator, and the destination is then the concatenation. The loops
  end for every pair of strings that do not overlap where the copy goes.
\<close>

theorem strcat_concatenates:
  assumes "cstring m d xs" and "cstring m s ys" and "apart (d + length xs) (length ys + 1) s (length ys + 1)"
  shows "\<exists>m'. strcat d s m = Some (d, m') \<and> cstring m' d (xs @ ys) \<and> strlen d m' = Some (length xs + length ys) \<and>
    (\<forall>a. a < d + length xs \<or> d + length xs + length ys < a \<longrightarrow> m' a = m a)"
  using strcat_spec [OF assms] strlen_spec [OF strcat_spec(2) [OF assms]] by (auto simp: copy_bytes_def)

theorem strcat_concatenates_witness:
  "\<exists>m'. strcat 20 8 (example_mem(20 := 100)) = Some (20, m') \<and> cstring m' 20 [100, 97, 98, 99]"
  using strcat_concatenates [of "example_mem(20 := 100)" 20 "[100]" 8 "[97, 98, 99]"]
  by (auto simp: example_mem_def apart_def)

text \<open>
  Comparing memory: the result is zero exactly when the areas are equal. It is the
  difference of the first bytes that differ taken as signed characters, so a byte above
  127 counts as smaller than every byte up to 127.
\<close>

theorem memcmp_signed_bytes:
  "(memcmp m1 m2 n m = 0 \<longleftrightarrow> region m m1 n = region m m2 n) \<and>
   (0 < n \<and> 128 \<le> uint (m m1) \<and> uint (m m2) < 128 \<longrightarrow> memcmp m1 m2 n m < 0)"
proof (intro conjI impI)
  show "memcmp m1 m2 n m = 0 \<longleftrightarrow> region m m1 n = region m m2 n"
    unfolding memcmp_spec by (rule bytes_compare_eq) simp
next
  assume a: "0 < n \<and> 128 \<le> uint (m m1) \<and> uint (m m2) < 128"
  then obtain n' where n: "n = Suc n'" using gr0_conv_Suc by blast
  have "sint (m m2) = uint (m m2)" using a by (intro sint_small) simp
  moreover have "sint (m m1) < 0" 
  proof -
    have "uint (m m1) < 256" using uint_lt2p [of "m m1"] by simp
    then have "uint (m m1) div 128 = 1" using a by linarith
    then show ?thesis by (simp add: sint_uint signed_take_bit_negative_iff bit_iff_odd)
  qed
  ultimately have "sint (m m1) < sint (m m2)" using uint_ge_0 [of "m m2"] by linarith
  then show "memcmp m1 m2 n m < 0" unfolding memcmp_spec n region_Suc by auto
qed

theorem memcmp_signed_bytes_witness:
  "memcmp 8 9 1 (\<lambda>a. if a = 8 then 200 else 100) < 0"
  using memcmp_signed_bytes [of 8 9 1 "\<lambda>a. if a = 8 then 200 else 100"] by simp

end
