(* ===== verification/Stack.thy ===== *)
theory Stack
  imports Waiters Memory
begin

text \<open>
  Stacks of 32-bit values (\<^verbatim>\<open>kernel/stack.c\<close>). The buffer is a region of memory; the three
  pointers are addresses in it. A value handed to a waiting thread goes through its
  \<^verbatim>\<open>swap_data\<close>.
\<close>

section \<open>Operations\<close>

record k_stack =
  stack_wait_q :: waddr
  stack_base :: nat
  stack_next :: nat
  stack_top :: nat

definition k_stack_init :: "k_stack \<Rightarrow> nat \<Rightarrow> u32 \<Rightarrow> 'a kernel_scheme \<Rightarrow> k_stack \<times> 'a kernel_scheme" where
  "k_stack_init stack buffer num_entries k =
     (stack\<lparr>stack_next := buffer, stack_base := buffer, stack_top := buffer + 4 * unat num_entries\<rparr>,
      k\<lparr>queues := (queues k)(WaitQ (stack_wait_q stack) := [])\<rparr>)"

definition k_stack_push ::
  "k_stack \<Rightarrow> u32 \<Rightarrow> mem \<Rightarrow> 'a kernel_scheme \<Rightarrow> k_stack \<times> mem \<times> 'a kernel_scheme" where
  "k_stack_push stack data m k =
     (case unpend_first_thread (stack_wait_q stack) k of
        (Some t, k1) \<Rightarrow>
          let k2 = snd (abort_thread_timeout t k1);
              k3 = ready_thread t k2;
              k4 = set_thread_return_value_with_data t 0 (unat data) k3
          in (stack, m, if \<not> is_in_isr k4 \<and> must_switch_threads k4 then Swap k4 else k4)
      | (None, k1) \<Rightarrow>
          (stack\<lparr>stack_next := stack_next stack + 4\<rparr>, store32 (stack_next stack) data m, k1))"

text \<open>The result and what is stored through the pointer \<^verbatim>\<open>data\<close>, if anything is.\<close>

definition k_stack_pop ::
  "k_stack \<Rightarrow> int \<Rightarrow> mem \<Rightarrow> 'a kernel_scheme \<Rightarrow> (int \<times> u32 option) option \<times> k_stack \<times> 'a kernel_scheme" where
  "k_stack_pop stack timeout m k =
     (if stack_next stack > stack_base stack
      then let stack' = stack\<lparr>stack_next := stack_next stack - 4\<rparr>
           in (Some (0, Some (load32 m (stack_next stack'))), stack', k)
      else if timeout = K_NO_WAIT then (Some (- EBUSY, None), stack, k)
      else (None, stack, Swap (pend_current_thread (stack_wait_q stack) timeout k)))"

definition k_stack_pop_resume :: "'a kernel_scheme \<Rightarrow> int \<times> u32 option" where
  "k_stack_pop_resume k =
     (let result = swap_retval (threads k (current k))
      in (result, if result = 0 then Some (word_of_nat (swap_data (threads k (current k)))) else None))"

section \<open>Specification\<close>

text \<open>
  The values on the stack, from the bottom to the top. A thread waits only while the
  stack is empty.
\<close>

definition stack_list :: "k_stack \<Rightarrow> mem \<Rightarrow> u32 list" where
  "stack_list stack m =
     map (\<lambda>i. load32 m (stack_base stack + 4 * i)) [0..<(stack_next stack - stack_base stack) div 4]"

definition stack_inv :: "k_stack \<Rightarrow> 'a kernel_scheme \<Rightarrow> bool" where
  "stack_inv stack k \<longleftrightarrow>
     stack_base stack \<le> stack_next stack \<and> stack_next stack \<le> stack_top stack \<and>
     (stack_next stack - stack_base stack) mod 4 = 0 \<and> (stack_top stack - stack_base stack) mod 4 = 0 \<and>
     (queues k (WaitQ (stack_wait_q stack)) \<noteq> [] \<longrightarrow> stack_next stack = stack_base stack)"

lemma stack_invE:
  assumes "stack_inv stack k"
  obtains n c where "stack_next stack = stack_base stack + 4 * n" "stack_top stack = stack_base stack + 4 * c" "n \<le> c"
proof -
  let ?n = "(stack_next stack - stack_base stack) div 4" and ?c = "(stack_top stack - stack_base stack) div 4"
  have le: "stack_base stack \<le> stack_next stack" "stack_next stack \<le> stack_top stack"
    and mod: "(stack_next stack - stack_base stack) mod 4 = 0" "(stack_top stack - stack_base stack) mod 4 = 0"
    using assms by (simp_all add: stack_inv_def)
  have n: "stack_next stack = stack_base stack + 4 * ?n"
    using le mod(1) mult_div_mod_eq [of 4 "stack_next stack - stack_base stack"] by linarith
  have c: "stack_top stack = stack_base stack + 4 * ?c"
    using le mod(2) mult_div_mod_eq [of 4 "stack_top stack - stack_base stack"] by linarith
  have "?n \<le> ?c" using le by (intro div_le_mono) simp
  with n c show ?thesis by (rule that)
qed

lemma stack_list_at: "stack_next stack = stack_base stack + 4 * n \<Longrightarrow>
    stack_list stack m = map (\<lambda>i. load32 m (stack_base stack + 4 * i)) [0..<n]"
  by (simp add: stack_list_def)

lemma load_store_below: "i < n \<Longrightarrow> load32 (store32 (b + 4 * n) v m) (b + 4 * i) = load32 m (b + 4 * i)" for i n :: nat
  by (rule load_store32_apart) (auto simp: apart_def)

lemma stack_list_store:
  assumes "stack_next stack = stack_base stack + 4 * n"
  shows "stack_list (stack\<lparr>stack_next := stack_next stack + 4\<rparr>) (store32 (stack_next stack) v m) =
    stack_list stack m @ [v]"
proof -
  have "stack_list (stack\<lparr>stack_next := stack_next stack + 4\<rparr>) (store32 (stack_next stack) v m) =
      map (\<lambda>i. load32 (store32 (stack_next stack) v m) (stack_base stack + 4 * i)) [0..<Suc n]"
    using assms by (subst stack_list_at [of _ "Suc n"]) simp_all
  then show ?thesis using assms by (simp add: stack_list_at [OF assms] load_store_below)
qed

section \<open>Properties\<close>

text \<open>
  Pushing on a stack that is not full: with no waiter the value is put on top of the
  others and nothing else changes; otherwise it is handed to the first waiter, whose
  pending \<^verbatim>\<open>k_stack_pop\<close> returns 0 and that value, and the stack does not change.
\<close>

theorem k_stack_push_refines:
  assumes s: "sched_ok k" and h: "\<not> handling_timeouts k" and i: "\<not> is_in_isr k"
    and v: "stack_inv stack k" and f: "stack_next stack \<noteq> stack_top stack"
  shows "case k_stack_push stack data m k of (stack', m', k') \<Rightarrow>
    stack_inv stack' k' \<and> stack_top stack' = stack_top stack \<and>
    (case queues k (WaitQ (stack_wait_q stack)) of
       [] \<Rightarrow> stack_list stack' m' = stack_list stack m @ [data] \<and> k' = k
     | t # ts \<Rightarrow> stack' = stack \<and> m' = m \<and> served t 0 k k' \<and>
         queues k' (WaitQ (stack_wait_q stack)) = ts \<and> swap_data (threads k' t) = unat data)"
proof (cases "queues k (WaitQ (stack_wait_q stack))")
  case Nil
  obtain n c where n: "stack_next stack = stack_base stack + 4 * n" "stack_top stack = stack_base stack + 4 * c"
    "n \<le> c" by (rule stack_invE [OF v])
  have "k_stack_push stack data m k =
      (stack\<lparr>stack_next := stack_next stack + 4\<rparr>, store32 (stack_next stack) data m, k)"
    using Nil by (simp add: k_stack_push_def unpend_first_head [OF h])
  with Nil n f stack_list_store [OF n(1), of data m] show ?thesis by (simp add: stack_inv_def)
next
  case (Cons t ts)
  let ?k2 = "set_thread_return_value_with_data t 0 (unat data) (woken t (unpend_thread t k))"
  have u: "unpend_first_thread (stack_wait_q stack) k = (Some t, unpend_thread t k)"
    by (simp add: unpend_first_head [OF h] Cons)
  note d = serve_data [OF s i u, of 0 "unat data"]
  have "k_stack_push stack data m k = (stack, m, if must_switch_threads ?k2 then Swap ?k2 else ?k2)"
    using d(3) by (simp add: k_stack_push_def u woken_def Let_def)
  moreover from d(1) Cons have q: "queues (if must_switch_threads ?k2 then Swap ?k2 else ?k2) (WaitQ (stack_wait_q stack)) = ts"
    by (simp add: served_def)
  ultimately show ?thesis using d v Cons by (simp add: stack_inv_def)
qed

definition example_stack :: k_stack where
  "example_stack = \<lparr>stack_wait_q = 7, stack_base = 64, stack_next = 64, stack_top = 72\<rparr>"

lemma example_stack_inv: "stack_inv example_stack pair_kernel"
  by (simp add: stack_inv_def example_stack_def)

theorem k_stack_push_refines_witness:
  "stack_list (fst (k_stack_push example_stack 5 (\<lambda>_. 0) pair_kernel))
     (fst (snd (k_stack_push example_stack 5 (\<lambda>_. 0) pair_kernel))) = [5]"
  using k_stack_push_refines [OF pair_sched_ok _ _ example_stack_inv, where data = 5 and m = "\<lambda>_. 0"]
  by (simp add: pair_current is_in_isr_def case_prod_unfold) (simp add: example_stack_def stack_list_def)

text \<open>
  Last in, first out: after a push on a stack without waiters a pop returns 0 and the
  value pushed, and leaves the stack as it was, with the values below untouched.
\<close>

theorem k_stack_pop_push:
  assumes h: "\<not> handling_timeouts k" and v: "stack_inv stack k"
    and q: "queues k (WaitQ (stack_wait_q stack)) = []"
  shows "case k_stack_push stack data m k of (stack', m', k') \<Rightarrow>
    k_stack_pop stack' timeout m' k' = (Some (0, Some data), stack, k) \<and> stack_list stack m' = stack_list stack m"
proof -
  obtain n c where n: "stack_next stack = stack_base stack + 4 * n" by (rule stack_invE [OF v])
  have "k_stack_push stack data m k =
      (stack\<lparr>stack_next := stack_next stack + 4\<rparr>, store32 (stack_next stack) data m, k)"
    using q by (simp add: k_stack_push_def unpend_first_head [OF h])
  then show ?thesis
    using n by (simp add: k_stack_pop_def Let_def stack_list_at [OF n] load_store_below)
qed

theorem k_stack_pop_push_witness:
  "fst (k_stack_pop (fst (k_stack_push example_stack 5 (\<lambda>_. 0) pair_kernel)) K_NO_WAIT
     (fst (snd (k_stack_push example_stack 5 (\<lambda>_. 0) pair_kernel)))
     (snd (snd (k_stack_push example_stack 5 (\<lambda>_. 0) pair_kernel)))) = Some (0, Some 5)"
  using k_stack_pop_push [OF pair_current(3) example_stack_inv, where data = 5 and m = "\<lambda>_. 0" and timeout = K_NO_WAIT]
  by (simp add: pair_current case_prod_unfold)

end
