(* ===== verification/Mem_Slab.thy ===== *)
theory Mem_Slab
  imports Waiters Memory
begin

text \<open>
  Memory slabs (\<^verbatim>\<open>kernel/mem_slab.c\<close>): a buffer cut into blocks of one size, whose free
  blocks are linked through their first word. The list is in the memory of the model, as
  in the source; address 0 is the null pointer.
\<close>

section \<open>Operations\<close>

record k_mem_slab =
  slab_wait_q :: waddr
  num_blocks :: u32
  block_size :: nat
  slab_buffer :: nat
  free_list :: nat
  num_used :: u32

fun create_free_list_loop :: "nat \<Rightarrow> nat \<Rightarrow> nat \<Rightarrow> nat \<Rightarrow> mem \<Rightarrow> nat \<times> mem" where
  "create_free_list_loop 0 sz p fl m = (fl, m)"
| "create_free_list_loop (Suc j) sz p fl m =
     create_free_list_loop j sz (p + sz) p (store32 p (word_of_nat fl) m)"

definition create_free_list :: "k_mem_slab \<Rightarrow> mem \<Rightarrow> k_mem_slab \<times> mem" where
  "create_free_list slab m =
     (let (fl, m') = create_free_list_loop (unat (num_blocks slab)) (block_size slab) (slab_buffer slab) 0 m
      in (slab\<lparr>free_list := fl\<rparr>, m'))"

definition k_mem_slab_init ::
  "k_mem_slab \<Rightarrow> nat \<Rightarrow> nat \<Rightarrow> u32 \<Rightarrow> mem \<Rightarrow> 'a kernel_scheme \<Rightarrow> k_mem_slab \<times> mem \<times> 'a kernel_scheme" where
  "k_mem_slab_init slab buffer sz n m k =
     (let slab1 = slab\<lparr>num_blocks := n, block_size := sz, slab_buffer := buffer, num_used := 0\<rparr>;
          (slab2, m') = create_free_list slab1 m
      in (slab2, m', k\<lparr>queues := (queues k)(WaitQ (slab_wait_q slab) := [])\<rparr>))"

text \<open>The result and what is stored through the pointer \<^verbatim>\<open>mem\<close>, if anything is.\<close>

definition k_mem_slab_alloc ::
  "k_mem_slab \<Rightarrow> int \<Rightarrow> mem \<Rightarrow> 'a kernel_scheme \<Rightarrow> (int \<times> nat option) option \<times> k_mem_slab \<times> 'a kernel_scheme" where
  "k_mem_slab_alloc slab timeout m k =
     (if free_list slab \<noteq> 0
      then (Some (0, Some (free_list slab)),
            slab\<lparr>free_list := unat (load32 m (free_list slab)), num_used := num_used slab + 1\<rparr>, k)
      else if timeout = K_NO_WAIT then (Some (- ENOMEM, Some 0), slab, k)
      else (None, slab, Swap (pend_current_thread (slab_wait_q slab) timeout k)))"

definition k_mem_slab_alloc_resume :: "'a kernel_scheme \<Rightarrow> int \<times> nat option" where
  "k_mem_slab_alloc_resume k =
     (let result = swap_retval (threads k (current k))
      in (result, if result = 0 then Some (swap_data (threads k (current k))) else None))"

definition k_mem_slab_free ::
  "k_mem_slab \<Rightarrow> nat \<Rightarrow> mem \<Rightarrow> 'a kernel_scheme \<Rightarrow> k_mem_slab \<times> mem \<times> 'a kernel_scheme" where
  "k_mem_slab_free slab b m k =
     (case unpend_first_thread (slab_wait_q slab) k of
        (Some t, k1) \<Rightarrow>
          let k2 = set_thread_return_value_with_data t 0 b k1;
              k3 = snd (abort_thread_timeout t k2);
              k4 = ready_thread t k3
          in (slab, m, if must_switch_threads k4 then Swap k4 else k4)
      | (None, k1) \<Rightarrow>
          (slab\<lparr>free_list := b, num_used := num_used slab - 1\<rparr>, store32 b (word_of_nat (free_list slab)) m, k1))"

definition k_mem_slab_num_used_get :: "k_mem_slab \<Rightarrow> u32" where
  "k_mem_slab_num_used_get slab = num_used slab"

definition k_mem_slab_num_free_get :: "k_mem_slab \<Rightarrow> u32" where
  "k_mem_slab_num_free_get slab = num_blocks slab - num_used slab"

section \<open>Specification\<close>

fun free_chain :: "mem \<Rightarrow> nat \<Rightarrow> nat list \<Rightarrow> bool" where
  "free_chain m p [] \<longleftrightarrow> p = 0"
| "free_chain m p (x # xs) \<longleftrightarrow> p = x \<and> x \<noteq> 0 \<and> free_chain m (unat (load32 m x)) xs"

definition slab_blocks :: "k_mem_slab \<Rightarrow> nat set" where
  "slab_blocks slab = (\<lambda>i. slab_buffer slab + i * block_size slab) ` {..<unat (num_blocks slab)}"

definition slab_geometry :: "k_mem_slab \<Rightarrow> bool" where
  "slab_geometry slab \<longleftrightarrow> 4 \<le> block_size slab \<and> 0 < slab_buffer slab \<and>
     slab_buffer slab + unat (num_blocks slab) * block_size slab \<le> 2 ^ 32"

text \<open>
  The blocks of the slab are the allocated ones, \<open>U\<close>, and those on the free list, each
  once; the counter counts the former. A thread waits only while no block is free.
\<close>

definition slab_inv :: "k_mem_slab \<Rightarrow> mem \<Rightarrow> 'a kernel_scheme \<Rightarrow> nat set \<Rightarrow> bool" where
  "slab_inv slab m k U \<longleftrightarrow> slab_geometry slab \<and> U \<subseteq> slab_blocks slab \<and> unat (num_used slab) = card U \<and>
     (\<exists>fs. free_chain m (free_list slab) fs \<and> distinct fs \<and> set fs = slab_blocks slab - U \<and>
        (queues k (WaitQ (slab_wait_q slab)) \<noteq> [] \<longrightarrow> fs = []))"

lemma free_chain_frame:
  "free_chain m p xs \<Longrightarrow> (\<And>x. x \<in> set xs \<Longrightarrow> load32 m' x = load32 m x) \<Longrightarrow> free_chain m' p xs"
  by (induction xs arbitrary: p) auto

lemma free_chain_0: "free_chain m 0 xs \<longleftrightarrow> xs = []"
  by (cases xs) auto

lemma blocks_apart:
  assumes g: "slab_geometry slab" and x: "x \<in> slab_blocks slab" and y: "y \<in> slab_blocks slab" and ne: "x \<noteq> y"
  shows "apart x (block_size slab) y (block_size slab)"
proof -
  from x y obtain i j where ij: "x = slab_buffer slab + i * block_size slab" "y = slab_buffer slab + j * block_size slab"
    by (auto simp: slab_blocks_def)
  with ne consider "i < j" | "j < i" by force
  then show ?thesis
  proof cases
    case 1
    then have "Suc i * block_size slab \<le> j * block_size slab" by (intro mult_le_mono1) simp
    then show ?thesis using ij by (simp add: apart_def)
  next
    case 2
    then have "Suc j * block_size slab \<le> i * block_size slab" by (intro mult_le_mono1) simp
    then show ?thesis using ij by (simp add: apart_def)
  qed
qed

lemma block_word_apart:
  assumes "slab_geometry slab" "x \<in> slab_blocks slab" "y \<in> slab_blocks slab" "x \<noteq> y"
  shows "apart x 4 y 4"
  using blocks_apart [OF assms] assms(1) by (auto simp: apart_def slab_geometry_def)

lemma block_bound:
  assumes g: "slab_geometry slab" and x: "x \<in> slab_blocks slab"
  shows "0 < x \<and> x < 2 ^ 32"
proof -
  from x obtain i where i: "x = slab_buffer slab + i * block_size slab" "i < unat (num_blocks slab)"
    by (auto simp: slab_blocks_def)
  then have "Suc i * block_size slab \<le> unat (num_blocks slab) * block_size slab" by (intro mult_le_mono1) simp
  with g i show ?thesis by (simp add: slab_geometry_def)
qed

lemma inj_blocks: "slab_geometry slab \<Longrightarrow> inj_on (\<lambda>i. slab_buffer slab + i * block_size slab) A"
  by (auto simp: inj_on_def slab_geometry_def)

lemma card_blocks: "slab_geometry slab \<Longrightarrow> card (slab_blocks slab) = unat (num_blocks slab)"
  unfolding slab_blocks_def by (subst card_image) (simp_all add: inj_blocks)

lemma finite_blocks [simp]: "finite (slab_blocks slab)"
  by (simp add: slab_blocks_def)

lemma unat_of_addr: "a < 2 ^ 32 \<Longrightarrow> unat (word_of_nat a :: u32) = a"
  by (simp add: unsigned_of_nat take_bit_nat_eq_self)

section \<open>Initialisation\<close>

lemma create_free_list_loop_spec:
  assumes "free_chain m fl fs" "fl < 2 ^ 32" "\<forall>x \<in> set fs. apart x 4 p (n * sz)" "4 \<le> sz" "0 < p" "p + n * sz \<le> 2 ^ 32"
  shows "case create_free_list_loop n sz p fl m of
    (fl', m') \<Rightarrow> free_chain m' fl' (rev (map (\<lambda>i. p + i * sz) [0..<n]) @ fs)"
  using assms
proof (induction n arbitrary: p fl fs m)
  case (Suc n)
  let ?m = "store32 p (word_of_nat fl) m"
  have "load32 ?m x = load32 m x" if "x \<in> set fs" for x
  proof (rule load_store32_apart)
    have "4 \<le> Suc n * sz" using Suc.prems(4) by simp
    with bspec [OF Suc.prems(3) that] show "apart p 4 x 4" unfolding apart_def by linarith
  qed
  then have "free_chain ?m fl fs" by (rule free_chain_frame [OF Suc.prems(1)])
  then have c: "free_chain ?m p (p # fs)" using Suc.prems(2,5) by (simp add: unat_of_addr)
  have b: "p < 2 ^ 32" "\<forall>x \<in> set (p # fs). apart x 4 (p + sz) (n * sz)" "0 < p + sz" "p + sz + n * sz \<le> 2 ^ 32"
    using Suc.prems by (auto simp: apart_def)
  have e: "rev (map (\<lambda>i. p + i * sz) [0..<Suc n]) @ fs = rev (map (\<lambda>i. p + sz + i * sz) [0..<n]) @ p # fs"
    by (simp add: upt_conv_Cons map_Suc_upt [symmetric] comp_def del: upt_Suc)
  show ?case unfolding e using Suc.IH [OF c b(1,2) Suc.prems(4) b(3,4)] by simp
qed simp

lemma k_mem_slab_init_inv:
  assumes "4 \<le> sz" and "0 < buffer" and "buffer + unat n * sz \<le> 2 ^ 32"
  shows "case k_mem_slab_init slab buffer sz n m k of (slab', m', k') \<Rightarrow>
    slab_inv slab' m' k' {} \<and> k_mem_slab_num_free_get slab' = n"
proof -
  let ?s = "slab\<lparr>num_blocks := n, block_size := sz, slab_buffer := buffer, num_used := 0\<rparr>"
  let ?bs = "rev (map (\<lambda>i. buffer + i * sz) [0..<unat n])"
  obtain fl m' where r: "create_free_list_loop (unat n) sz buffer 0 m = (fl, m')" by force
  have c: "free_chain m' fl ?bs"
    using create_free_list_loop_spec [of m 0 "[]" buffer "unat n" sz] assms r by simp
  have g: "slab_geometry ?s" using assms by (simp add: slab_geometry_def)
  have d: "distinct ?bs" using inj_blocks [OF g] by (simp add: distinct_map)
  have "set ?bs = slab_blocks (?s\<lparr>free_list := fl\<rparr>)" by (auto simp: slab_blocks_def)
  with c d g r show ?thesis
    by (auto simp: k_mem_slab_init_def create_free_list_def slab_inv_def slab_geometry_def
        k_mem_slab_num_free_get_def Let_def)
qed

section \<open>Allocating and freeing\<close>

lemma k_mem_slab_alloc_inv:
  assumes s: "sched_ok k" and c: "current k \<noteq> idle_thread k" and v: "slab_inv slab m k U"
  shows "case k_mem_slab_alloc slab timeout m k of (r, slab', k') \<Rightarrow>
    if U \<noteq> slab_blocks slab
    then (\<exists>b. r = Some (0, Some b) \<and> b \<in> slab_blocks slab - U \<and> slab_inv slab' m k' (insert b U) \<and> k' = k)
    else slab_inv slab' m k' U \<and> sched_ok k' \<and>
      (if timeout = K_NO_WAIT then r = Some (- ENOMEM, Some 0) \<and> k' = k
       else r = None \<and> is_thread_pending k' (current k) \<and> swap_retval (threads k' (current k)) = - EAGAIN)"
proof -
  from v obtain fs where fs: "free_chain m (free_list slab) fs" "distinct fs" "set fs = slab_blocks slab - U"
    "queues k (WaitQ (slab_wait_q slab)) \<noteq> [] \<longrightarrow> fs = []" and g: "slab_geometry slab" and U: "U \<subseteq> slab_blocks slab"
    and n: "unat (num_used slab) = card U" by (auto simp: slab_inv_def)
  have fin: "finite U" using U by (rule finite_subset) simp
  show ?thesis
  proof (cases fs)
    case Nil
    then have f: "free_list slab = 0" "U = slab_blocks slab" using fs U by auto
    let ?k = "Swap (pend_current_thread (slab_wait_q slab) timeout k)"
    have "slab_inv slab m k U" "slab_inv slab m ?k U"
      using fs(1) Nil f g n by (auto simp: slab_inv_def)
    moreover note block_current [OF sched_okD(1,2,4) [OF s] c, of "slab_wait_q slab" timeout]
    ultimately show ?thesis using f s by (simp add: k_mem_slab_alloc_def)
  next
    case (Cons b bs)
    then have b: "free_list slab = b" "b \<noteq> 0" "free_chain m (unat (load32 m b)) bs" "b \<in> slab_blocks slab - U"
      "distinct bs" "b \<notin> set bs" "set bs = slab_blocks slab - insert b U" using fs by auto
    have "card U < 2 ^ 32 - 1"
    proof -
      have "card (insert b U) \<le> card (slab_blocks slab)" using b U by (intro card_mono) auto
      moreover have "card (slab_blocks slab) < 2 ^ 32" using unat_bound [of "num_blocks slab"] card_blocks [OF g] by simp
      ultimately show ?thesis using b(4) fin by simp
    qed
    then have "num_used slab \<noteq> - 1" using n by (auto simp: unat_minus_1)
    then have "unat (num_used slab + 1) = card (insert b U)" using unat_Suc_not_max [of "num_used slab"] n b(4) fin by simp
    then have "slab_inv (slab\<lparr>free_list := unat (load32 m b), num_used := num_used slab + 1\<rparr>) m k (insert b U)"
      using b g U fs(4) Cons by (auto simp: slab_inv_def slab_geometry_def slab_blocks_def)
    moreover have "U \<noteq> slab_blocks slab" using b(4) by auto
    ultimately show ?thesis using b by (simp add: k_mem_slab_alloc_def)
  qed
qed

text \<open>
  Freeing an allocated block: with no waiter it is free again and the first to be
  allocated next; otherwise the first waiter gets it, its pending \<^verbatim>\<open>k_mem_slab_alloc\<close>
  returning 0 and the block, which stays allocated.
\<close>

theorem k_mem_slab_free_returns:
  assumes s: "sched_ok k" and h: "\<not> handling_timeouts k" and i: "\<not> is_in_isr k"
    and v: "slab_inv slab m k U" and b: "b \<in> U"
  shows "case k_mem_slab_free slab b m k of (slab', m', k') \<Rightarrow>
    case queues k (WaitQ (slab_wait_q slab)) of
      [] \<Rightarrow> k' = k \<and> slab_inv slab' m' k' (U - {b}) \<and>
        fst (k_mem_slab_alloc slab' K_NO_WAIT m' k') = Some (0, Some b)
    | t # ts \<Rightarrow> slab' = slab \<and> m' = m \<and> served t 0 k k' \<and> swap_data (threads k' t) = b \<and> slab_inv slab' m' k' U"
proof (cases "queues k (WaitQ (slab_wait_q slab))")
  case Nil
  from v obtain fs where fs: "free_chain m (free_list slab) fs" "distinct fs" "set fs = slab_blocks slab - U"
    and g: "slab_geometry slab" and U: "U \<subseteq> slab_blocks slab" and n: "unat (num_used slab) = card U"
    by (auto simp: slab_inv_def)
  let ?m = "store32 b (word_of_nat (free_list slab)) m"
  have fin: "finite U" using U by (rule finite_subset) simp
  have bb: "0 < b" "b < 2 ^ 32" using block_bound [OF g, of b] b U by auto
  have "free_chain ?m (free_list slab) fs"
    using fs b U by (intro free_chain_frame [OF fs(1)] load_store32_apart block_word_apart [OF g]) auto
  moreover have "free_list slab < 2 ^ 32"
    using fs(1,3) block_bound [OF g, of "free_list slab"] by (cases fs) auto
  ultimately have c: "free_chain ?m b (b # fs)" using bb by (simp add: unat_of_addr)
  have "0 < num_used slab" using n b fin by (auto simp: word_gt_0 card_gt_0_iff)
  then have "unat (num_used slab - 1) = card (U - {b})" using n b fin by (simp add: unat_pred_exact)
  moreover have "distinct (b # fs)" "set (b # fs) = slab_blocks slab - (U - {b})" using fs b U by auto
  ultimately have "slab_inv (slab\<lparr>free_list := b, num_used := num_used slab - 1\<rparr>) ?m k (U - {b})"
    using c g U Nil unfolding slab_inv_def
    by (intro conjI exI [of _ "b # fs"]) (auto simp: slab_geometry_def slab_blocks_def)
  then show ?thesis
    using Nil bb by (simp add: k_mem_slab_free_def unpend_first_head [OF h] k_mem_slab_alloc_def)
next
  case (Cons t ts)
  let ?k2 = "set_thread_return_value_with_data t 0 b (woken t (unpend_thread t k))"
  have u: "unpend_first_thread (slab_wait_q slab) k = (Some t, unpend_thread t k)"
    by (simp add: unpend_first_head [OF h] Cons)
  note d = serve_data [OF s i u, of 0 b]
  have "k_mem_slab_free slab b m k = (slab, m, if must_switch_threads ?k2 then Swap ?k2 else ?k2)"
    by (simp add: k_mem_slab_free_def u Let_def woken_def [symmetric] woken_retval_data)
  moreover have "slab_inv slab m (if must_switch_threads ?k2 then Swap ?k2 else ?k2) U"
    using v Cons by (auto simp: slab_inv_def)
  ultimately show ?thesis using d Cons by simp
qed

section \<open>Properties\<close>

definition example_slab :: k_mem_slab where
  "example_slab = \<lparr>slab_wait_q = 7, num_blocks = 0, block_size = 0, slab_buffer = 0, free_list = 0, num_used = 0\<rparr>"

definition slab_state :: "k_mem_slab \<times> mem \<times> kernel" where
  "slab_state = k_mem_slab_init example_slab 64 8 2 (\<lambda>_. 0) pair_kernel"

text \<open>
  Initialising a slab on a buffer within the address space leaves every block free:
  the free list holds each of them once and none is allocated.
\<close>

theorem k_mem_slab_init_all_free:
  assumes "4 \<le> sz" and "0 < buffer" and "buffer + unat n * sz \<le> 2 ^ 32"
  shows "case k_mem_slab_init slab buffer sz n m k of (slab', m', k') \<Rightarrow>
    slab_inv slab' m' k' {} \<and> k_mem_slab_num_free_get slab' = n"
  by (rule k_mem_slab_init_inv [OF assms])

theorem k_mem_slab_init_all_free_witness:
  "k_mem_slab_num_free_get (fst slab_state) = 2"
  using k_mem_slab_init_all_free [of 8 64 2 example_slab "\<lambda>_. 0" pair_kernel]
  by (simp add: slab_state_def case_prod_unfold)

lemma slab_state_inv: "slab_inv (fst slab_state) (fst (snd slab_state)) pair_kernel {}"
proof -
  have "slab_inv (fst slab_state) (fst (snd slab_state)) (snd (snd slab_state)) {}"
    using k_mem_slab_init_inv [of 8 64 2 example_slab "\<lambda>_. 0" pair_kernel]
    by (simp add: slab_state_def case_prod_unfold)
  then show ?thesis by (auto simp: slab_inv_def pair_current)
qed

lemma slab_state_blocks: "slab_blocks (fst slab_state) = {64, 72}"
proof -
  have "num_blocks (fst slab_state) = 2" "slab_buffer (fst slab_state) = 64" "block_size (fst slab_state) = 8"
    by code_simp+
  then show ?thesis by (auto simp: slab_blocks_def lessThan_nat_numeral lessThan_Suc)
qed

text \<open>
  C24. Allocating: while a block is free the call returns 0 and a block of the slab that was
  not allocated, which is allocated from then on; otherwise it returns \<^verbatim>\<open>-ENOMEM\<close> and a
  null pointer when it may not wait, and waits when it may.
\<close>

theorem k_mem_slab_alloc_fresh:
  assumes s: "sched_ok k" and c: "current k \<noteq> idle_thread k" and v: "slab_inv slab m k U"
  shows "case k_mem_slab_alloc slab timeout m k of (r, slab', k') \<Rightarrow>
    if U \<noteq> slab_blocks slab
    then (\<exists>b. r = Some (0, Some b) \<and> b \<in> slab_blocks slab - U \<and> slab_inv slab' m k' (insert b U) \<and> k' = k)
    else slab_inv slab' m k' U \<and> sched_ok k' \<and>
      (if timeout = K_NO_WAIT then r = Some (- ENOMEM, Some 0) \<and> k' = k
       else r = None \<and> is_thread_pending k' (current k) \<and> swap_retval (threads k' (current k)) = - EAGAIN)"
  by (rule k_mem_slab_alloc_inv [OF assms])

theorem k_mem_slab_alloc_fresh_witness:
  "\<exists>b. fst (k_mem_slab_alloc (fst slab_state) K_NO_WAIT (fst (snd slab_state)) pair_kernel) = Some (0, Some b) \<and>
     b \<in> {64, 72}"
  using k_mem_slab_alloc_fresh [OF pair_sched_ok _ slab_state_inv, of K_NO_WAIT]
  by (auto simp: pair_current slab_state_blocks case_prod_unfold)

definition slab_taken :: k_mem_slab where
  "slab_taken = fst (snd (k_mem_slab_alloc (fst slab_state) K_NO_WAIT (fst (snd slab_state)) pair_kernel))"

lemma slab_taken_inv: "slab_inv slab_taken (fst (snd slab_state)) pair_kernel {72}"
proof -
  have "fst (k_mem_slab_alloc (fst slab_state) K_NO_WAIT (fst (snd slab_state)) pair_kernel) = Some (0, Some 72)"
    by code_simp
  then show ?thesis
    using k_mem_slab_alloc_inv [OF pair_sched_ok _ slab_state_inv, of K_NO_WAIT]
    by (auto simp: pair_current slab_state_blocks case_prod_unfold slab_taken_def)
qed

theorem k_mem_slab_free_returns_witness:
  "slab_inv (fst (k_mem_slab_free slab_taken 72 (fst (snd slab_state)) pair_kernel))
     (fst (snd (k_mem_slab_free slab_taken 72 (fst (snd slab_state)) pair_kernel))) pair_kernel {}"
  using k_mem_slab_free_returns [OF pair_sched_ok _ _ slab_taken_inv, of 72]
  by (auto simp: pair_current is_in_isr_def case_prod_unfold)

end
