(* ===== verification/Msgq.thy ===== *)
theory Msgq
  imports Waiters Libc_String
begin

text \<open>
  Message queues (\<^verbatim>\<open>kernel/msg_q.c\<close>): fixed-size messages in a ring buffer in memory. The
  one wait queue holds readers while the buffer is empty and writers while it is full; a
  waiting thread leaves the address of its message, or of the place for one, in its
  \<^verbatim>\<open>swap_data\<close>. The specification is the list of the messages, oldest first.
\<close>

section \<open>Operations\<close>

record k_msgq =
  msgq_wait_q :: waddr
  msg_size :: u32
  max_msgs :: u32
  buffer_start :: nat
  buffer_end :: nat
  read_ptr :: nat
  write_ptr :: nat
  used_msgs :: u32

definition k_msgq_init :: "k_msgq \<Rightarrow> nat \<Rightarrow> u32 \<Rightarrow> u32 \<Rightarrow> 'a kernel_scheme \<Rightarrow> k_msgq \<times> 'a kernel_scheme" where
  "k_msgq_init q buffer sz n k =
     (q\<lparr>msg_size := sz, max_msgs := n, buffer_start := buffer, buffer_end := buffer + unat (n * sz),
        read_ptr := buffer, write_ptr := buffer, used_msgs := 0\<rparr>,
      k\<lparr>queues := (queues k)(WaitQ (msgq_wait_q q) := [])\<rparr>)"

text \<open>Moving a pointer to the next slot, and storing or taking one message.\<close>

definition next_slot :: "k_msgq \<Rightarrow> nat \<Rightarrow> nat" where
  "next_slot q p =
     (let p' = p + unat (msg_size q) in if p' = buffer_end q then buffer_start q else p')"

definition msgq_store :: "k_msgq \<Rightarrow> nat \<Rightarrow> mem \<Rightarrow> k_msgq \<times> mem" where
  "msgq_store q data m =
     (let m' = snd (memcpy (write_ptr q) data (unat (msg_size q)) m)
      in (q\<lparr>write_ptr := next_slot q (write_ptr q), used_msgs := used_msgs q + 1\<rparr>, m'))"

definition msgq_fetch :: "k_msgq \<Rightarrow> nat \<Rightarrow> mem \<Rightarrow> k_msgq \<times> mem" where
  "msgq_fetch q data m =
     (let m' = snd (memcpy data (read_ptr q) (unat (msg_size q)) m)
      in (q\<lparr>read_ptr := next_slot q (read_ptr q), used_msgs := used_msgs q - 1\<rparr>, m'))"

definition k_msgq_put ::
  "k_msgq \<Rightarrow> nat \<Rightarrow> int \<Rightarrow> mem \<Rightarrow> 'a kernel_scheme \<Rightarrow> int option \<times> k_msgq \<times> mem \<times> 'a kernel_scheme" where
  "k_msgq_put q data timeout m k =
     (if used_msgs q < max_msgs q
      then (case unpend_first_thread (msgq_wait_q q) k of
              (Some t, k1) \<Rightarrow>
                let m' = snd (memcpy (swap_data (threads k1 t)) data (unat (msg_size q)) m);
                    k2 = set_thread_return_value t 0 k1;
                    k3 = snd (abort_thread_timeout t k2);
                    k4 = ready_thread t k3
                in (Some 0, q, m', if \<not> is_in_isr k4 \<and> must_switch_threads k4 then Swap k4 else k4)
            | (None, k1) \<Rightarrow> (let (q', m') = msgq_store q data m in (Some 0, q', m', k1)))
      else if timeout = K_NO_WAIT then (Some (- ENOMSG), q, m, k)
      else (None, q, m, Swap (set_swap_data (current k) data (pend_current_thread (msgq_wait_q q) timeout k))))"

definition k_msgq_get ::
  "k_msgq \<Rightarrow> nat \<Rightarrow> int \<Rightarrow> mem \<Rightarrow> 'a kernel_scheme \<Rightarrow> int option \<times> k_msgq \<times> mem \<times> 'a kernel_scheme" where
  "k_msgq_get q data timeout m k =
     (if used_msgs q > 0
      then (let (q1, m1) = msgq_fetch q data m
            in case unpend_first_thread (msgq_wait_q q1) k of
                 (Some t, k1) \<Rightarrow>
                   let (q2, m2) = msgq_store q1 (swap_data (threads k1 t)) m1;
                       k2 = set_thread_return_value t 0 k1;
                       k3 = snd (abort_thread_timeout t k2);
                       k4 = ready_thread t k3
                   in (Some 0, q2, m2, if \<not> is_in_isr k4 \<and> must_switch_threads k4 then Swap k4 else k4)
               | (None, k1) \<Rightarrow> (Some 0, q1, m1, k1))
      else if timeout = K_NO_WAIT then (Some (- ENOMSG), q, m, k)
      else (None, q, m, Swap (set_swap_data (current k) data (pend_current_thread (msgq_wait_q q) timeout k))))"

function purge_waiters :: "waddr \<Rightarrow> 'a kernel_scheme \<Rightarrow> 'a kernel_scheme" where
  "purge_waiters w k =
     (case unpend_first_thread w k of
        (Some t, k1) \<Rightarrow>
          let k2 = set_thread_return_value t (- ENOMSG) k1;
              k3 = snd (abort_thread_timeout t k2);
              k4 = ready_thread t k3
          in purge_waiters w k4
      | (None, k1) \<Rightarrow> k1)"
  by pat_completeness auto

termination purge_waiters
proof (relation "measure (\<lambda>(w, k). length (queues k (WaitQ w)))", goal_cases)
  case (2 w k x y t k2 k3 k4)
  then show ?case
    using unpend_first_length [of w k t y]
    by (simp add: ready_thread_frame abort_thread_timeout_def abort_timeout_frame)
qed simp

declare purge_waiters.simps [simp del]

definition k_msgq_purge :: "k_msgq \<Rightarrow> 'a kernel_scheme \<Rightarrow> k_msgq \<times> 'a kernel_scheme" where
  "k_msgq_purge q k =
     (let k1 = purge_waiters (msgq_wait_q q) k
      in (q\<lparr>used_msgs := 0, read_ptr := write_ptr q\<rparr>, reschedule_threads k1))"

definition k_msgq_num_free_get :: "k_msgq \<Rightarrow> u32" where
  "k_msgq_num_free_get q = max_msgs q - used_msgs q"

definition k_msgq_num_used_get :: "k_msgq \<Rightarrow> u32" where
  "k_msgq_num_used_get q = used_msgs q"

section \<open>Specification\<close>

abbreviation msz :: "k_msgq \<Rightarrow> nat" where
  "msz q \<equiv> unat (msg_size q)"

abbreviation cap :: "k_msgq \<Rightarrow> nat" where
  "cap q \<equiv> unat (max_msgs q)"

definition slot_addr :: "k_msgq \<Rightarrow> nat \<Rightarrow> nat" where
  "slot_addr q i = buffer_start q + (i mod cap q) * msz q"

definition read_index :: "k_msgq \<Rightarrow> nat" where
  "read_index q = (read_ptr q - buffer_start q) div msz q"

definition msgq_list :: "k_msgq \<Rightarrow> mem \<Rightarrow> u8 list list" where
  "msgq_list q m = map (\<lambda>i. region m (slot_addr q (read_index q + i)) (msz q)) [0..<unat (used_msgs q)]"

definition msgq_ring :: "k_msgq \<Rightarrow> bool" where
  "msgq_ring q \<longleftrightarrow> 0 < msz q \<and> 0 < cap q \<and> buffer_end q = buffer_start q + cap q * msz q \<and>
     used_msgs q \<le> max_msgs q \<and> read_index q < cap q \<and> read_ptr q = slot_addr q (read_index q) \<and>
     write_ptr q = slot_addr q (read_index q + unat (used_msgs q))"

text \<open>A thread waits only while the queue is empty or full.\<close>

definition msgq_inv :: "k_msgq \<Rightarrow> 'a kernel_scheme \<Rightarrow> bool" where
  "msgq_inv q k \<longleftrightarrow> msgq_ring q \<and>
     (queues k (WaitQ (msgq_wait_q q)) \<noteq> [] \<longrightarrow> used_msgs q = 0 \<or> used_msgs q = max_msgs q)"

text \<open>The areas of memory a call copies between: apart from the buffer and from each other.\<close>

definition msgq_areas :: "k_msgq \<Rightarrow> nat \<Rightarrow> 'a kernel_scheme \<Rightarrow> bool" where
  "msgq_areas q data k \<longleftrightarrow>
     apart data (msz q) (buffer_start q) (cap q * msz q) \<and>
     (\<forall>t \<in> set (queues k (WaitQ (msgq_wait_q q))).
        apart (swap_data (threads k t)) (msz q) (buffer_start q) (cap q * msz q) \<and>
        apart (swap_data (threads k t)) (msz q) data (msz q))"

section \<open>The ring\<close>

lemma slot_addr_upd [simp]:
  "slot_addr (q\<lparr>write_ptr := x\<rparr>) i = slot_addr q i" "slot_addr (q\<lparr>read_ptr := x\<rparr>) i = slot_addr q i"
  "slot_addr (q\<lparr>used_msgs := n\<rparr>) i = slot_addr q i"
  by (simp_all add: slot_addr_def)

lemma read_index_upd [simp]:
  "read_index (q\<lparr>write_ptr := x\<rparr>) = read_index q" "read_index (q\<lparr>used_msgs := n\<rparr>) = read_index q"
  "read_index (q\<lparr>read_ptr := x\<rparr>) = (x - buffer_start q) div msz q"
  by (simp_all add: read_index_def)

lemma slot_neq:
  assumes "0 < cap q" "0 < msz q" "i < j" "j < i + cap q"
  shows "i mod cap q \<noteq> j mod cap q"
proof
  assume "i mod cap q = j mod cap q"
  then have "cap q dvd j - i" using assms(3) mod_eq_dvd_iff_nat [of i j "cap q"] by simp
  with assms show False using dvd_imp_le [of "cap q" "j - i"] by simp
qed

lemma slot_bounds:
  assumes "0 < cap q"
  shows "buffer_start q \<le> slot_addr q i" "slot_addr q i + msz q \<le> buffer_start q + cap q * msz q"
proof -
  have "Suc (i mod cap q) * msz q \<le> cap q * msz q" using assms by (intro mult_le_mono1) (simp add: Suc_leI)
  then show "slot_addr q i + msz q \<le> buffer_start q + cap q * msz q" by (simp add: slot_addr_def)
qed (simp add: slot_addr_def)

lemma slots_apart:
  assumes "i mod cap q \<noteq> j mod cap q"
  shows "apart (slot_addr q i) (msz q) (slot_addr q j) (msz q)"
proof (cases "i mod cap q < j mod cap q")
  case True
  then have "Suc (i mod cap q) * msz q \<le> (j mod cap q) * msz q" by (intro mult_le_mono1) simp
  then show ?thesis by (simp add: apart_def slot_addr_def)
next
  case False
  with assms have "Suc (j mod cap q) * msz q \<le> (i mod cap q) * msz q" by (intro mult_le_mono1) simp
  then show ?thesis by (simp add: apart_def slot_addr_def)
qed

lemma buffer_slot_apart:
  assumes "0 < cap q" "apart a n (buffer_start q) (cap q * msz q)"
  shows "apart a n (slot_addr q i) (msz q)" "apart (slot_addr q i) (msz q) a n"
  using assms slot_bounds [OF assms(1), of i] by (auto simp: apart_def)

lemma next_slot_addr:
  assumes "msgq_ring q"
  shows "next_slot q (slot_addr q i) = slot_addr q (Suc i)"
proof -
  have c: "0 < cap q" "0 < msz q" "buffer_end q = buffer_start q + cap q * msz q"
    using assms by (simp_all add: msgq_ring_def)
  have e: "slot_addr q i + msz q = buffer_start q + Suc (i mod cap q) * msz q" by (simp add: slot_addr_def)
  show ?thesis
  proof (cases "Suc (i mod cap q) = cap q")
    case True
    then have "Suc i mod cap q = 0" by (metis mod_Suc)
    with True e c show ?thesis by (simp add: next_slot_def slot_addr_def)
  next
    case False
    then have "Suc i mod cap q = Suc (i mod cap q)" by (metis mod_Suc)
    moreover have "slot_addr q i + msz q \<noteq> buffer_end q" using False c(2) unfolding e c(3) by (simp del: mult_Suc)
    ultimately show ?thesis by (simp add: next_slot_def slot_addr_def)
  qed
qed

lemma slot_index: "msgq_ring q \<Longrightarrow> (slot_addr q i - buffer_start q) div msz q = i mod cap q"
  by (simp add: msgq_ring_def slot_addr_def)

lemma unat_used: "msgq_ring q \<Longrightarrow> unat (used_msgs q) \<le> cap q"
  by (simp add: msgq_ring_def word_le_nat_alt)

text \<open>A message stored in a queue that is not full is the last one; a message fetched was the first.\<close>

lemma msgq_store_spec:
  assumes r: "msgq_ring q" and f: "used_msgs q < max_msgs q"
    and a: "apart data (msz q) (buffer_start q) (cap q * msz q)"
  shows "case msgq_store q data m of (q', m') \<Rightarrow>
    msgq_ring q' \<and> msgq_list q' m' = msgq_list q m @ [region m data (msz q)] \<and>
    used_msgs q' = used_msgs q + 1 \<and> max_msgs q' = max_msgs q \<and> msg_size q' = msg_size q \<and>
    buffer_start q' = buffer_start q \<and> msgq_wait_q q' = msgq_wait_q q \<and>
    (\<forall>b n. apart b n (buffer_start q) (cap q * msz q) \<longrightarrow> region m' b n = region m b n)"
proof -
  let ?w = "slot_addr q (read_index q + unat (used_msgs q))"
  let ?q = "q\<lparr>write_ptr := next_slot q ?w, used_msgs := used_msgs q + 1\<rparr>"
  let ?m = "copy_bytes ?w data (msz q) m"
  have c: "0 < cap q" "0 < msz q" and w: "write_ptr q = ?w" using r by (simp_all add: msgq_ring_def)
  have u: "unat (used_msgs q + 1) = unat (used_msgs q) + 1" "unat (used_msgs q) < cap q"
    using f unat_Suc_exact [of "used_msgs q" "max_msgs q"] by (simp_all add: word_less_nat_alt)
  have s: "msgq_store q data m = (?q, ?m)"
    using buffer_slot_apart(2) [OF c(1) a] by (simp add: msgq_store_def w memcpy_copy)
  have old: "region ?m (slot_addr q (read_index q + i)) (msz q) = region m (slot_addr q (read_index q + i)) (msz q)"
    if "i < unat (used_msgs q)" for i
    using that u(2) c slot_neq [of q "read_index q + i" "read_index q + unat (used_msgs q)"]
    by (intro region_copy_apart slots_apart) auto
  have "msgq_list ?q ?m = msgq_list q m @ [region m data (msz q)]"
    by (simp add: msgq_list_def u(1) old)
  moreover have "msgq_ring ?q"
    using r u f by (simp add: msgq_ring_def next_slot_addr [OF r] word_le_nat_alt)
  moreover have "region ?m b n = region m b n" if "apart b n (buffer_start q) (cap q * msz q)" for b n
    using buffer_slot_apart(2) [OF c(1) that] by (rule region_copy_apart)
  ultimately show ?thesis by (simp add: s)
qed

lemma msgq_fetch_spec:
  assumes r: "msgq_ring q" and f: "used_msgs q > 0"
    and a: "apart data (msz q) (buffer_start q) (cap q * msz q)"
  shows "case msgq_fetch q data m of (q', m') \<Rightarrow>
    msgq_ring q' \<and> msgq_list q m = region m' data (msz q) # msgq_list q' m' \<and>
    used_msgs q' = used_msgs q - 1 \<and> max_msgs q' = max_msgs q \<and> msg_size q' = msg_size q \<and>
    buffer_start q' = buffer_start q \<and> msgq_wait_q q' = msgq_wait_q q \<and>
    (\<forall>b n. apart data (msz q) b n \<longrightarrow> region m' b n = region m b n)"
proof -
  let ?r = "slot_addr q (read_index q)"
  let ?q = "q\<lparr>read_ptr := next_slot q ?r, used_msgs := used_msgs q - 1\<rparr>"
  let ?m = "copy_bytes data ?r (msz q) m"
  have c: "0 < cap q" "0 < msz q" and p: "read_ptr q = ?r" "read_index q < cap q"
    using r by (simp_all add: msgq_ring_def)
  have u: "unat (used_msgs q - 1) = unat (used_msgs q) - 1" "0 < unat (used_msgs q)"
    using unat_pred_exact [OF f] f by (simp_all add: word_less_nat_alt)
  have s: "msgq_fetch q data m = (?q, ?m)"
    using buffer_slot_apart(1) [OF c(1) a] by (simp add: msgq_fetch_def p(1) memcpy_copy)
  note idx = next_slot_addr [OF r, of "read_index q"] slot_index [OF r, of "Suc (read_index q)"]
  have shift: "slot_addr q (Suc (read_index q) mod cap q + i) = slot_addr q (read_index q + Suc i)" for i
    by (simp add: slot_addr_def mod_simps)
  have keep: "region ?m (slot_addr q i) (msz q) = region m (slot_addr q i) (msz q)" for i
    using buffer_slot_apart(1) [OF c(1) a] by (rule region_copy_apart)
  obtain n where n: "unat (used_msgs q) = Suc n" using u(2) gr0_conv_Suc by blast
  have "msgq_list q m = region ?m data (msz q) # msgq_list ?q ?m"
    using n by (simp add: msgq_list_def idx shift keep u(1) upt_conv_Cons map_Suc_upt [symmetric] comp_def del: upt_Suc)
  moreover have "msgq_ring ?q"
  proof -
    have "slot_addr q (read_index q + unat (used_msgs q)) = slot_addr q (Suc (read_index q) mod cap q + (unat (used_msgs q) - 1))"
      by (simp add: shift n)
    moreover have "used_msgs q - 1 \<le> max_msgs q" using unat_used [OF r] u(1) by (simp add: word_le_nat_alt)
    ultimately show ?thesis
      using r u(1) c mod_less_divisor [OF c(1), of "Suc (read_index q)"]
      by (simp add: msgq_ring_def idx) (simp add: slot_addr_def)
  qed
  moreover have "region ?m b n = region m b n" if "apart data (msz q) b n" for b n
    using that by (rule region_copy_apart)
  ultimately show ?thesis by (simp add: s)
qed

section \<open>Putting, getting and purging\<close>

lemma put_waiter:
  assumes s: "sched_ok k" and h: "\<not> handling_timeouts k" and i: "\<not> is_in_isr k"
    and q: "queues k (WaitQ (msgq_wait_q q)) = t # ts"
  obtains k' where "\<And>data timeout m. used_msgs q < max_msgs q \<Longrightarrow>
      k_msgq_put q data timeout m k = (Some 0, q, snd (memcpy (swap_data (threads k t)) data (msz q) m), k')"
    and "\<And>data timeout m. used_msgs q > 0 \<Longrightarrow> k_msgq_get q data timeout m k =
      (case msgq_fetch q data m of (q1, m1) \<Rightarrow>
        case msgq_store q1 (swap_data (threads k t)) m1 of (q2, m2) \<Rightarrow> (Some 0, q2, m2, k'))"
    and "served t 0 k k'"
proof -
  let ?k2 = "set_thread_return_value t 0 (woken t (unpend_thread t k))"
  have u: "unpend_first_thread (msgq_wait_q q) k = (Some t, unpend_thread t k)"
    by (simp add: unpend_first_head [OF h] q)
  have w: "msgq_wait_q (fst (msgq_fetch q data m)) = msgq_wait_q q" for data m
    by (simp add: msgq_fetch_def Let_def)
  note d = serve_retval [OF s i u, of 0]
  show ?thesis
  proof (rule that [of "if must_switch_threads ?k2 then Swap ?k2 else ?k2"])
    show "k_msgq_put q data timeout m k =
        (Some 0, q, snd (memcpy (swap_data (threads k t)) data (msz q) m), if must_switch_threads ?k2 then Swap ?k2 else ?k2)"
      if "used_msgs q < max_msgs q" for data timeout m
      using that d(3) by (simp add: k_msgq_put_def u Let_def woken_def [symmetric] woken_retval)
    show "k_msgq_get q data timeout m k =
      (case msgq_fetch q data m of (q1, m1) \<Rightarrow>
        case msgq_store q1 (swap_data (threads k t)) m1 of
          (q2, m2) \<Rightarrow> (Some 0, q2, m2, if must_switch_threads ?k2 then Swap ?k2 else ?k2))"
      if "used_msgs q > 0" for data timeout m
      using that d(3) w [of data m]
      by (simp add: k_msgq_get_def u Let_def woken_def [symmetric] woken_retval case_prod_unfold)
  qed (rule d(1))
qed

lemma msgq_full: "msgq_ring q \<Longrightarrow> \<not> used_msgs q < max_msgs q \<Longrightarrow> used_msgs q = max_msgs q"
  by (simp add: msgq_ring_def)

lemma purge_waiters_spec:
  assumes "kinv {} k" "settled k" "is_thread_ready k (current k)" "\<not> handling_timeouts k"
  shows "kinv {} (purge_waiters w k) \<and> settled (purge_waiters w k) \<and>
    is_thread_ready (purge_waiters w k) (current k) \<and> current (purge_waiters w k) = current k \<and>
    queues (purge_waiters w k) (WaitQ w) = [] \<and>
    (\<forall>t. swap_retval (threads (purge_waiters w k) t) =
       (if t \<in> set (queues k (WaitQ w)) then - ENOMSG else swap_retval (threads k t)))"
  using assms
proof (induction w k rule: purge_waiters.induct)
  case (1 w k)
  show ?case
  proof (cases "queues k (WaitQ w)")
    case Nil
    then have "purge_waiters w k = k"
      using unpend_first_head [OF "1.prems"(4), of w] by (subst purge_waiters.simps) simp
    with 1 Nil show ?thesis by simp
  next
    case (Cons t ts)
    let ?k1 = "unpend_thread t k" let ?k4 = "set_thread_return_value t (- ENOMSG) (woken t ?k1)"
    have u: "unpend_first_thread w k = (Some t, ?k1)" by (simp add: unpend_first_head [OF "1.prems"(4)] Cons)
    note a = wake_first [OF "1.prems"(1,2) u]
    have e: "purge_waiters w k = purge_waiters w ?k4"
      by (subst purge_waiters.simps) (simp add: u Let_def woken_def [symmetric] woken_retval)
    have ct: "current k \<noteq> t" using a(6) "1.prems"(3) by auto
    have td: "t \<notin> set ts" using kinv_wait_distinct [OF "1.prems"(1), of w] Cons by simp
    have "kinv {} ?k4" "settled ?k4" "is_thread_ready ?k4 (current ?k4)" "\<not> handling_timeouts ?k4"
      using a(1,2,8,9) "1.prems"(3,4) ct by (simp_all add: set_retval_kinv)
    note ih = "1.IH" [OF u [symmetric] refl refl refl refl, unfolded woken_def [symmetric] woken_retval, OF this]
    have q: "queues ?k4 (WaitQ w) = ts" by (simp add: Cons)
    have sr: "swap_retval (threads ?k4 v) = (if v = t then - ENOMSG else swap_retval (threads k v))" for v
      by (simp add: unpend_thread_def mark_thread_as_not_pending_def queue_remove_def reset_thread_states_def)
    show ?thesis using ih Cons td unfolding e q sr by auto
  qed
qed

section \<open>Properties\<close>

text \<open>
  C20. Putting a message: while the queue is not full the call returns 0, and the message is
  the last of the queue, or, when a reader waits, is copied to where the reader wants it,
  whose pending \<^verbatim>\<open>k_msgq_get\<close> then returns 0. On a full queue the call returns
  \<^verbatim>\<open>-ENOMSG\<close> when it may not wait; otherwise the caller waits with the address of its message.
\<close>

theorem k_msgq_put_refines:
  assumes s: "sched_ok k" and c: "current k \<noteq> idle_thread k" and h: "\<not> handling_timeouts k" and i: "\<not> is_in_isr k"
    and v: "msgq_inv q k" and a: "msgq_areas q data k"
  shows "case k_msgq_put q data timeout m k of (r, q', m', k') \<Rightarrow>
    msgq_inv q' k' \<and> sched_ok k' \<and>
    (if used_msgs q < max_msgs q
     then r = Some 0 \<and>
       (case queues k (WaitQ (msgq_wait_q q)) of
          [] \<Rightarrow> k' = k \<and> msgq_list q' m' = msgq_list q m @ [region m data (msz q)]
        | t # ts \<Rightarrow> q' = q \<and> served t 0 k k' \<and> msgq_list q' m' = [] \<and> msgq_list q m = [] \<and>
            region m' (swap_data (threads k t)) (msz q) = region m data (msz q))
     else q' = q \<and> m' = m \<and>
       (if timeout = K_NO_WAIT then r = Some (- ENOMSG) \<and> k' = k
        else r = None \<and> is_thread_pending k' (current k) \<and> swap_data (threads k' (current k)) = data))"
proof (cases "used_msgs q < max_msgs q")
  case True
  have r: "msgq_ring q" using v by (simp add: msgq_inv_def)
  show ?thesis
  proof (cases "queues k (WaitQ (msgq_wait_q q))")
    case Nil
    have "apart data (msz q) (buffer_start q) (cap q * msz q)" using a by (simp add: msgq_areas_def)
    from msgq_store_spec [OF r True this, of m] Nil True s show ?thesis
      by (simp add: k_msgq_put_def unpend_first_head [OF h] msgq_inv_def case_prod_unfold Let_def)
  next
    case (Cons t ts)
    obtain k' where put: "k_msgq_put q data timeout m k = (Some 0, q, snd (memcpy (swap_data (threads k t)) data (msz q) m), k')"
      and sv: "served t 0 k k'" using put_waiter [OF s h i Cons] True by metis
    have "used_msgs q = 0" using v True Cons by (auto simp: msgq_inv_def)
    moreover have "apart (swap_data (threads k t)) (msz q) data (msz q)" using a Cons by (simp add: msgq_areas_def)
    ultimately show ?thesis
      using True Cons sv r by (simp add: put memcpy_copy msgq_list_def msgq_inv_def served_def)
  qed
next
  case False
  have "used_msgs q = max_msgs q" using v False msgq_full by (auto simp: msgq_inv_def)
  with False v s block_current_data [OF sched_okD(1,2,4) [OF s] c, of data "msgq_wait_q q" timeout] show ?thesis
    by (simp add: k_msgq_put_def msgq_inv_def)
qed

text \<open>
  C7. Getting a message: while the queue is not empty the call returns 0 and the oldest
  message is copied to the caller's area; when a writer waits, the queue being full, its
  message becomes the last of the queue and its pending \<^verbatim>\<open>k_msgq_put\<close> returns 0. On an
  empty queue the call returns \<^verbatim>\<open>-ENOMSG\<close> when it may not wait and waits otherwise.
\<close>

theorem k_msgq_get_refines:
  assumes s: "sched_ok k" and c: "current k \<noteq> idle_thread k" and h: "\<not> handling_timeouts k" and i: "\<not> is_in_isr k"
    and v: "msgq_inv q k" and a: "msgq_areas q data k"
  shows "case k_msgq_get q data timeout m k of (r, q', m', k') \<Rightarrow>
    msgq_inv q' k' \<and> sched_ok k' \<and>
    (if used_msgs q > 0
     then r = Some 0 \<and> region m' data (msz q) = hd (msgq_list q m) \<and>
       (case queues k (WaitQ (msgq_wait_q q)) of
          [] \<Rightarrow> k' = k \<and> msgq_list q' m' = tl (msgq_list q m)
        | t # ts \<Rightarrow> served t 0 k k' \<and>
            msgq_list q' m' = tl (msgq_list q m) @ [region m (swap_data (threads k t)) (msz q)])
     else q' = q \<and> m' = m \<and>
       (if timeout = K_NO_WAIT then r = Some (- ENOMSG) \<and> k' = k
        else r = None \<and> is_thread_pending k' (current k) \<and> swap_data (threads k' (current k)) = data))"
proof (cases "used_msgs q > 0")
  case True
  have r: "msgq_ring q" using v by (simp add: msgq_inv_def)
  have ad: "apart data (msz q) (buffer_start q) (cap q * msz q)" using a by (simp add: msgq_areas_def)
  obtain q1 m1 where f: "msgq_fetch q data m = (q1, m1)" by force
  with msgq_fetch_spec [OF r True ad, of m] have
    f1: "msgq_ring q1" "msgq_list q m = region m1 data (msz q) # msgq_list q1 m1"
      "used_msgs q1 = used_msgs q - 1" "max_msgs q1 = max_msgs q" "msg_size q1 = msg_size q"
      "buffer_start q1 = buffer_start q" "msgq_wait_q q1 = msgq_wait_q q"
      "\<And>b n. apart data (msz q) b n \<Longrightarrow> region m1 b n = region m b n" by auto
  show ?thesis
  proof (cases "queues k (WaitQ (msgq_wait_q q))")
    case Nil
    with True f f1 s show ?thesis by (simp add: k_msgq_get_def unpend_first_head [OF h] msgq_inv_def)
  next
    case (Cons t ts)
    let ?d = "swap_data (threads k t)"
    have full: "used_msgs q = max_msgs q" using v True Cons by (auto simp: msgq_inv_def)
    have at: "apart ?d (msz q) (buffer_start q) (cap q * msz q)" "apart ?d (msz q) data (msz q)"
      using a Cons by (simp_all add: msgq_areas_def)
    have less: "used_msgs q1 < max_msgs q1"
      using True unat_pred_exact [OF True] unfolding f1(3,4) full [symmetric] by (simp add: word_less_nat_alt)
    obtain q2 m2 where st: "msgq_store q1 ?d m1 = (q2, m2)" by force
    have "apart ?d (msz q1) (buffer_start q1) (cap q1 * msz q1)" using at(1) by (simp add: f1)
    from msgq_store_spec [OF f1(1) less this, of m1] st have
      f2: "msgq_ring q2" "msgq_list q2 m2 = msgq_list q1 m1 @ [region m1 ?d (msz q)]"
        "used_msgs q2 = max_msgs q" "max_msgs q2 = max_msgs q" "msgq_wait_q q2 = msgq_wait_q q"
        "\<And>b n. apart b n (buffer_start q) (cap q * msz q) \<Longrightarrow> region m2 b n = region m1 b n"
      by (auto simp: f1 full)
    obtain k' where "k_msgq_get q data timeout m k = (Some 0, q2, m2, k')" and sv: "served t 0 k k'"
      using put_waiter [OF s h i Cons] True f st by (metis (no_types, lifting) case_prod_conv)
    moreover have "region m1 ?d (msz q) = region m ?d (msz q)" using at(2) by (intro f1(8)) (auto simp: apart_def)
    moreover have "region m2 data (msz q) = region m1 data (msz q)" by (rule f2(6) [OF ad])
    ultimately show ?thesis using True Cons f1 f2 sv by (simp add: msgq_inv_def served_def)
  qed
next
  case False
  then have "used_msgs q = 0" by (simp add: word_gt_0)
  with v s block_current_data [OF sched_okD(1,2,4) [OF s] c, of data "msgq_wait_q q" timeout] show ?thesis
    by (simp add: k_msgq_get_def msgq_inv_def)
qed

text \<open>
  Purging empties the queue: every waiting thread is taken off the wait queue and its
  pending call returns \<^verbatim>\<open>-ENOMSG\<close>, no message is left, and the thread that runs is one that may.
\<close>

theorem k_msgq_purge_empties:
  assumes s: "sched_ok k" and h: "\<not> handling_timeouts k" and v: "msgq_inv q k"
  shows "case k_msgq_purge q k of (q', k') \<Rightarrow>
    sched_ok k' \<and> msgq_inv q' k' \<and> msgq_list q' m = [] \<and> queues k' (WaitQ (msgq_wait_q q)) = [] \<and>
    (\<forall>t \<in> set (queues k (WaitQ (msgq_wait_q q))). swap_retval (threads k' t) = - ENOMSG)"
proof -
  let ?w = "msgq_wait_q q" let ?k1 = "purge_waiters ?w k"
  note k = sched_okD [OF s]
  note p = purge_waiters_spec [OF k(1,4,2) h, of ?w]
  have ok: "sched_ok (reschedule_threads ?k1)" using p by (intro reschedule_ok) simp_all
  have r: "msgq_ring q" using v by (simp add: msgq_inv_def)
  let ?i = "read_index q + unat (used_msgs q)"
  have "msgq_ring (q\<lparr>used_msgs := 0, read_ptr := write_ptr q\<rparr>)"
    using r slot_index [OF r, of ?i] mod_less_divisor [of "cap q" ?i]
    by (simp add: msgq_ring_def) (simp add: slot_addr_def)
  moreover have "swap_retval (threads (reschedule_threads ?k1) t) = - ENOMSG" if "t \<in> set (queues k (WaitQ ?w))" for t
  proof -
    have "t \<noteq> current k" using kinv_waiting [OF k(1) that] k(2) by (auto simp: is_thread_ready_iff)
    then show ?thesis using p that by (simp add: reschedule_threads_def)
  qed
  ultimately show ?thesis
    using ok p by (simp add: k_msgq_purge_def Let_def msgq_inv_def msgq_list_def)
qed

definition example_msgq :: k_msgq where
  "example_msgq = fst (k_msgq_init \<lparr>msgq_wait_q = 7, msg_size = 0, max_msgs = 0, buffer_start = 0, buffer_end = 0,
     read_ptr = 0, write_ptr = 0, used_msgs = 0\<rparr> 64 2 2 pair_kernel)"

lemma example_msgq_inv: "msgq_inv example_msgq pair_kernel"
  by (simp add: example_msgq_def k_msgq_init_def msgq_inv_def msgq_ring_def read_index_def slot_addr_def pair_current)

lemma example_msgq_areas: "msgq_areas example_msgq 8 pair_kernel"
  by (simp add: msgq_areas_def pair_current apart_def example_msgq_def k_msgq_init_def)

lemma example_msgq_fields: "used_msgs example_msgq = 0" "max_msgs example_msgq = 2" "msgq_wait_q example_msgq = 7"
  "msg_size example_msgq = 2" "buffer_start example_msgq = 64" "msgq_list example_msgq m = []"
  by (simp_all add: example_msgq_def k_msgq_init_def msgq_list_def)

lemma example_region: "region example_mem 8 2 = [97, 98]"
  by (simp add: region_def upt_rec example_mem_def)

theorem k_msgq_put_refines_witness:
  "case k_msgq_put example_msgq 8 K_NO_WAIT example_mem pair_kernel of
     (r, q', m', k') \<Rightarrow> r = Some 0 \<and> msgq_list q' m' = [[97, 98]]"
  using k_msgq_put_refines [OF pair_sched_ok _ _ _ example_msgq_inv example_msgq_areas,
      where timeout = K_NO_WAIT and m = example_mem]
  by (simp add: pair_current is_in_isr_def example_msgq_fields case_prod_unfold example_region)

definition filled_msgq :: "k_msgq \<times> mem" where
  "filled_msgq = msgq_store example_msgq 8 example_mem"

lemma filled_msgq_inv: "msgq_inv (fst filled_msgq) pair_kernel" "msgq_areas (fst filled_msgq) 16 pair_kernel"
  "used_msgs (fst filled_msgq) = 1" "msgq_list (fst filled_msgq) (snd filled_msgq) = [[97, 98]]" "msg_size (fst filled_msgq) = 2"
proof -
  have r: "msgq_ring example_msgq" using example_msgq_inv by (simp add: msgq_inv_def)
  have a: "apart 8 (msz example_msgq) (buffer_start example_msgq) (cap example_msgq * msz example_msgq)"
    using example_msgq_areas by (simp add: msgq_areas_def)
  have l: "used_msgs example_msgq < max_msgs example_msgq" by (simp add: example_msgq_fields)
  obtain q' m' where f: "msgq_store example_msgq 8 example_mem = (q', m')" by force
  with msgq_store_spec [OF r l a, of example_mem]
  show "msgq_inv (fst filled_msgq) pair_kernel" "used_msgs (fst filled_msgq) = 1" "msg_size (fst filled_msgq) = 2"
    "msgq_areas (fst filled_msgq) 16 pair_kernel" "msgq_list (fst filled_msgq) (snd filled_msgq) = [[97, 98]]"
    by (simp_all add: filled_msgq_def msgq_inv_def msgq_areas_def pair_current example_msgq_fields example_region apart_def)
qed

theorem k_msgq_get_refines_witness:
  "case k_msgq_get (fst filled_msgq) 16 K_NO_WAIT (snd filled_msgq) pair_kernel of
     (r, q', m', k') \<Rightarrow> r = Some 0 \<and> region m' 16 2 = [97, 98] \<and> msgq_list q' m' = []"
  using k_msgq_get_refines [OF pair_sched_ok _ _ _ filled_msgq_inv(1,2), where timeout = K_NO_WAIT and m = "snd filled_msgq"]
  by (simp add: pair_current is_in_isr_def filled_msgq_inv case_prod_unfold)

theorem k_msgq_purge_empties_witness:
  "msgq_list (fst (k_msgq_purge (fst filled_msgq) pair_kernel)) (snd filled_msgq) = []"
  using k_msgq_purge_empties [OF pair_sched_ok _ filled_msgq_inv(1), of "snd filled_msgq"]
  by (simp add: pair_current case_prod_unfold)

end
