(* ===== verification/Sys_Slist.thy ===== *)
theory Sys_Slist
  imports Prelude
begin

text \<open>
  The singly-linked list of \<^verbatim>\<open>include/misc/slist.h\<close>, at the level of its pointers: a map
  from nodes to the next node (\<open>None\<close> is the null pointer), and a head and a tail per list.
  \<open>slist h l xs\<close> says that the list \<open>l\<close> holds the nodes \<open>xs\<close>; every operation is proved to
  implement the operation on \<open>xs\<close>.
\<close>

section \<open>Nodes and operations\<close>

type_synonym snodes = "nat \<Rightarrow> nat option"

record sys_slist =
  head :: "nat option"
  tail :: "nat option"

definition set_next :: "nat \<Rightarrow> nat option \<Rightarrow> snodes \<Rightarrow> snodes" where
  "set_next n v h = h(n := v)"

definition sys_slist_init :: "sys_slist \<Rightarrow> sys_slist" where
  "sys_slist_init list = list\<lparr>head := None, tail := None\<rparr>"

definition sys_slist_is_empty :: "sys_slist \<Rightarrow> bool" where
  "sys_slist_is_empty list \<longleftrightarrow> head list = None"

definition sys_slist_peek_head :: "sys_slist \<Rightarrow> nat option" where
  "sys_slist_peek_head list = head list"

definition sys_slist_peek_tail :: "sys_slist \<Rightarrow> nat option" where
  "sys_slist_peek_tail list = tail list"

definition sys_slist_peek_next_no_check :: "snodes \<Rightarrow> nat \<Rightarrow> nat option" where
  "sys_slist_peek_next_no_check h node = h node"

definition sys_slist_peek_next :: "snodes \<Rightarrow> nat option \<Rightarrow> nat option" where
  "sys_slist_peek_next h node = (case node of Some n \<Rightarrow> sys_slist_peek_next_no_check h n | None \<Rightarrow> None)"

definition sys_slist_prepend :: "sys_slist \<Rightarrow> nat \<Rightarrow> snodes \<Rightarrow> sys_slist \<times> snodes" where
  "sys_slist_prepend list node h =
     (let h1 = set_next node (head list) h;
          list1 = list\<lparr>head := Some node\<rparr>
      in (if tail list1 = None then list1\<lparr>tail := head list1\<rparr> else list1, h1))"

definition sys_slist_append :: "sys_slist \<Rightarrow> nat \<Rightarrow> snodes \<Rightarrow> sys_slist \<times> snodes" where
  "sys_slist_append list node h =
     (let h1 = set_next node None h
      in case tail list of
           None \<Rightarrow> (list\<lparr>tail := Some node, head := Some node\<rparr>, h1)
         | Some t \<Rightarrow> (list\<lparr>tail := Some node\<rparr>, set_next t (Some node) h1))"

definition sys_slist_append_list :: "sys_slist \<Rightarrow> nat option \<Rightarrow> nat option \<Rightarrow> snodes \<Rightarrow> sys_slist \<times> snodes" where
  "sys_slist_append_list list hd' tl' h =
     (case tail list of
        None \<Rightarrow> (list\<lparr>head := hd', tail := tl'\<rparr>, h)
      | Some t \<Rightarrow> (list\<lparr>tail := tl'\<rparr>, set_next t hd' h))"

text \<open>The two lists after the call, and the nodes.\<close>

definition sys_slist_merge_slist :: "sys_slist \<Rightarrow> sys_slist \<Rightarrow> snodes \<Rightarrow> sys_slist \<times> sys_slist \<times> snodes" where
  "sys_slist_merge_slist list list_to_append h =
     (case sys_slist_append_list list (head list_to_append) (tail list_to_append) h of
        (list', h') \<Rightarrow> (list', sys_slist_init list_to_append, h'))"

definition sys_slist_insert :: "sys_slist \<Rightarrow> nat option \<Rightarrow> nat \<Rightarrow> snodes \<Rightarrow> sys_slist \<times> snodes" where
  "sys_slist_insert list prev node h =
     (case prev of
        None \<Rightarrow> sys_slist_prepend list node h
      | Some p \<Rightarrow>
          if h p = None then sys_slist_append list node h
          else (list, set_next p (Some node) (set_next node (h p) h)))"

text \<open>\<^verbatim>\<open>sys_slist_get_not_empty\<close> on a list whose head is the node \<open>n\<close>.\<close>

definition sys_slist_get_not_empty :: "sys_slist \<Rightarrow> nat \<Rightarrow> snodes \<Rightarrow> nat \<times> sys_slist" where
  "sys_slist_get_not_empty list n h =
     (let list1 = list\<lparr>head := h n\<rparr>
      in (n, if tail list1 = Some n then list1\<lparr>tail := head list1\<rparr> else list1))"

definition sys_slist_get :: "sys_slist \<Rightarrow> snodes \<Rightarrow> nat option \<times> sys_slist" where
  "sys_slist_get list h =
     (case head list of
        None \<Rightarrow> (None, list)
      | Some n \<Rightarrow> (case sys_slist_get_not_empty list n h of (n', list') \<Rightarrow> (Some n', list')))"

definition sys_slist_remove :: "sys_slist \<Rightarrow> nat option \<Rightarrow> nat \<Rightarrow> snodes \<Rightarrow> sys_slist \<times> snodes" where
  "sys_slist_remove list prev_node node h =
     (case prev_node of
        None \<Rightarrow>
          let list1 = list\<lparr>head := h node\<rparr>
          in (if tail list1 = Some node then list1\<lparr>tail := head list1\<rparr> else list1, set_next node None h)
      | Some p \<Rightarrow>
          (if tail list = Some node then list\<lparr>tail := Some p\<rparr> else list,
           set_next node None (set_next p (h node) h)))"

partial_function (option) find_and_remove_loop ::
  "sys_slist \<Rightarrow> nat \<Rightarrow> nat option \<Rightarrow> nat option \<Rightarrow> snodes \<Rightarrow> (bool \<times> sys_slist \<times> snodes) option" where
  "find_and_remove_loop list node prev test h =
     (case test of
        None \<Rightarrow> Some (False, list, h)
      | Some t \<Rightarrow>
          if t = node then (case sys_slist_remove list prev node h of (list', h') \<Rightarrow> Some (True, list', h'))
          else find_and_remove_loop list node (Some t) (h t) h)"

definition sys_slist_find_and_remove ::
  "sys_slist \<Rightarrow> nat \<Rightarrow> snodes \<Rightarrow> (bool \<times> sys_slist \<times> snodes) option" where
  "sys_slist_find_and_remove list node h = find_and_remove_loop list node None (head list) h"

section \<open>Lists of nodes\<close>

fun spath :: "snodes \<Rightarrow> nat option \<Rightarrow> nat list \<Rightarrow> nat option \<Rightarrow> bool" where
  "spath h p [] q \<longleftrightarrow> p = q"
| "spath h p (x # xs) q \<longleftrightarrow> p = Some x \<and> spath h (h x) xs q"

definition slist :: "snodes \<Rightarrow> sys_slist \<Rightarrow> nat list \<Rightarrow> bool" where
  "slist h l xs \<longleftrightarrow> spath h (head l) xs None \<and> tail l = (if xs = [] then None else Some (last xs)) \<and> distinct xs"

lemma set_next_apply: "set_next n v h a = (if a = n then v else h a)"
  by (simp add: set_next_def)

lemma spath_append: "spath h p (xs @ ys) q \<longleftrightarrow> (\<exists>r. spath h p xs r \<and> spath h r ys q)"
  by (induction xs arbitrary: p) auto

lemma spath_cong: "(\<And>x. x \<in> set xs \<Longrightarrow> h' x = h x) \<Longrightarrow> spath h' p xs q \<longleftrightarrow> spath h p xs q"
  by (induction xs arbitrary: p) auto

lemma spath_set_next: "n \<notin> set xs \<Longrightarrow> spath (set_next n v h) p xs q \<longleftrightarrow> spath h p xs q"
  by (rule spath_cong) (auto simp: set_next_apply)

lemma spath_unique: "spath h p xs None \<Longrightarrow> spath h p ys None \<Longrightarrow> xs = ys"
proof (induction xs arbitrary: p ys)
  case Nil
  then show ?case by (cases ys) auto
next
  case (Cons x xs)
  then show ?case by (cases ys) auto
qed

lemma slist_unique: "slist h l xs \<Longrightarrow> slist h l ys \<Longrightarrow> xs = ys"
  by (auto simp: slist_def intro: spath_unique)

lemma slist_init: "slist h (sys_slist_init l) []"
  by (simp add: slist_def sys_slist_init_def)

lemma slist_is_empty: "slist h l xs \<Longrightarrow> sys_slist_is_empty l \<longleftrightarrow> xs = []"
  by (cases xs) (auto simp: slist_def sys_slist_is_empty_def)

lemma slist_head: "slist h l xs \<Longrightarrow> head l = (case xs of [] \<Rightarrow> None | x # _ \<Rightarrow> Some x)"
  by (cases xs) (auto simp: slist_def)

lemma slist_tail: "slist h l xs \<Longrightarrow> tail l = (if xs = [] then None else Some (last xs))"
  by (simp add: slist_def)

section \<open>What the operations do\<close>

lemma slist_prepend:
  assumes "slist h l xs" "n \<notin> set xs"
  shows "case sys_slist_prepend l n h of (l', h') \<Rightarrow> slist h' l' (n # xs)"
  using assms by (auto simp: sys_slist_prepend_def slist_def spath_set_next set_next_apply Let_def)

lemma spath_relink:
  assumes "spath h p (xs @ [a]) None" "spath h' q ys r" "distinct (xs @ [a])" "set (xs @ [a]) \<inter> set ys = {}"
    and "\<And>x. x \<in> set xs \<Longrightarrow> h' x = h x" "h' a = q"
  shows "spath h' p (xs @ a # ys) r"
  using assms by (auto simp: spath_append spath_cong [of xs h' h])

lemma slist_append_chain:
  assumes l: "slist h l xs" and y: "spath h p ys None" "ys \<noteq> []" "distinct ys" "set xs \<inter> set ys = {}"
  shows "case sys_slist_append_list l p (Some (last ys)) h of (l', h') \<Rightarrow> slist h' l' (xs @ ys)"
proof (cases "xs = []")
  case True
  with assms show ?thesis by (simp add: slist_def sys_slist_append_list_def)
next
  case False
  then obtain zs a where x: "xs = zs @ [a]" by (metis rev_exhaust)
  let ?h = "set_next a p h"
  have b: "spath ?h p ys None" using y(1,4) x by (simp add: spath_set_next)
  have a: "spath h (head l) (zs @ [a]) None" and d: "distinct (zs @ [a])" using l x by (auto simp: slist_def)
  have "spath ?h (head l) (zs @ a # ys) None"
    using d y(4) x by (intro spath_relink [OF a b]) (auto simp: set_next_apply)
  with l x y show ?thesis by (auto simp: slist_def sys_slist_append_list_def)
qed

lemma slist_append:
  assumes "slist h l xs" "n \<notin> set xs"
  shows "case sys_slist_append l n h of (l', h') \<Rightarrow> slist h' l' (xs @ [n])"
proof -
  have "slist (set_next n None h) l xs" using assms by (simp add: slist_def spath_set_next)
  moreover have "sys_slist_append l n h = sys_slist_append_list l (Some n) (Some n) (set_next n None h)"
    by (cases l) (simp add: sys_slist_append_def sys_slist_append_list_def Let_def split: option.split)
  ultimately show ?thesis
    using slist_append_chain [of "set_next n None h" l xs "Some n" "[n]"] assms(2) by (simp add: set_next_apply)
qed

lemma slist_merge:
  assumes "slist h l xs" "slist h l2 ys" "set xs \<inter> set ys = {}" "ys \<noteq> []"
  shows "case sys_slist_merge_slist l l2 h of (l', l2', h') \<Rightarrow> slist h' l' (xs @ ys) \<and> slist h' l2' []"
  using slist_append_chain [of h l xs "head l2" ys] assms slist_tail [OF assms(2)]
  by (auto simp: sys_slist_merge_slist_def slist_init slist_def [of h l2] split: prod.split)

lemma slist_insert_after:
  assumes l: "slist h l (xs @ p # ys)" and n: "n \<notin> set (xs @ p # ys)"
  shows "case sys_slist_insert l (Some p) n h of (l', h') \<Rightarrow> slist h' l' (xs @ p # n # ys)"
proof (cases ys)
  case Nil
  then have "h p = None" using l by (auto simp: slist_def spath_append)
  with slist_append [OF l n] Nil show ?thesis by (simp add: sys_slist_insert_def)
next
  case (Cons y zs)
  let ?h = "set_next p (Some n) (set_next n (h p) h)"
  have hp: "h p = Some y" "spath h (head l) xs (Some p)" "spath h (h p) ys None"
    using l Cons by (auto simp: slist_def spath_append)
  have d: "distinct (xs @ p # ys)" using l by (simp add: slist_def)
  have "spath ?h (head l) xs (Some p)" "spath ?h (h p) ys None"
    using hp n d by (simp_all add: spath_set_next)
  then have "spath ?h (head l) (xs @ p # n # ys) None"
    using n by (auto simp: spath_append set_next_apply)
  with l n hp(1) Cons show ?thesis by (auto simp: sys_slist_insert_def slist_def)
qed

lemma slist_get:
  assumes "slist h l (x # xs)"
  shows "case sys_slist_get_not_empty l x h of (n, l') \<Rightarrow> n = x \<and> slist h l' xs"
  using assms by (auto simp: sys_slist_get_not_empty_def slist_def Let_def)

lemma slist_get_any:
  assumes "slist h l xs"
  shows "case sys_slist_get l h of (r, l') \<Rightarrow>
    r = (case xs of [] \<Rightarrow> None | x # _ \<Rightarrow> Some x) \<and> slist h l' (tl xs)"
proof (cases xs)
  case Nil
  with assms show ?thesis by (simp add: sys_slist_get_def slist_head)
next
  case (Cons x ys)
  with assms slist_get [of h l x ys] show ?thesis by (auto simp: sys_slist_get_def slist_head split: prod.splits)
qed

lemma slist_remove_head:
  assumes "slist h l (x # xs)"
  shows "case sys_slist_remove l None x h of (l', h') \<Rightarrow> slist h' l' xs"
  using assms by (auto simp: sys_slist_remove_def slist_def spath_set_next Let_def)

lemma slist_remove_after:
  assumes l: "slist h l (xs @ p # x # ys)"
  shows "case sys_slist_remove l (Some p) x h of (l', h') \<Rightarrow> slist h' l' (xs @ p # ys)"
proof -
  let ?h = "set_next x None (set_next p (h x) h)"
  have hp: "spath h (head l) xs (Some p)" "spath h (h x) ys None" and d: "distinct (xs @ p # x # ys)"
    using l by (auto simp: slist_def spath_append)
  then have "spath ?h (head l) xs (Some p)" "spath ?h (h x) ys None" by (simp_all add: spath_set_next)
  then have "spath ?h (head l) (xs @ p # ys) None" using d by (auto simp: spath_append set_next_apply)
  with l d show ?thesis by (auto simp: sys_slist_remove_def slist_def)
qed

lemma find_and_remove_loop_spec:
  assumes l: "slist h l (xs @ ys)" and n: "node \<notin> set xs"
    and p: "prev = (if xs = [] then None else Some (last xs))" and t: "spath h test ys None"
  shows "\<exists>r l' h'. find_and_remove_loop l node prev test h = Some (r, l', h') \<and>
    (r \<longleftrightarrow> node \<in> set ys) \<and> slist h' l' (xs @ remove1 node ys)"
  using assms
proof (induction ys arbitrary: xs prev test)
  case Nil
  then show ?case by (subst find_and_remove_loop.simps) auto
next
  case (Cons y ys)
  show ?case
  proof (cases "y = node")
    case True
    have "case sys_slist_remove l prev node h of (l', h') \<Rightarrow> slist h' l' (xs @ ys)"
    proof (cases "xs = []")
      case True
      with Cons.prems \<open>y = node\<close> slist_remove_head [of h l node ys] show ?thesis by simp
    next
      case False
      then obtain zs a where "xs = zs @ [a]" by (metis rev_exhaust)
      with Cons.prems \<open>y = node\<close> slist_remove_after [of h l zs a node ys] show ?thesis by simp
    qed
    with True Cons.prems(4) show ?thesis by (subst find_and_remove_loop.simps) (auto split: prod.splits)
  next
    case False
    have "\<exists>r l' h'. find_and_remove_loop l node (Some y) (h y) h = Some (r, l', h') \<and>
        (r \<longleftrightarrow> node \<in> set ys) \<and> slist h' l' ((xs @ [y]) @ remove1 node ys)"
      using Cons.prems False by (intro Cons.IH) simp_all
    with False Cons.prems(4) show ?thesis by (subst find_and_remove_loop.simps) simp
  qed
qed

lemma slist_find_and_remove:
  assumes "slist h l xs"
  shows "\<exists>l' h'. sys_slist_find_and_remove l node h = Some (node \<in> set xs, l', h') \<and> slist h' l' (remove1 node xs)"
  using find_and_remove_loop_spec [of h l "[]" xs node None "head l"] assms
  by (auto simp: sys_slist_find_and_remove_def slist_def)

end
