(* ===== verification/Queue.thy ===== *)
theory Queue
  imports Waiters Sys_Slist
begin

text \<open>
  Queues (\<^verbatim>\<open>kernel/queue.c\<close>), which fifos and lifos are built on: a singly-linked list of
  data items, each of which holds the pointer to the next, and a wait queue. An item is
  its address, which is not zero; zero is the null pointer that \<^verbatim>\<open>k_queue_cancel_wait\<close>
  passes. Without polling an item goes straight to a waiting thread.
\<close>

section \<open>Operations\<close>

record k_queue =
  data_q :: sys_slist
  queue_wait_q :: waddr

definition k_queue_init :: "k_queue \<Rightarrow> 'a kernel_scheme \<Rightarrow> k_queue \<times> 'a kernel_scheme" where
  "k_queue_init q k =
     (q\<lparr>data_q := sys_slist_init (data_q q)\<rparr>, k\<lparr>queues := (queues k)(WaitQ (queue_wait_q q) := [])\<rparr>)"

definition prepare_thread_to_run :: "tid \<Rightarrow> nat \<Rightarrow> 'a kernel_scheme \<Rightarrow> 'a kernel_scheme" where
  "prepare_thread_to_run t data k =
     (let k1 = snd (abort_thread_timeout t k);
          k2 = ready_thread t k1
      in set_thread_return_value_with_data t 0 data k2)"

definition k_queue_cancel_wait :: "k_queue \<Rightarrow> 'a kernel_scheme \<Rightarrow> 'a kernel_scheme" where
  "k_queue_cancel_wait q k =
     (case unpend_first_thread (queue_wait_q q) k of
        (Some t, k1) \<Rightarrow>
          let k2 = prepare_thread_to_run t 0 k1
          in if \<not> is_in_isr k2 \<and> must_switch_threads k2 then Swap k2 else k2
      | (None, k1) \<Rightarrow> k1)"

definition k_queue_insert ::
  "k_queue \<Rightarrow> nat option \<Rightarrow> nat \<Rightarrow> snodes \<Rightarrow> 'a kernel_scheme \<Rightarrow> k_queue \<times> snodes \<times> 'a kernel_scheme" where
  "k_queue_insert q prev data h k =
     (case unpend_first_thread (queue_wait_q q) k of
        (Some t, k1) \<Rightarrow>
          let k2 = prepare_thread_to_run t data k1
          in (q, h, if \<not> is_in_isr k2 \<and> must_switch_threads k2 then Swap k2 else k2)
      | (None, k1) \<Rightarrow>
          (case sys_slist_insert (data_q q) prev data h of (l, h') \<Rightarrow> (q\<lparr>data_q := l\<rparr>, h', k1)))"

definition k_queue_append :: "k_queue \<Rightarrow> nat \<Rightarrow> snodes \<Rightarrow> 'a kernel_scheme \<Rightarrow> k_queue \<times> snodes \<times> 'a kernel_scheme" where
  "k_queue_append q data h k = k_queue_insert q (tail (data_q q)) data h k"

definition k_queue_prepend :: "k_queue \<Rightarrow> nat \<Rightarrow> snodes \<Rightarrow> 'a kernel_scheme \<Rightarrow> k_queue \<times> snodes \<times> 'a kernel_scheme" where
  "k_queue_prepend q data h k = k_queue_insert q None data h k"

lemma prepare_woken: "prepare_thread_to_run t data k = set_thread_return_value_with_data t 0 data (woken t k)"
  by (simp add: prepare_thread_to_run_def woken_def Let_def)

text \<open>The loop that hands items to the waiting threads; what is left of the chain is the result.\<close>

function give_chain :: "waddr \<Rightarrow> nat option \<Rightarrow> snodes \<Rightarrow> 'a kernel_scheme \<Rightarrow> nat option \<times> 'a kernel_scheme" where
  "give_chain w hd' h k =
     (case hd' of
        None \<Rightarrow> (None, k)
      | Some x \<Rightarrow>
          (case unpend_first_thread w k of
             (Some t, k1) \<Rightarrow> give_chain w (h x) h (prepare_thread_to_run t x k1)
           | (None, k1) \<Rightarrow> (Some x, k1)))"
  by pat_completeness auto

termination give_chain
proof (relation "measure (\<lambda>(w, _, _, k). length (queues k (WaitQ w)))", goal_cases)
  case (2 w hd' h k x a b t)
  then show ?case using unpend_first_length [of w k t b] by (simp add: prepare_woken)
qed simp

declare give_chain.simps [simp del]

definition k_queue_append_list ::
  "k_queue \<Rightarrow> nat option \<Rightarrow> nat option \<Rightarrow> snodes \<Rightarrow> 'a kernel_scheme \<Rightarrow> k_queue \<times> snodes \<times> 'a kernel_scheme" where
  "k_queue_append_list q hd' tl' h k =
     (let first_thread = peek_first_pending_thread k (queue_wait_q q);
          (hd1, k1) = give_chain (queue_wait_q q) hd' h k;
          (l, h1) = (if hd1 \<noteq> None then sys_slist_append_list (data_q q) hd1 tl' h else (data_q q, h))
      in (q\<lparr>data_q := l\<rparr>, h1,
          if first_thread \<noteq> None \<and> \<not> is_in_isr k1 \<and> must_switch_threads k1 then Swap k1 else k1))"

definition k_queue_merge_slist ::
  "k_queue \<Rightarrow> sys_slist \<Rightarrow> snodes \<Rightarrow> 'a kernel_scheme \<Rightarrow> k_queue \<times> sys_slist \<times> snodes \<times> 'a kernel_scheme" where
  "k_queue_merge_slist q list h k =
     (case k_queue_append_list q (head list) (tail list) h k of
        (q', h', k') \<Rightarrow> (q', sys_slist_init list, h', k'))"

text \<open>The outer option is whether the call has returned; the inner one the item or a null pointer.\<close>

definition k_queue_get ::
  "k_queue \<Rightarrow> int \<Rightarrow> snodes \<Rightarrow> 'a kernel_scheme \<Rightarrow> nat option option \<times> k_queue \<times> 'a kernel_scheme" where
  "k_queue_get q timeout h k =
     (case head (data_q q) of
        Some n \<Rightarrow> (case sys_slist_get_not_empty (data_q q) n h of (data, l) \<Rightarrow> (Some (Some data), q\<lparr>data_q := l\<rparr>, k))
      | None \<Rightarrow>
          if timeout = K_NO_WAIT then (Some None, q, k)
          else (None, q, Swap (pend_current_thread (queue_wait_q q) timeout k)))"

definition k_queue_get_resume :: "'a kernel_scheme \<Rightarrow> nat option" where
  "k_queue_get_resume k =
     (let c = threads k (current k)
      in if swap_retval c \<noteq> 0 then None else if swap_data c = 0 then None else Some (swap_data c))"

definition k_queue_remove :: "k_queue \<Rightarrow> nat \<Rightarrow> snodes \<Rightarrow> (bool \<times> k_queue \<times> snodes) option" where
  "k_queue_remove q data h =
     map_option (\<lambda>(r, l, h'). (r, q\<lparr>data_q := l\<rparr>, h')) (sys_slist_find_and_remove (data_q q) data h)"

definition k_queue_is_empty :: "k_queue \<Rightarrow> bool" where
  "k_queue_is_empty q = sys_slist_is_empty (data_q q)"

definition k_queue_peek_head :: "k_queue \<Rightarrow> nat option" where
  "k_queue_peek_head q = sys_slist_peek_head (data_q q)"

definition k_queue_peek_tail :: "k_queue \<Rightarrow> nat option" where
  "k_queue_peek_tail q = sys_slist_peek_tail (data_q q)"

section \<open>Specification\<close>

text \<open>The items of the queue; a thread waits only while there are none.\<close>

definition queue_inv :: "k_queue \<Rightarrow> snodes \<Rightarrow> 'a kernel_scheme \<Rightarrow> nat list \<Rightarrow> bool" where
  "queue_inv q h k xs \<longleftrightarrow> slist h (data_q q) xs \<and> 0 \<notin> set xs \<and>
     (queues k (WaitQ (queue_wait_q q)) \<noteq> [] \<longrightarrow> xs = [])"

lemma insert_waiter:
  assumes s: "sched_ok k" and h: "\<not> handling_timeouts k" and i: "\<not> is_in_isr k"
    and q: "queues k (WaitQ (queue_wait_q q)) = t # ts"
  obtains k' where "k_queue_insert q prev data h' k = (q, h', k')" and "served t 0 k k'"
    and "swap_data (threads k' t) = data"
proof -
  let ?k2 = "set_thread_return_value_with_data t 0 data (woken t (unpend_thread t k))"
  have u: "unpend_first_thread (queue_wait_q q) k = (Some t, unpend_thread t k)"
    by (simp add: unpend_first_head [OF h] q)
  note d = serve_data [OF s i u, of 0 data]
  show ?thesis
    by (rule that [of "if must_switch_threads ?k2 then Swap ?k2 else ?k2"])
       (use d in \<open>simp_all add: k_queue_insert_def u Let_def prepare_woken\<close>)
qed

text \<open>
  A thread runs again with what a state left it as the result of its pending call; and a
  thread that waits as the first of a queue.
\<close>

definition runs_again :: "tid \<Rightarrow> 'a kernel_scheme \<Rightarrow> 'a kernel_scheme \<Rightarrow> bool" where
  "runs_again t k k' \<longleftrightarrow> current k' = t \<and> swap_retval (threads k' t) = swap_retval (threads k t) \<and>
     swap_data (threads k' t) = swap_data (threads k t)"

definition waits_first :: "tid \<Rightarrow> tid list \<Rightarrow> waddr \<Rightarrow> 'a kernel_scheme \<Rightarrow> bool" where
  "waits_first t ts w k \<longleftrightarrow> sched_ok k \<and> \<not> handling_timeouts k \<and> queues k (WaitQ w) = t # ts"

lemma resume_runs_again:
  "runs_again t k k' \<Longrightarrow> k_queue_get_resume k' =
    (if swap_retval (threads k t) \<noteq> 0 \<or> swap_data (threads k t) = 0 then None else Some (swap_data (threads k t)))"
  by (simp add: runs_again_def k_queue_get_resume_def Let_def)

lemma prepared_fields:
  fixes d :: nat
  assumes w: "waits_first t ts w k"
  defines "k2 \<equiv> prepare_thread_to_run t d (unpend_thread t k)"
  defines "k' \<equiv> if \<not> is_in_isr k2 \<and> must_switch_threads k2 then Swap k2 else k2"
  shows "swap_retval (threads k' t) = 0" "swap_data (threads k' t) = d"
proof -
  have s: "sched_ok k" and u: "unpend_first_thread w k = (Some t, unpend_thread t k)"
    using w by (simp_all add: waits_first_def unpend_first_head)
  have "swap_retval (threads k' t) = 0 \<and> swap_data (threads k' t) = d"
  proof (cases "is_in_isr k")
    case True
    then have "k' = k2" by (simp add: k'_def k2_def prepare_woken is_in_isr_def)
    then show ?thesis by (simp add: k2_def prepare_woken set_thread_return_value_with_data_def)
  next
    case False
    note d = serve_data [OF s this u, of 0 d]
    have "k' = (if must_switch_threads k2 then Swap k2 else k2)" using d(3) by (simp add: k'_def k2_def prepare_woken)
    then show ?thesis using d(1,2) unfolding served_def by (metis k2_def prepare_woken)
  qed
  then show "swap_retval (threads k' t) = 0" "swap_data (threads k' t) = d" by simp_all
qed

lemma insert_waiter_resumes:
  assumes w: "waits_first t ts (queue_wait_q q) k" and d: "d \<noteq> 0"
    and r: "runs_again t (snd (snd (k_queue_insert q prev d m k))) k4"
  shows "k_queue_get_resume k4 = Some d"
  using prepared_fields [OF w, of d] w d resume_runs_again [OF r]
  by (simp add: k_queue_insert_def waits_first_def unpend_first_head Let_def)

lemma cancel_waiter_resumes:
  assumes w: "waits_first t ts (queue_wait_q q) k" and r: "runs_again t (k_queue_cancel_wait q k) k4"
  shows "k_queue_get_resume k4 = None"
  using prepared_fields [OF w, of 0] w resume_runs_again [OF r]
  by (simp add: k_queue_cancel_wait_def waits_first_def unpend_first_head Let_def)

lemma insert_no_waiter:
  assumes "\<not> handling_timeouts k" "queues k (WaitQ (queue_wait_q q)) = []"
  shows "k_queue_insert q prev data h k =
    (case sys_slist_insert (data_q q) prev data h of (l, h') \<Rightarrow> (q\<lparr>data_q := l\<rparr>, h', k))"
  using assms by (simp add: k_queue_insert_def unpend_first_head)

lemma slist_insert_tail:
  assumes "slist h l xs" "n \<notin> set xs"
  shows "case sys_slist_insert l (tail l) n h of (l', h') \<Rightarrow> slist h' l' (xs @ [n])"
proof (cases "xs = []")
  case True
  with assms slist_prepend [OF assms] slist_tail [OF assms(1)] show ?thesis by (simp add: sys_slist_insert_def)
next
  case False
  then obtain zs a where x: "xs = zs @ [a]" by (metis rev_exhaust)
  with slist_insert_after [of h l zs a "[]" n] assms slist_tail [OF assms(1)] show ?thesis by simp
qed

section \<open>Handing out a chain\<close>

lemma unpend_retval [simp]: "swap_retval (threads (unpend_thread t k) u) = swap_retval (threads k u)"
  by (simp add: unpend_thread_def mark_thread_as_not_pending_def queue_remove_def reset_thread_states_def)

lemma give_chain_spec:
  assumes "kinv {} k" "settled k" "is_thread_ready k (current k)" "\<not> handling_timeouts k" "\<not> is_in_isr k"
    and "spath h p ys None" "queues k (WaitQ w) = ws"
  shows "case give_chain w p h k of (p', k') \<Rightarrow>
    kinv {} k' \<and> settled k' \<and> is_thread_ready k' (current k) \<and> current k' = current k \<and> \<not> is_in_isr k' \<and>
    spath h p' (drop (length ws) ys) None \<and> queues k' (WaitQ w) = drop (length ys) ws \<and>
    (\<forall>(t, y) \<in> set (zip ws ys). swap_data (threads k' t) = y \<and> swap_retval (threads k' t) = 0) \<and>
    (\<forall>t. t \<notin> set ws \<longrightarrow> swap_data (threads k' t) = swap_data (threads k t) \<and>
       swap_retval (threads k' t) = swap_retval (threads k t))"
  using assms
proof (induction ys arbitrary: p k ws)
  case Nil
  then show ?case by (subst give_chain.simps) simp
next
  case (Cons y ys)
  then have p: "p = Some y" "spath h (h y) ys None" by auto
  show ?case
  proof (cases ws)
    case Nil
    then have "unpend_first_thread w k = (None, k)" using Cons.prems by (simp add: unpend_first_head)
    with Cons.prems p Nil show ?thesis by (subst give_chain.simps) simp
  next
    case (Cons t ts)
    let ?k1 = "unpend_thread t k" let ?k2 = "set_thread_return_value_with_data t 0 y (woken t ?k1)"
    have u: "unpend_first_thread w k = (Some t, ?k1)" using Cons.prems Cons by (simp add: unpend_first_head)
    note a = wake_first [OF Cons.prems(1,2) u]
    have td: "t \<notin> set ts" using kinv_wait_distinct [OF Cons.prems(1), of w] Cons.prems(7) Cons by simp
    have ct: "current k \<noteq> t" using a(6) Cons.prems(3) by auto
    have k2: "kinv {} ?k2" "settled ?k2" "is_thread_ready ?k2 (current ?k2)" "\<not> handling_timeouts ?k2" "\<not> is_in_isr ?k2"
      using a(1,2,8,9) Cons.prems(3-5) ct by (simp_all add: set_retval_data_kinv is_in_isr_def)
    have q2: "queues ?k2 (WaitQ w) = ts" using Cons.prems(7) Cons by simp
    have e: "give_chain w p h k = give_chain w (h y) h ?k2"
      using p(1) u by (subst give_chain.simps) (simp add: prepare_woken)
    obtain p' k' where r: "give_chain w (h y) h ?k2 = (p', k')" by force
    note ih = Cons.IH [OF k2 p(2) q2, unfolded r prod.case]
    have f: "swap_data (threads k' v) = (if v = t then y else swap_data (threads k v)) \<and>
        swap_retval (threads k' v) = (if v = t then 0 else swap_retval (threads k v))" if "v \<notin> set ts" for v
    proof -
      have "swap_data (threads k' v) = swap_data (threads ?k2 v) \<and> swap_retval (threads k' v) = swap_retval (threads ?k2 v)"
        using ih that by blast
      then show ?thesis by simp
    qed
    have z: "\<forall>(t', y') \<in> set (zip ws (y # ys)). swap_data (threads k' t') = y' \<and> swap_retval (threads k' t') = 0"
      using ih f [OF td] unfolding Cons by simp
    have "\<forall>v. v \<notin> set ws \<longrightarrow> swap_data (threads k' v) = swap_data (threads k v) \<and>
        swap_retval (threads k' v) = swap_retval (threads k v)"
      using f unfolding Cons by simp
    with z show ?thesis unfolding e r prod.case using ih by (simp add: Cons)
  qed
qed

section \<open>Properties\<close>

text \<open>
  C35. Appending an item: with no waiter it is the last item of the queue; otherwise the
  first waiter gets it, its pending \<^verbatim>\<open>k_queue_get\<close> returning it, and the queue stays empty.
  Prepending differs only in that the item is the first.
\<close>

theorem k_queue_append_refines:
  assumes s: "sched_ok k" and h: "\<not> handling_timeouts k" and i: "\<not> is_in_isr k"
    and v: "queue_inv q n k xs" and d: "d \<notin> set xs" "d \<noteq> 0"
  shows "(case k_queue_append q d n k of (q', n', k') \<Rightarrow>
      case queues k (WaitQ (queue_wait_q q)) of
        [] \<Rightarrow> k' = k \<and> queue_inv q' n' k' (xs @ [d])
      | t # ts \<Rightarrow> served t 0 k k' \<and> swap_data (threads k' t) = d \<and> queue_inv q' n' k' []) \<and>
    (case k_queue_prepend q d n k of (q', n', k') \<Rightarrow>
      case queues k (WaitQ (queue_wait_q q)) of
        [] \<Rightarrow> k' = k \<and> queue_inv q' n' k' (d # xs)
      | t # ts \<Rightarrow> served t 0 k k' \<and> swap_data (threads k' t) = d \<and> queue_inv q' n' k' [])"
proof (cases "queues k (WaitQ (queue_wait_q q))")
  case Nil
  have l: "slist n (data_q q) xs" "0 \<notin> set xs" using v by (simp_all add: queue_inv_def)
  from slist_insert_tail [OF l(1) d(1)] slist_prepend [OF l(1) d(1)] Nil l d show ?thesis
    by (auto simp: k_queue_append_def k_queue_prepend_def insert_no_waiter [OF h Nil] queue_inv_def
        sys_slist_insert_def [of _ None] split: prod.splits)
next
  case (Cons t ts)
  have x: "xs = []" using v Cons by (simp add: queue_inv_def)
  obtain k1 where 1: "k_queue_append q d n k = (q, n, k1)" "served t 0 k k1" "swap_data (threads k1 t) = d"
    unfolding k_queue_append_def by (rule insert_waiter [OF s h i Cons])
  obtain k2 where 2: "k_queue_prepend q d n k = (q, n, k2)" "served t 0 k k2" "swap_data (threads k2 t) = d"
    unfolding k_queue_prepend_def by (rule insert_waiter [OF s h i Cons])
  from 1 2 v x Cons show ?thesis by (simp add: queue_inv_def)
qed

text \<open>
  C36. Getting an item: the first item of a queue that has one; from an empty queue a null
  pointer when the call may not wait, and otherwise the caller waits in the order of
  priorities. When the caller runs again with nothing handed to it, because its timeout
  expired, its call returns a null pointer. When it is the first waiter and an item is
  inserted, by any of append, prepend and insert, its call returns that item when it runs
  again, and a null pointer when the wait was cancelled instead.
\<close>

theorem k_queue_get_refines:
  fixes k :: "'a kernel_scheme"
  assumes s: "sched_ok k" and c: "current k \<noteq> idle_thread k" and v: "queue_inv q n k xs"
  shows "case k_queue_get q timeout n k of (r, q', k') \<Rightarrow>
    sched_ok k' \<and> queue_inv q' n k' (tl xs) \<and>
    (case xs of
       x # _ \<Rightarrow> r = Some (Some x) \<and> k' = k
     | [] \<Rightarrow> if timeout = K_NO_WAIT then r = Some None \<and> k' = k
         else r = None \<and> queues k' (WaitQ (queue_wait_q q)) =
             prio_insert (\<lambda>u. prio (threads k u)) (current k) (queues k (WaitQ (queue_wait_q q))) \<and>
           (\<forall>k4. runs_again (current k) k' k4 \<longrightarrow> k_queue_get_resume k4 = None) \<and>
           (\<forall>(k2 :: 'a kernel_scheme) ts prev d m k4. waits_first (current k) ts (queue_wait_q q) k2 \<and> d \<noteq> 0 \<and>
              runs_again (current k) (snd (snd (k_queue_insert q prev d m k2))) k4 \<longrightarrow>
              k_queue_get_resume k4 = Some d) \<and>
           (\<forall>(k2 :: 'a kernel_scheme) ts k4. waits_first (current k) ts (queue_wait_q q) k2 \<and>
              runs_again (current k) (k_queue_cancel_wait q k2) k4 \<longrightarrow> k_queue_get_resume k4 = None))"
proof (cases xs)
  case Nil
  let ?k = "Swap (pend_current_thread (queue_wait_q q) timeout k)"
  have n: "head (data_q q) = None" using v Nil by (simp add: queue_inv_def slist_head)
  note b = block_current [OF sched_okD(1,2,4) [OF s] c, of "queue_wait_q q" timeout]
  have t: "\<forall>k4. runs_again (current k) ?k k4 \<longrightarrow> k_queue_get_resume k4 = None"
    using b(3) by (simp add: resume_runs_again EAGAIN_def)
  have i: "\<forall>(k2 :: 'a kernel_scheme) ts prev d m k4. waits_first (current k) ts (queue_wait_q q) k2 \<and> d \<noteq> 0 \<and>
      runs_again (current k) (snd (snd (k_queue_insert q prev d m k2))) k4 \<longrightarrow> k_queue_get_resume k4 = Some d"
    using insert_waiter_resumes by blast
  have x: "\<forall>(k2 :: 'a kernel_scheme) ts k4. waits_first (current k) ts (queue_wait_q q) k2 \<and>
      runs_again (current k) (k_queue_cancel_wait q k2) k4 \<longrightarrow> k_queue_get_resume k4 = None"
    using cancel_waiter_resumes by blast
  have e: "k_queue_get q timeout n k = (if timeout = K_NO_WAIT then (Some None, q, k) else (None, q, ?k))"
    by (simp add: k_queue_get_def n)
  have w: "queue_inv q n k []" "queue_inv q n ?k []" using v Nil by (simp_all add: queue_inv_def)
  show ?thesis
    unfolding e Nil list.case list.sel
    using s b(1,2) t i x w by (cases "timeout = K_NO_WAIT") (simp_all only: if_True if_False prod.case simp_thms)
next
  case (Cons x ys)
  have l: "slist n (data_q q) (x # ys)" using v Cons by (simp add: queue_inv_def)
  with slist_get [OF l] slist_head [OF l] Cons s v show ?thesis
    by (auto simp: k_queue_get_def queue_inv_def split: prod.splits)
qed

text \<open>
  Appending a chain of items: the waiters get the first items of the chain, one each
  and in order, and what is left of the chain goes behind the items of the queue.
\<close>

theorem k_queue_append_list_refines:
  assumes s: "sched_ok k" and h: "\<not> handling_timeouts k" and i: "\<not> is_in_isr k"
    and v: "queue_inv q n k xs" and y: "spath n (Some a) ys None" "distinct ys" "0 \<notin> set ys" "set xs \<inter> set ys = {}"
  shows "case k_queue_append_list q (Some a) (Some (last ys)) n k of (q', n', k') \<Rightarrow>
    let ws = queues k (WaitQ (queue_wait_q q)) in
    sched_ok k' \<and> queue_inv q' n' k' (xs @ drop (length ws) ys) \<and>
    queues k' (WaitQ (queue_wait_q q)) = drop (length ys) ws \<and>
    (\<forall>(t, y) \<in> set (zip ws ys). swap_data (threads k' t) = y \<and> swap_retval (threads k' t) = 0)"
proof -
  let ?w = "queue_wait_q q" let ?ws = "queues k (WaitQ ?w)" let ?zs = "drop (length ?ws) ys"
  note k = sched_okD [OF s]
  obtain p k1 where g: "give_chain ?w (Some a) n k = (p, k1)" by force
  note gs = give_chain_spec [OF k(1,4,2) h i y(1) refl, of ?w, unfolded g prod.case]
  let ?k' = "if ?ws \<noteq> [] \<and> \<not> is_in_isr k1 \<and> must_switch_threads k1 then Swap k1 else k1"
  have ok: "sched_ok ?k'"
  proof (cases "?ws = []")
    case True
    then have "unpend_first_thread ?w k = (None, k)" by (simp add: unpend_first_head [OF h])
    then have "k1 = k" using g by (subst (asm) give_chain.simps) simp
    with True s show ?thesis by simp
  next
    case False
    have "sched_ok (if \<not> is_in_isr k1 \<and> must_switch_threads k1 then Swap k1 else k1)"
      using gs by (intro switch_or_stay_ok) simp_all
    with False show ?thesis by simp
  qed
  have not_cur: "t \<noteq> current k" if "t \<in> set ?ws" for t
    using kinv_waiting [OF k(1) that] k(2) by (auto simp: is_thread_ready_iff)
  have data: "\<forall>(t, y) \<in> set (zip ?ws ys). swap_data (threads ?k' t) = y \<and> swap_retval (threads ?k' t) = 0"
    using gs not_cur by (fastforce dest: set_zip_leftD)
  have l: "slist n (data_q q) xs" "0 \<notin> set xs" "?ws \<noteq> [] \<longrightarrow> xs = []" using v by (simp_all add: queue_inv_def)
  have "case (if p \<noteq> None then sys_slist_append_list (data_q q) p (Some (last ys)) n else (data_q q, n)) of
      (l, n') \<Rightarrow> slist n' l (xs @ ?zs)"
  proof (cases "?zs = []")
    case True
    then show ?thesis using gs l by simp
  next
    case False
    have sp: "spath n p ?zs None" using gs by simp
    then have "p \<noteq> None" using False by (cases ?zs) auto
    moreover have "last ?zs = last ys" "distinct ?zs" "set xs \<inter> set ?zs = {}"
      using False y by (auto dest: in_set_dropD)
    ultimately show ?thesis using slist_append_chain [OF l(1) sp False] by simp
  qed
  moreover have "queues ?k' (WaitQ ?w) = drop (length ys) ?ws" using gs by simp
  moreover have "0 \<notin> set (xs @ ?zs)" using l y by (auto dest: in_set_dropD)
  moreover have "drop (length ys) ?ws \<noteq> [] \<longrightarrow> xs @ ?zs = []" using l(3) by auto
  moreover have "peek_first_pending_thread k ?w \<noteq> None \<longleftrightarrow> ?ws \<noteq> []"
    by (cases ?ws) (simp_all add: peek_first_pending_thread_def)
  ultimately show ?thesis
    using ok data by (auto simp: k_queue_append_list_def g queue_inv_def Let_def split: prod.splits if_splits)
qed

text \<open>
  C40. \<^verbatim>\<open>k_queue_append\<close> reads the tail of the queue before it locks interrupts. When an
  interrupt between the two appends another item and the item that was the tail is then
  taken off the queue, the insertion links the new item behind an item that is on the queue no
  longer: the new item is lost, the queue holding the interrupt's item only.
\<close>

theorem k_queue_append_stale_tail:
  assumes h: "\<not> handling_timeouts k" and w: "queues k (WaitQ (queue_wait_q q)) = []"
    and l: "slist n (data_q q) [p]" and d: "distinct [p, e, d]"
  shows "case k_queue_append q e n k of (q1, n1, k1) \<Rightarrow>
    case k_queue_get q1 K_NO_WAIT n1 k1 of (r, q2, k2) \<Rightarrow>
    case k_queue_insert q2 (tail (data_q q)) d n1 k2 of (q3, n3, k3) \<Rightarrow>
      r = Some (Some p) \<and> k3 = k \<and> slist n3 (data_q q3) [e]"
proof -
  have t: "tail (data_q q) = Some p" using slist_tail [OF l] by simp
  obtain l1 n1 where i1: "sys_slist_insert (data_q q) (Some p) e n = (l1, n1)" by force
  have l1: "slist n1 l1 [p, e]" using slist_insert_tail [OF l, of e] d i1 by (simp add: t)
  obtain l2 where g: "sys_slist_get_not_empty l1 p n1 = (p, l2)" and l2: "slist n1 l2 [e]"
    using slist_get [OF l1] by (cases "sys_slist_get_not_empty l1 p n1") auto
  have "n1 p = Some e" using l1 by (simp add: slist_def)
  then have i2: "sys_slist_insert l2 (Some p) d n1 = (l2, set_next p (Some d) (set_next d (Some e) n1))"
    by (simp add: sys_slist_insert_def)
  have "slist (set_next p (Some d) (set_next d (Some e) n1)) l2 [e]"
    using l2 d by (auto simp: slist_def set_next_apply)
  then show ?thesis
    using w slist_head [OF l1]
    by (simp add: k_queue_append_def t insert_no_waiter [OF h] i1 k_queue_get_def g i2)
qed

definition example_nodes :: snodes where
  "example_nodes = (\<lambda>a. if a = 8 then Some 12 else if a = 20 then Some 24 else None)"

definition example_queue :: k_queue where
  "example_queue = \<lparr>data_q = \<lparr>head = Some 8, tail = Some 12\<rparr>, queue_wait_q = 7\<rparr>"

lemma example_queue_inv: "queue_inv example_queue example_nodes pair_kernel [8, 12]"
  by (simp add: queue_inv_def example_queue_def example_nodes_def slist_def pair_current)

lemma example_queue_wait_q: "queue_wait_q example_queue = 7"
  by (simp add: example_queue_def)

theorem k_queue_append_refines_witness:
  "case k_queue_append example_queue 16 example_nodes pair_kernel of
     (q', n', k') \<Rightarrow> queue_inv q' n' k' [8, 12, 16]"
  using k_queue_append_refines [OF pair_sched_ok _ _ example_queue_inv, of 16]
  by (auto simp: pair_current is_in_isr_def case_prod_unfold example_queue_wait_q)

text \<open>The first thread waits for an empty queue; an item inserted then is what its call returns.\<close>

definition empty_queue :: k_queue where
  "empty_queue = \<lparr>data_q = \<lparr>head = None, tail = None\<rparr>, queue_wait_q = 7\<rparr>"

definition getting_kernel :: kernel where
  "getting_kernel = snd (snd (k_queue_get empty_queue K_FOREVER example_nodes pair_kernel))"

lemma empty_queue_inv: "queue_inv empty_queue example_nodes pair_kernel []"
  by (simp add: queue_inv_def empty_queue_def slist_def pair_current)

lemma getting_waits_first: "waits_first 2 [] 7 getting_kernel"
proof -
  note b = block_current [OF sched_okD(1,2,4) [OF pair_sched_ok], of 7 K_FOREVER]
  have "getting_kernel = Swap (pend_current_thread 7 K_FOREVER pair_kernel)"
    by (simp add: getting_kernel_def empty_queue_def k_queue_get_def K_FOREVER_def K_NO_WAIT_def)
  then show ?thesis
    using b by (simp add: waits_first_def pair_current) (simp add: \<open>getting_kernel = _\<close> pend_current_simps pair_current)
qed

theorem k_queue_get_refines_witness:
  "k_queue_get_resume ((snd (snd (k_queue_append empty_queue 16 example_nodes getting_kernel)))\<lparr>current := 2\<rparr>) = Some 16 \<and>
   k_queue_get_resume ((k_queue_cancel_wait empty_queue getting_kernel)\<lparr>current := 2\<rparr>) = None"
proof -
  let ?a = "snd (snd (k_queue_append empty_queue 16 example_nodes getting_kernel))"
    and ?c = "k_queue_cancel_wait empty_queue getting_kernel"
  have "runs_again 2 ?a (?a\<lparr>current := 2\<rparr>)" "runs_again 2 ?c (?c\<lparr>current := 2\<rparr>)" by (simp_all add: runs_again_def)
  moreover have "current pair_kernel = 2" "queue_wait_q empty_queue = 7" "K_FOREVER \<noteq> K_NO_WAIT"
    "current pair_kernel \<noteq> idle_thread pair_kernel"
    by (simp_all add: pair_current empty_queue_def K_FOREVER_def K_NO_WAIT_def)
  ultimately show ?thesis
    using k_queue_get_refines [OF pair_sched_ok _ empty_queue_inv, of K_FOREVER] getting_waits_first
    unfolding k_queue_append_def by (simp add: case_prod_unfold)
qed

theorem k_queue_append_list_refines_witness:
  "case k_queue_append_list example_queue (Some 20) (Some 24) example_nodes pair_kernel of
     (q', n', k') \<Rightarrow> queue_inv q' n' k' [8, 12, 20, 24]"
proof -
  have "spath example_nodes (Some 20) [20, 24] None" by (simp add: example_nodes_def)
  from k_queue_append_list_refines [OF pair_sched_ok _ _ example_queue_inv this] show ?thesis
    by (simp add: pair_current is_in_isr_def case_prod_unfold example_queue_wait_q)
qed

theorem k_queue_append_stale_tail_witness:
  "case k_queue_append (example_queue\<lparr>data_q := \<lparr>head = Some 4, tail = Some 4\<rparr>\<rparr>) 12 example_nodes pair_kernel of (q1, n1, k1) \<Rightarrow>
    case k_queue_get q1 K_NO_WAIT n1 k1 of (r, q2, k2) \<Rightarrow>
    case k_queue_insert q2 (Some 4) 16 n1 k2 of (q3, n3, k3) \<Rightarrow> slist n3 (data_q q3) [12]"
proof -
  have "slist example_nodes (data_q (example_queue\<lparr>data_q := \<lparr>head = Some 4, tail = Some 4\<rparr>\<rparr>)) [4]"
    by (simp add: slist_def example_nodes_def)
  from k_queue_append_stale_tail [OF _ _ this, of pair_kernel 12 16] show ?thesis
    by (simp add: pair_current case_prod_unfold)
qed

end
