(* ===== verification/Mem_Pool.thy ===== *)
theory Mem_Pool
  imports Waiters Sys_Clock Memory "HOL-Library.Monad_Syntax"
begin

text \<open>
  Memory pools (\<^verbatim>\<open>kernel/mempool.c\<close>): a buffer of maximum-size blocks, each of which can
  be split into four, down to a minimum size. Every level has a bit for each of its blocks,
  set while the block is free, and a list of its free blocks; freeing a block whose three
  partners are free merges them.

  The bits of a level are one word inside the level or an array behind the buffer, whose
  address is then in that word, a union in the source: \<open>bits\<close> is the word of the union and
  \<open>bits_array\<close> the array behind the buffer. Which of the two an access takes is the test
  of \<^verbatim>\<open>get_bit_ptr\<close> on the level, whatever the initialisation stored. The operations return
  \<open>None\<close> where the source would reach outside of the word or the array. The free list of a level is the list of the addresses in it:
  unlinking a block from the list it is in is \<open>remove1\<close>. Sizes and addresses are numbers;
  the bit fields of a block's identity wrap as in \<^verbatim>\<open>struct k_mem_block_id\<close>.
\<close>

section \<open>Data\<close>

record k_mem_pool_lvl =
  bits :: u32
  bits_array :: "u32 list"
  free_list :: "nat list"

record k_mem_pool =
  pool_buf :: nat
  max_sz :: nat
  n_max :: nat
  n_levels :: nat
  max_inline_level :: nat
  levels :: "k_mem_pool_lvl list"
  pool_wait_q :: waddr

record k_mem_block =
  block_data :: nat
  id_pool :: nat
  id_level :: nat
  id_block :: nat

definition ALIGN4 :: "nat \<Rightarrow> nat" where
  "ALIGN4 n = ((n + 3) div 4) * 4"

definition upd_level :: "nat \<Rightarrow> (k_mem_pool_lvl \<Rightarrow> k_mem_pool_lvl) \<Rightarrow> k_mem_pool \<Rightarrow> k_mem_pool" where
  "upd_level l f p = p\<lparr>levels := (levels p)[l := f (levels p ! l)]\<rparr>"

section \<open>Blocks and bits\<close>

definition block_ptr :: "k_mem_pool \<Rightarrow> nat \<Rightarrow> nat \<Rightarrow> nat" where
  "block_ptr p lsz block = pool_buf p + lsz * block"

definition block_num :: "k_mem_pool \<Rightarrow> nat \<Rightarrow> nat \<Rightarrow> nat" where
  "block_num p block sz = (block - pool_buf p) div sz"

definition level_empty :: "k_mem_pool \<Rightarrow> nat \<Rightarrow> bool" where
  "level_empty p l \<longleftrightarrow> free_list (levels p ! l) = []"

text \<open>The words that \<^verbatim>\<open>bitarray\<close> designates for a level, and a change of one of them.\<close>

definition bit_words :: "k_mem_pool \<Rightarrow> nat \<Rightarrow> u32 list" where
  "bit_words p level =
     (if level \<le> max_inline_level p then [bits (levels p ! level)] else bits_array (levels p ! level))"

definition upd_word :: "k_mem_pool \<Rightarrow> nat \<Rightarrow> nat \<Rightarrow> (u32 \<Rightarrow> u32) \<Rightarrow> k_mem_pool" where
  "upd_word p level w f =
     upd_level level (\<lambda>lv. if level \<le> max_inline_level p then lv\<lparr>bits := f (bits lv)\<rparr>
       else lv\<lparr>bits_array := (bits_array lv)[w := f (bits_array lv ! w)]\<rparr>) p"

definition get_bit_ptr :: "k_mem_pool \<Rightarrow> nat \<Rightarrow> nat \<Rightarrow> (nat \<times> nat) option" where
  "get_bit_ptr p level bn = (if bn div 32 < length (bit_words p level) then Some (bn div 32, bn mod 32) else None)"

definition set_free_bit :: "k_mem_pool \<Rightarrow> nat \<Rightarrow> nat \<Rightarrow> k_mem_pool option" where
  "set_free_bit p level bn = do {
     (w, bit) \<leftarrow> get_bit_ptr p level bn;
     Some (upd_word p level w (\<lambda>word. word OR push_bit bit 1))
   }"

definition clear_free_bit :: "k_mem_pool \<Rightarrow> nat \<Rightarrow> nat \<Rightarrow> k_mem_pool option" where
  "clear_free_bit p level bn = do {
     (w, bit) \<leftarrow> get_bit_ptr p level bn;
     Some (upd_word p level w (\<lambda>word. word AND NOT (push_bit bit 1)))
   }"

definition partner_bits :: "k_mem_pool \<Rightarrow> nat \<Rightarrow> nat \<Rightarrow> u32 option" where
  "partner_bits p level bn = do {
     (w, bit) \<leftarrow> get_bit_ptr p level bn;
     Some (drop_bit (4 * (bit div 4)) (bit_words p level ! w) AND 0xf)
   }"

definition buf_size :: "k_mem_pool \<Rightarrow> nat" where
  "buf_size p = n_max p * max_sz p"

definition block_fits :: "k_mem_pool \<Rightarrow> nat \<Rightarrow> nat \<Rightarrow> bool" where
  "block_fits p block bsz \<longleftrightarrow> block + bsz - 1 - pool_buf p < buf_size p"

definition free_list_append :: "nat \<Rightarrow> nat \<Rightarrow> k_mem_pool \<Rightarrow> k_mem_pool" where
  "free_list_append l block p = upd_level l (\<lambda>lv. lv\<lparr>free_list := free_list lv @ [block]\<rparr>) p"

definition free_list_remove :: "nat \<Rightarrow> nat \<Rightarrow> k_mem_pool \<Rightarrow> k_mem_pool" where
  "free_list_remove l block p = upd_level l (\<lambda>lv. lv\<lparr>free_list := remove1 block (free_list lv)\<rparr>) p"

section \<open>Initialisation\<close>

text \<open>
  The two loops of \<^verbatim>\<open>init_mem_pool\<close>; \<open>n\<close> counts the iterations left, and \<open>bits_p\<close> is the running address of
  the arrays of bits. The memory of the pool is static data, hence zero.
\<close>

fun init_levels :: "nat \<Rightarrow> nat \<Rightarrow> nat \<Rightarrow> nat \<Rightarrow> nat \<Rightarrow> k_mem_pool \<Rightarrow> k_mem_pool" where
  "init_levels 0 i buflen sz bits_p p = p"
| "init_levels (Suc n) i buflen sz bits_p p =
     (let nblocks = buflen div sz;
          p1 = upd_level i (\<lambda>lv. lv\<lparr>free_list := []\<rparr>) p;
          words = (nblocks + 31) div 32
      in if nblocks < 32
         then init_levels n (i + 1) buflen (ALIGN4 (sz div 4)) bits_p (p1\<lparr>max_inline_level := i\<rparr>)
         else init_levels n (i + 1) buflen (ALIGN4 (sz div 4)) (bits_p + 4 * words)
                (upd_level i (\<lambda>lv. lv\<lparr>bits := of_nat bits_p, bits_array := replicate words 0\<rparr>) p1))"

fun init_blocks :: "nat \<Rightarrow> nat \<Rightarrow> k_mem_pool \<Rightarrow> k_mem_pool option" where
  "init_blocks 0 i p = Some p"
| "init_blocks (Suc n) i p = do {
     p1 \<leftarrow> set_free_bit (free_list_append 0 (block_ptr p (max_sz p) i) p) 0 i;
     init_blocks n (i + 1) p1
   }"

definition init_mem_pool :: "k_mem_pool \<Rightarrow> 'a kernel_scheme \<Rightarrow> (k_mem_pool \<times> 'a kernel_scheme) option" where
  "init_mem_pool p k = do {
     let k1 = k\<lparr>queues := (queues k)(WaitQ (pool_wait_q p) := [])\<rparr>;
     let buflen = n_max p * max_sz p;
     p1 \<leftarrow> init_blocks (n_max p) 0 (init_levels (n_levels p) 0 buflen (max_sz p) (pool_buf p + buflen) p);
     Some (p1, k1)
   }"

text \<open>
  The static definition of a pool. The macros compute the number of levels and the bytes that
  are reserved behind the buffer for the bits; a doubly-linked list node is 8 bytes.
\<close>

definition MPOOL_HAVE_LVL :: "nat \<Rightarrow> nat \<Rightarrow> nat \<Rightarrow> nat" where
  "MPOOL_HAVE_LVL mx mn l = (if drop_bit (2 * l) mx \<ge> mn then 1 else 0)"

definition MPOOL_MINBLK :: nat where
  "MPOOL_MINBLK = 8"

definition MPOOL_LVLS :: "nat \<Rightarrow> nat \<Rightarrow> nat" where
  "MPOOL_LVLS mx mn =
     (let m = if mn \<ge> MPOOL_MINBLK then mn else MPOOL_MINBLK in sum_list (map (MPOOL_HAVE_LVL mx m) [0..<16]))"

definition MPOOL_LBIT_WORDS_UNCLAMPED :: "nat \<Rightarrow> nat \<Rightarrow> nat" where
  "MPOOL_LBIT_WORDS_UNCLAMPED nmax l = (push_bit (2 * l) nmax + 31) div 32"

definition MPOOL_LBIT_WORDS :: "nat \<Rightarrow> nat \<Rightarrow> nat" where
  "MPOOL_LBIT_WORDS nmax l =
     (if MPOOL_LBIT_WORDS_UNCLAMPED nmax l < 2 then 0 else MPOOL_LBIT_WORDS_UNCLAMPED nmax l)"

definition MPOOL_LBIT_BYTES :: "nat \<Rightarrow> nat \<Rightarrow> nat \<Rightarrow> nat \<Rightarrow> nat" where
  "MPOOL_LBIT_BYTES maxsz minsz l nmax = (if MPOOL_LVLS maxsz minsz \<ge> l then 4 * MPOOL_LBIT_WORDS nmax l else 0)"

definition MPOOL_BITS_SIZE :: "nat \<Rightarrow> nat \<Rightarrow> nat \<Rightarrow> nat" where
  "MPOOL_BITS_SIZE maxsz minsz nmax = sum_list (map (\<lambda>l. MPOOL_LBIT_BYTES maxsz minsz l nmax) [0..<16])"

definition K_MEM_POOL_DEFINE :: "nat \<Rightarrow> waddr \<Rightarrow> nat \<Rightarrow> nat \<Rightarrow> nat \<Rightarrow> k_mem_pool" where
  "K_MEM_POOL_DEFINE buf w minsz maxsz nmax =
     \<lparr>pool_buf = buf, max_sz = maxsz, n_max = nmax, n_levels = MPOOL_LVLS maxsz minsz, max_inline_level = 0,
      levels = replicate (MPOOL_LVLS maxsz minsz) \<lparr>bits = 0, bits_array = [], free_list = []\<rparr>, pool_wait_q = w\<rparr>"

section \<open>Allocation\<close>

definition alloc_block :: "k_mem_pool \<Rightarrow> nat \<Rightarrow> nat \<Rightarrow> (nat option \<times> k_mem_pool) option" where
  "alloc_block p l lsz =
     (case free_list (levels p ! l) of
        [] \<Rightarrow> Some (None, p)
      | block # rest \<Rightarrow> do {
          p1 \<leftarrow> clear_free_bit (upd_level l (\<lambda>lv. lv\<lparr>free_list := rest\<rparr>) p) l (block_num p block lsz);
          Some (Some block, p1)
        })"

fun break_loop :: "nat list \<Rightarrow> nat \<Rightarrow> nat \<Rightarrow> nat \<Rightarrow> nat \<Rightarrow> k_mem_pool \<Rightarrow> k_mem_pool option" where
  "break_loop [] block bn l lsz p = Some p"
| "break_loop (i # is) block bn l lsz p = do {
     p1 \<leftarrow> set_free_bit p (l + 1) (4 * bn + i);
     let block2 = lsz * i + block;
     break_loop is block bn l lsz (if block_fits p1 block2 lsz then free_list_append (l + 1) block2 p1 else p1)
   }"

definition break_block :: "k_mem_pool \<Rightarrow> nat \<Rightarrow> nat \<Rightarrow> nat list \<Rightarrow> k_mem_pool option" where
  "break_block p block l lsizes =
     break_loop [1, 2, 3] block (block_num p block (lsizes ! l)) l (lsizes ! (l + 1)) p"

text \<open>The walk down the levels: \<open>n\<close> levels are left, \<open>i\<close> is the next; the sizes are collected on the way.\<close>

fun find_levels ::
  "k_mem_pool \<Rightarrow> nat \<Rightarrow> nat \<Rightarrow> nat \<Rightarrow> nat list \<Rightarrow> nat option \<Rightarrow> nat option \<Rightarrow> nat list \<times> nat option \<times> nat option" where
  "find_levels p want 0 i lsizes alloc_l free_l = (lsizes, alloc_l, free_l)"
| "find_levels p want (Suc n) i lsizes alloc_l free_l =
     (let lsz = (if i > 0 then ALIGN4 (lsizes ! (i - 1) div 4) else ALIGN4 (max_sz p));
          lsizes' = lsizes @ [lsz]
      in if lsz < want then (lsizes', alloc_l, free_l)
         else find_levels p want n (i + 1) lsizes' (Some i) (if level_empty p i then free_l else Some i))"

fun break_down :: "nat \<Rightarrow> nat \<Rightarrow> nat \<Rightarrow> nat list \<Rightarrow> k_mem_pool \<Rightarrow> k_mem_pool option" where
  "break_down 0 from_l blk lsizes p = Some p"
| "break_down (Suc n) from_l blk lsizes p = do {
     p1 \<leftarrow> break_block p blk from_l lsizes;
     break_down n (from_l + 1) blk lsizes p1
   }"

definition pool_alloc ::
  "nat \<Rightarrow> k_mem_pool \<Rightarrow> k_mem_block \<Rightarrow> nat \<Rightarrow> (int \<times> k_mem_block \<times> k_mem_pool) option" where
  "pool_alloc pool_id p block want =
     (case find_levels p want (n_levels p) 0 [] None None of
        (lsizes, Some alloc_l, Some free_l) \<Rightarrow> do {
          (r, p1) \<leftarrow> alloc_block p free_l (lsizes ! free_l);
          (case r of
             None \<Rightarrow> Some (- EAGAIN, block, p1)
           | Some blk \<Rightarrow> do {
               p2 \<leftarrow> break_down (alloc_l - free_l) free_l blk lsizes p1;
               Some (0, \<lparr>block_data = blk, id_pool = pool_id mod 2 ^ 8, id_level = alloc_l mod 2 ^ 4,
                         id_block = block_num p blk (lsizes ! alloc_l) mod 2 ^ 20\<rparr>, p2)
             })
        }
      | (_, _, _) \<Rightarrow> Some (- ENOMEM, block\<lparr>block_data := 0\<rparr>, p))"

section \<open>Freeing\<close>

fun clear_partners :: "nat list \<Rightarrow> nat \<Rightarrow> nat \<Rightarrow> nat \<Rightarrow> k_mem_pool \<Rightarrow> k_mem_pool option" where
  "clear_partners [] level lsz bn p = Some p"
| "clear_partners (i # is) level lsz bn p = do {
     let b = bn - bn mod 4 + i;
     p1 \<leftarrow> clear_free_bit p level b;
     clear_partners is level lsz bn
       (if b \<noteq> bn \<and> block_fits p1 (block_ptr p1 lsz b) lsz then free_list_remove level (block_ptr p1 lsz b) p1 else p1)
   }"

fun free_block :: "nat \<Rightarrow> nat list \<Rightarrow> nat \<Rightarrow> k_mem_pool \<Rightarrow> k_mem_pool option" where
  "free_block 0 lsizes bn p = do {
     p1 \<leftarrow> set_free_bit p 0 bn;
     Some (if block_fits p1 (block_ptr p1 (lsizes ! 0) bn) (lsizes ! 0)
           then free_list_append 0 (block_ptr p1 (lsizes ! 0) bn) p1 else p1)
   }"
| "free_block (Suc l) lsizes bn p = do {
     let lsz = lsizes ! Suc l;
     p1 \<leftarrow> set_free_bit p (Suc l) bn;
     pb \<leftarrow> partner_bits p1 (Suc l) bn;
     (if pb = 0xf
      then do {
        p2 \<leftarrow> clear_partners [0, 1, 2, 3] (Suc l) lsz bn p1;
        free_block l lsizes (bn div 4) p2
      }
      else Some (if block_fits p1 (block_ptr p1 lsz bn) lsz then free_list_append (Suc l) (block_ptr p1 lsz bn) p1 else p1))
   }"

fun level_sizes :: "nat \<Rightarrow> nat \<Rightarrow> nat list" where
  "level_sizes 0 sz = [sz]"
| "level_sizes (Suc n) sz = sz # level_sizes n (ALIGN4 (sz div 4))"

section \<open>The calls\<close>

text \<open>
  One turn of the loop of \<^verbatim>\<open>k_mem_pool_alloc\<close>: the result, or a pending thread. The variables of the
  call that live on while it waits, \<^verbatim>\<open>timeout\<close> and \<^verbatim>\<open>end\<close>, are arguments of the rest.
\<close>

definition alloc_turn ::
  "nat \<Rightarrow> k_mem_pool \<Rightarrow> k_mem_block \<Rightarrow> nat \<Rightarrow> int \<Rightarrow> 'a kernel_scheme \<Rightarrow>
   (int option \<times> k_mem_block \<times> k_mem_pool \<times> 'a kernel_scheme) option" where
  "alloc_turn pool_id p block want timeout k = do {
     (ret, block1, p1) \<leftarrow> pool_alloc pool_id p block want;
     Some (if ret = 0 \<or> timeout = K_NO_WAIT \<or> ret = - EAGAIN \<or> ret \<noteq> 0 \<and> ret \<noteq> - ENOMEM
           then (Some ret, block1, p1, k)
           else (None, block1, p1, Swap (pend_current_thread (pool_wait_q p) timeout k)))
   }"

definition k_mem_pool_alloc ::
  "nat \<Rightarrow> k_mem_pool \<Rightarrow> k_mem_block \<Rightarrow> nat \<Rightarrow> int \<Rightarrow> 'a kernel_scheme \<Rightarrow>
   (int option \<times> k_mem_block \<times> k_mem_pool \<times> 'a kernel_scheme) option" where
  "k_mem_pool_alloc pool_id p block want timeout k = alloc_turn pool_id p block want timeout k"

definition alloc_end :: "int \<Rightarrow> 'a kernel_scheme \<Rightarrow> int" where
  "alloc_end timeout k = (if timeout > 0 then tick_get k + ms_to_ticks timeout else 0)"

definition k_mem_pool_alloc_resume ::
  "nat \<Rightarrow> k_mem_pool \<Rightarrow> k_mem_block \<Rightarrow> nat \<Rightarrow> int \<Rightarrow> int \<Rightarrow> 'a kernel_scheme \<Rightarrow>
   (int option \<times> k_mem_block \<times> k_mem_pool \<times> 'a kernel_scheme) option" where
  "k_mem_pool_alloc_resume pool_id p block want timeout end_tick k =
     (if timeout \<noteq> K_FOREVER
      then let timeout' = to_s32 (end_tick - tick_get k)
           in if timeout' < 0 then Some (Some (- EAGAIN), block, p, k)
              else alloc_turn pool_id p block want timeout' k
      else alloc_turn pool_id p block want timeout k)"

function wake_waiters :: "waddr \<Rightarrow> 'a kernel_scheme \<Rightarrow> bool \<times> 'a kernel_scheme" where
  "wake_waiters w k =
     (case queues k (WaitQ w) of
        [] \<Rightarrow> (False, k)
      | th # _ \<Rightarrow>
          let k1 = unpend_thread th k;
              k2 = snd (abort_thread_timeout th k1);
              k3 = ready_thread th k2
          in (True, snd (wake_waiters w k3)))"
  by pat_completeness auto

termination
proof (relation "measure (\<lambda>(w, k). length (queues k (WaitQ w)))", simp, goal_cases)
  case (1 w k th rest k1 k2 k3)
  have "queues k3 (WaitQ w) = remove1 th (queues k (WaitQ w))"
    using 1 by (simp add: ready_thread_frame abort_thread_timeout_def abort_timeout_frame)
  with 1(1) show ?case by (simp add: length_remove1)
qed

declare wake_waiters.simps [simp del]

definition k_mem_pool_free ::
  "k_mem_block \<Rightarrow> k_mem_pool \<Rightarrow> 'a kernel_scheme \<Rightarrow> (k_mem_pool \<times> 'a kernel_scheme) option" where
  "k_mem_pool_free block p k = do {
     p1 \<leftarrow> free_block (id_level block) (level_sizes (id_level block) (ALIGN4 (max_sz p))) (id_block block) p;
     let (need_sched, k1) = wake_waiters (pool_wait_q p) k;
     Some (p1, if need_sched \<and> \<not> is_in_isr k1 then reschedule_threads k1 else k1)
   }"

section \<open>Geometry\<close>

text \<open>
  The documentation asks for a maximum block size that is the minimum size times a power of
  four; the pools of the source's identities have at most \<open>2 ^ 20\<close> blocks. The bits of the top level are
  always accessed inside it, which has room for 32.
\<close>

definition lsz :: "k_mem_pool \<Rightarrow> nat \<Rightarrow> nat" where
  "lsz p l = max_sz p div 4 ^ l"

definition nblk :: "k_mem_pool \<Rightarrow> nat \<Rightarrow> nat" where
  "nblk p l = n_max p * 4 ^ l"

definition pool_shape :: "k_mem_pool \<Rightarrow> bool" where
  "pool_shape p \<longleftrightarrow> 0 < n_levels p \<and> n_levels p \<le> 16 \<and> 0 < n_max p \<and> n_max p \<le> 32 \<and>
     (\<exists>m. max_sz p = 4 ^ (n_levels p - 1) * (4 * m) \<and> 0 < m) \<and> nblk p (n_levels p - 1) \<le> 2 ^ 20"

definition bits_ok :: "k_mem_pool \<Rightarrow> bool" where
  "bits_ok p \<longleftrightarrow> length (levels p) = n_levels p \<and>
     (\<forall>l < n_levels p. nblk p l \<le> 32 * length (bit_words p l))"

lemma ALIGN4_mult: "ALIGN4 (4 * n) = 4 * n"
  by (simp add: ALIGN4_def)

lemma lsz_Suc: "lsz p (Suc l) = lsz p l div 4"
  by (simp add: lsz_def mult.commute flip: div_mult2_eq)

lemma lsz_exact:
  assumes "pool_shape p" "l < n_levels p"
  obtains m where "lsz p l = 4 ^ (n_levels p - 1 - l) * (4 * m)" "0 < m"
proof -
  obtain m where m: "max_sz p = 4 ^ (n_levels p - 1) * (4 * m)" "0 < m" using assms(1) by (auto simp: pool_shape_def)
  have "(4::nat) ^ (n_levels p - 1) = 4 ^ (n_levels p - 1 - l) * 4 ^ l"
    using assms(2) by (simp flip: power_add)
  then have "lsz p l = 4 ^ (n_levels p - 1 - l) * (4 * m)" unfolding lsz_def m(1) by (simp add: ac_simps)
  with m(2) show thesis by (rule that [rotated])
qed

lemma lsz_props:
  assumes "pool_shape p" "l < n_levels p"
  shows "0 < lsz p l" "ALIGN4 (lsz p l) = lsz p l" "Suc l < n_levels p \<Longrightarrow> lsz p l = 4 * lsz p (Suc l)"
    "nblk p l * lsz p l = buf_size p"
proof -
  obtain m where m: "lsz p l = 4 ^ (n_levels p - 1 - l) * (4 * m)" "0 < m" by (rule lsz_exact [OF assms])
  then show "0 < lsz p l" by simp
  have "lsz p l = 4 * (4 ^ (n_levels p - 1 - l) * m)" using m by simp
  then show "ALIGN4 (lsz p l) = lsz p l" by (metis ALIGN4_mult)
  show "lsz p l = 4 * lsz p (Suc l)" if "Suc l < n_levels p"
  proof -
    have "n_levels p - 1 - l = Suc (n_levels p - 1 - Suc l)" using that by simp
    then have "lsz p l = 4 * (4 ^ (n_levels p - 1 - Suc l) * (4 * m))" using m(1) by (simp add: ac_simps)
    then show ?thesis by (simp add: lsz_Suc)
  qed
  have "4 ^ l dvd max_sz p"
    using assms by (auto simp: pool_shape_def intro!: dvd_mult2 le_imp_power_dvd)
  then show "nblk p l * lsz p l = buf_size p" by (simp add: nblk_def lsz_def buf_size_def)
qed

lemma nblk_Suc: "nblk p (Suc l) = 4 * nblk p l"
  by (simp add: nblk_def)

lemma fits:
  assumes "pool_shape p" "l < n_levels p" "b < nblk p l"
  shows "block_fits p (block_ptr p (lsz p l) b) (lsz p l)"
proof -
  have "lsz p l * Suc b \<le> lsz p l * nblk p l" using assms(3) by (intro mult_le_mono2) simp
  then have "lsz p l * b + lsz p l \<le> buf_size p" using lsz_props(4) [OF assms(1,2)] by (simp add: ac_simps)
  then show ?thesis using lsz_props(1) [OF assms(1,2)] by (simp add: block_fits_def block_ptr_def)
qed

lemma block_num_ptr: "0 < n \<Longrightarrow> block_num p (block_ptr p n b) n = b"
  by (simp add: block_num_def block_ptr_def)

section \<open>Free blocks\<close>

text \<open>The blocks whose bit is set.\<close>

definition free_bit :: "k_mem_pool \<Rightarrow> nat \<Rightarrow> nat \<Rightarrow> bool" where
  "free_bit p l b \<longleftrightarrow> bit (bit_words p l ! (b div 32)) (b mod 32)"

definition free_blocks :: "k_mem_pool \<Rightarrow> (nat \<times> nat) set" where
  "free_blocks p = {(l, b). l < n_levels p \<and> b < nblk p l \<and> free_bit p l b}"

text \<open>What the operations leave alone.\<close>

definition same_shape :: "k_mem_pool \<Rightarrow> k_mem_pool \<Rightarrow> bool" where
  "same_shape p p' \<longleftrightarrow> pool_buf p' = pool_buf p \<and> max_sz p' = max_sz p \<and> n_max p' = n_max p \<and> n_levels p' = n_levels p \<and>
     max_inline_level p' = max_inline_level p \<and> pool_wait_q p' = pool_wait_q p \<and>
     length (levels p') = length (levels p) \<and>
     (\<forall>l < length (levels p). length (bits_array (levels p' ! l)) = length (bits_array (levels p ! l)))"

lemma same_shape_refl [simp]: "same_shape p p"
  by (simp add: same_shape_def)

lemma same_shape_trans: "same_shape p q \<Longrightarrow> same_shape q r \<Longrightarrow> same_shape p r"
  by (simp add: same_shape_def)

lemma same_shapeD:
  assumes "same_shape p p'"
  shows "lsz p' l = lsz p l" "nblk p' l = nblk p l" "n_levels p' = n_levels p" "max_sz p' = max_sz p"
    "block_ptr p' n b = block_ptr p n b" "block_num p' a n = block_num p a n" "block_fits p' a n = block_fits p a n"
    "pool_shape p' = pool_shape p" "pool_wait_q p' = pool_wait_q p" "buf_size p' = buf_size p"
  using assms by (simp_all add: same_shape_def lsz_def nblk_def block_ptr_def block_num_def block_fits_def buf_size_def pool_shape_def)

lemma same_shape_bits_ok: "same_shape p p' \<Longrightarrow> bits_ok p \<Longrightarrow> bits_ok p'"
  by (auto simp: same_shape_def bits_ok_def nblk_def bit_words_def split: if_splits)

lemma get_bit_ptr_ok:
  assumes "bits_ok p" "l < n_levels p" "b < nblk p l"
  shows "get_bit_ptr p l b = Some (b div 32, b mod 32)" "b div 32 < length (bit_words p l)"
proof -
  have "b < 32 * length (bit_words p l)" using assms by (auto simp: bits_ok_def intro: less_le_trans)
  then show "b div 32 < length (bit_words p l)" by (simp add: less_mult_imp_div_less mult.commute)
  then show "get_bit_ptr p l b = Some (b div 32, b mod 32)" using assms by (auto simp: get_bit_ptr_def bits_ok_def)
qed

lemma upd_level_simps:
  "pool_buf (upd_level l f p) = pool_buf p" "max_sz (upd_level l f p) = max_sz p" "n_max (upd_level l f p) = n_max p"
  "n_levels (upd_level l f p) = n_levels p" "max_inline_level (upd_level l f p) = max_inline_level p"
  "pool_wait_q (upd_level l f p) = pool_wait_q p" "length (levels (upd_level l f p)) = length (levels p)"
  "i < length (levels p) \<Longrightarrow> levels (upd_level l f p) ! i = (if i = l then f (levels p ! i) else levels p ! i)"
  by (simp_all add: upd_level_def)

lemma upd_word_words:
  assumes "i < length (levels p)" "w < length (bit_words p l)"
  shows "bit_words (upd_word p l w f) i = (if i = l then (bit_words p l)[w := f (bit_words p l ! w)] else bit_words p i)"
  using assms by (cases "l \<le> max_inline_level p") (auto simp: bit_words_def upd_word_def upd_level_simps)

lemma bits_update:
  assumes p: "bits_ok p" "l < n_levels p" "b < nblk p l"
    and g: "\<And>w i. i < 32 \<Longrightarrow> bit (g w) i \<longleftrightarrow> (if i = b mod 32 then v else bit w i)"
  defines "p' \<equiv> upd_word p l (b div 32) g"
  shows "same_shape p p'" "free_blocks p' = (if v then insert (l, b) (free_blocks p) else free_blocks p - {(l, b)})"
    "i < n_levels p \<Longrightarrow> free_list (levels p' ! i) = free_list (levels p ! i)"
proof -
  have len: "length (levels p) = n_levels p" using p(1) by (simp add: bits_ok_def)
  note in_range = get_bit_ptr_ok(2) [OF p]
  show s: "same_shape p p'" using p(2) len by (auto simp: same_shape_def p'_def upd_word_def upd_level_simps)
  show "i < n_levels p \<Longrightarrow> free_list (levels p' ! i) = free_list (levels p ! i)"
    using len by (simp add: p'_def upd_word_def upd_level_simps)
  have "free_bit p' l' b' \<longleftrightarrow> (if l' = l \<and> b' = b then v else free_bit p l' b')" if "l' < n_levels p" "b' < nblk p l'" for l' b'
  proof (cases "l' = l \<and> b' div 32 = b div 32")
    case True
    then have "b' = b \<longleftrightarrow> b' mod 32 = b mod 32" by (metis mult_div_mod_eq)
    with True in_range p(2) len show ?thesis by (simp add: free_bit_def p'_def upd_word_words g)
  next
    case False
    then have "\<not> (l' = l \<and> b' = b)" by auto
    with False that in_range len show ?thesis by (auto simp: free_bit_def p'_def upd_word_words nth_list_update)
  qed
  with p(2,3) show "free_blocks p' = (if v then insert (l, b) (free_blocks p) else free_blocks p - {(l, b)})"
    by (auto simp: free_blocks_def same_shapeD [OF s] split: if_splits)
qed

lemma set_free_bit_spec:
  assumes p: "bits_ok p" "l < n_levels p" "b < nblk p l"
  obtains p' where "set_free_bit p l b = Some p'" "same_shape p p'" "free_blocks p' = insert (l, b) (free_blocks p)"
    "\<And>i. i < n_levels p \<Longrightarrow> free_list (levels p' ! i) = free_list (levels p ! i)"
proof -
  let ?g = "\<lambda>w :: u32. w OR push_bit (b mod 32) 1"
  have g: "bit (?g w) i \<longleftrightarrow> (if i = b mod 32 then True else bit w i)" if "i < 32" for w i
    using that by (auto simp: bit_simps)
  note u = bits_update [OF p g, simplified]
  show thesis
    by (rule that [OF _ u]) (simp_all add: set_free_bit_def get_bit_ptr_ok [OF p])
qed

lemma clear_free_bit_spec:
  assumes p: "bits_ok p" "l < n_levels p" "b < nblk p l"
  obtains p' where "clear_free_bit p l b = Some p'" "same_shape p p'" "free_blocks p' = free_blocks p - {(l, b)}"
    "\<And>i. i < n_levels p \<Longrightarrow> free_list (levels p' ! i) = free_list (levels p ! i)"
proof -
  let ?g = "\<lambda>w :: u32. w AND NOT (push_bit (b mod 32) 1)"
  have g: "bit (?g w) i \<longleftrightarrow> (if i = b mod 32 then False else bit w i)" if "i < 32" for w i
    using that by (auto simp: bit_simps)
  note u = bits_update [OF p g, simplified]
  show thesis
    by (rule that [OF _ u]) (simp_all add: clear_free_bit_def get_bit_ptr_ok [OF p])
qed

definition partners :: "nat \<Rightarrow> nat \<Rightarrow> (nat \<times> nat) set" where
  "partners l b = {(l, 4 * (b div 4) + i) |i. i < 4}"

lemma partner_word:
  fixes b i :: nat
  assumes "i < 4"
  shows "(4 * (b div 4) + i) div 32 = b div 32" "(4 * (b div 4) + i) mod 32 = 4 * (b mod 32 div 4) + i"
proof -
  define q r where "q = b div 32" and "r = b mod 32"
  have b: "b = 32 * q + r" "r < 32" by (simp_all add: q_def r_def)
  then have "b div 4 = 8 * q + r div 4" by simp
  then have e: "4 * (b div 4) + i = 32 * q + (4 * (r div 4) + i)" by simp
  have "4 * (r div 4) + i < 32" using b(2) assms by presburger
  then show "(4 * (b div 4) + i) div 32 = b div 32" "(4 * (b div 4) + i) mod 32 = 4 * (b mod 32 div 4) + i"
    unfolding e q_def [symmetric] r_def [symmetric] by simp_all
qed

lemma and_15_iff: "w AND 0xf = 0xf \<longleftrightarrow> (\<forall>i < 4. bit w i)" for w :: u32
proof -
  have lt: "i < 4 \<Longrightarrow> i < 32" for i :: nat by simp
  have m: "(0xf :: u32) = mask 4" by (simp add: mask_eq_exp_minus_1)
  have "w AND mask 4 = mask 4 \<longleftrightarrow> (\<forall>i < 32. bit w i \<and> i < 4 \<longleftrightarrow> i < 4)" by (simp add: bit_eq_iff bit_simps)
  also have "\<dots> \<longleftrightarrow> (\<forall>i < 4. bit w i)" using lt by blast
  finally show ?thesis unfolding m .
qed

lemma partner_less:
  assumes "b < nblk p l" "0 < l" "i < 4"
  shows "4 * (b div 4) + i < nblk p l"
proof -
  obtain k where "l = Suc k" using assms(2) by (cases l) auto
  then have "4 dvd nblk p l" by (simp add: nblk_Suc)
  with assms(1,3) show ?thesis by presburger
qed

lemma partner_bits_spec:
  assumes p: "bits_ok p" "l < n_levels p" "b < nblk p l" "0 < l"
  obtains x where "partner_bits p l b = Some x" "x = 0xf \<longleftrightarrow> partners l b \<subseteq> free_blocks p"
proof -
  let ?w = "bit_words p l ! (b div 32)" and ?n = "4 * (b mod 32 div 4)"
  have q: "partner_bits p l b = Some (drop_bit ?n ?w AND 0xf)" by (simp add: partner_bits_def get_bit_ptr_ok [OF p(1-3)])
  have lt: "4 * (b div 4) + i < nblk p l" if "i < 4" for i by (rule partner_less [OF p(3,4) that])
  have "drop_bit ?n ?w AND 0xf = 0xf \<longleftrightarrow> (\<forall>i < 4. bit ?w (?n + i))"
    unfolding and_15_iff by (simp add: bit_drop_bit_eq)
  also have "\<dots> \<longleftrightarrow> (\<forall>i < 4. (l, 4 * (b div 4) + i) \<in> free_blocks p)"
    using lt p(2) by (simp add: free_blocks_def free_bit_def partner_word)
  also have "\<dots> \<longleftrightarrow> partners l b \<subseteq> free_blocks p" by (auto simp: partners_def)
  finally show thesis by (rule that [OF q])
qed

section \<open>Bits and lists\<close>

text \<open>
  The pool \<open>p\<close> has the shape of \<open>g\<close>, the bits of exactly the blocks \<open>F\<close> are set, and exactly the blocks \<open>L\<close>
  are in the free lists. Outside of the operations \<open>F = L\<close>.
\<close>

definition rep :: "k_mem_pool \<Rightarrow> k_mem_pool \<Rightarrow> (nat \<times> nat) set \<Rightarrow> (nat \<times> nat) set \<Rightarrow> bool" where
  "rep g p F L \<longleftrightarrow> pool_shape g \<and> bits_ok p \<and> same_shape g p \<and> free_blocks p = F \<and>
     (\<forall>l < n_levels g. distinct (free_list (levels p ! l)) \<and>
        set (free_list (levels p ! l)) = {block_ptr g (lsz g l) b |b. (l, b) \<in> L})"

definition valid :: "k_mem_pool \<Rightarrow> nat \<times> nat \<Rightarrow> bool" where
  "valid g t \<longleftrightarrow> fst t < n_levels g \<and> snd t < nblk g (fst t)"

lemma repD:
  assumes "rep g p F L"
  shows "pool_shape g" "bits_ok p" "same_shape g p" "free_blocks p = F"
    "l < n_levels g \<Longrightarrow> distinct (free_list (levels p ! l))"
    "l < n_levels g \<Longrightarrow> set (free_list (levels p ! l)) = {block_ptr g (lsz g l) b |b. (l, b) \<in> L}"
    "length (levels p) = n_levels g"
  using assms by (auto simp: rep_def bits_ok_def same_shape_def)

lemma rep_valid: "rep g p F L \<Longrightarrow> t \<in> F \<Longrightarrow> valid g t"
  by (auto simp: rep_def free_blocks_def valid_def same_shapeD)

lemma block_ptr_inj: "pool_shape g \<Longrightarrow> l < n_levels g \<Longrightarrow> block_ptr g (lsz g l) b = block_ptr g (lsz g l) c \<longleftrightarrow> b = c"
  using lsz_props(1) by (force simp: block_ptr_def)

lemma rep_set:
  assumes "rep g p F L" "valid g (l, b)"
  obtains p' where "set_free_bit p l b = Some p'" "rep g p' (insert (l, b) F) L"
proof -
  note r = repD [OF assms(1)]
  note s = same_shapeD [OF r(3)]
  have v: "l < n_levels p" "b < nblk p l" using assms(2) s by (auto simp: valid_def)
  obtain p' where p': "set_free_bit p l b = Some p'" "same_shape p p'" "free_blocks p' = insert (l, b) (free_blocks p)"
    "\<And>i. i < n_levels p \<Longrightarrow> free_list (levels p' ! i) = free_list (levels p ! i)" by (rule set_free_bit_spec [OF r(2) v]) blast
  show thesis using assms(1) p'
    by (intro that [OF p'(1)]) (auto simp: rep_def s intro: same_shape_bits_ok same_shape_trans)
qed

lemma rep_clear:
  assumes "rep g p F L" "valid g (l, b)"
  obtains p' where "clear_free_bit p l b = Some p'" "rep g p' (F - {(l, b)}) L"
proof -
  note r = repD [OF assms(1)]
  note s = same_shapeD [OF r(3)]
  have v: "l < n_levels p" "b < nblk p l" using assms(2) s by (auto simp: valid_def)
  obtain p' where p': "clear_free_bit p l b = Some p'" "same_shape p p'" "free_blocks p' = free_blocks p - {(l, b)}"
    "\<And>i. i < n_levels p \<Longrightarrow> free_list (levels p' ! i) = free_list (levels p ! i)" by (rule clear_free_bit_spec [OF r(2) v]) blast
  show thesis using assms(1) p'
    by (intro that [OF p'(1)]) (auto simp: rep_def s intro: same_shape_bits_ok same_shape_trans)
qed

lemma free_list_upd:
  assumes "rep g p F L" "l < n_levels g" "distinct xs" "set xs = {block_ptr g (lsz g l) b |b. (l, b) \<in> L'}"
    "\<And>i b. i \<noteq> l \<Longrightarrow> (i, b) \<in> L' \<longleftrightarrow> (i, b) \<in> L"
  shows "rep g (upd_level l (\<lambda>lv. lv\<lparr>free_list := xs\<rparr>) p) F L'"
proof -
  let ?q = "upd_level l (\<lambda>lv. lv\<lparr>free_list := xs\<rparr>) p"
  note r = repD [OF assms(1)]
  have s: "same_shape p ?q" by (auto simp: same_shape_def upd_level_simps)
  have "free_blocks ?q = free_blocks p"
    using r(7) same_shapeD(3) [OF r(3)] by (auto simp: free_blocks_def same_shapeD [OF s] free_bit_def bit_words_def upd_level_simps split: if_splits)
  with assms r s show ?thesis by (auto simp: rep_def upd_level_simps intro: same_shape_bits_ok same_shape_trans)
qed

lemma rep_append:
  assumes "rep g p F L" "l < n_levels g" "(l, b) \<notin> L"
  shows "rep g (free_list_append l (block_ptr g (lsz g l) b) p) F (insert (l, b) L)"
proof -
  note r = repD [OF assms(1)]
  have "rep g (upd_level l (\<lambda>lv. lv\<lparr>free_list := free_list (levels p ! l) @ [block_ptr g (lsz g l) b]\<rparr>) p) F (insert (l, b) L)"
    using r(5,6) [OF assms(2)] assms(3) by (intro free_list_upd [OF assms(1,2)]) (auto simp: block_ptr_inj [OF r(1) assms(2)])
  then show ?thesis by (simp add: free_list_append_def upd_level_def)
qed

lemma rep_remove:
  assumes "rep g p F L" "l < n_levels g"
  shows "rep g (free_list_remove l (block_ptr g (lsz g l) b) p) F (L - {(l, b)})"
proof -
  note r = repD [OF assms(1)]
  have "rep g (upd_level l (\<lambda>lv. lv\<lparr>free_list := remove1 (block_ptr g (lsz g l) b) (free_list (levels p ! l))\<rparr>) p) F (L - {(l, b)})"
    using r(5,6) [OF assms(2)] by (intro free_list_upd [OF assms(1,2)]) (auto simp: block_ptr_inj [OF r(1) assms(2)])
  then show ?thesis by (simp add: free_list_remove_def upd_level_def)
qed

lemma rep_fits: "rep g p F L \<Longrightarrow> valid g (l, b) \<Longrightarrow> block_fits p (block_ptr g (lsz g l) b) (lsz g l)"
  using fits [of g l b] by (simp add: valid_def rep_def same_shapeD(7) [of g p])

lemma rep_release:
  assumes "rep g p F L" "valid g (l, b)" "(l, b) \<notin> L"
  obtains p' where "set_free_bit p l b = Some p'" "rep g p' (insert (l, b) F) L"
    "rep g (free_list_append l (block_ptr g (lsz g l) b) p') (insert (l, b) F) (insert (l, b) L)"
proof -
  obtain p' where p': "set_free_bit p l b = Some p'" "rep g p' (insert (l, b) F) L" by (rule rep_set [OF assms(1,2)])
  have l: "l < n_levels g" using assms(2) by (simp add: valid_def)
  show thesis by (rule that [OF p' rep_append [OF p'(2) l assms(3)]])
qed

lemma break_loop_spec:
  assumes "rep g p F F" "Suc l < n_levels g" "b < nblk g l" "set is \<subseteq> {1, 2, 3}" "distinct is"
    "\<forall>i \<in> set is. (Suc l, 4 * b + i) \<notin> F"
  shows "\<exists>p'. break_loop is (block_ptr g (lsz g l) b) b l (lsz g (Suc l)) p = Some p' \<and>
    rep g p' (F \<union> {(Suc l, 4 * b + i) |i. i \<in> set is}) (F \<union> {(Suc l, 4 * b + i) |i. i \<in> set is})"
  using assms(1,4-)
proof (induction "is" arbitrary: p F)
  case (Cons i "is")
  have v: "valid g (Suc l, 4 * b + i)" using Cons.prems(2) assms(2,3) by (auto simp: valid_def nblk_Suc)
  have ptr: "lsz g (Suc l) * i + block_ptr g (lsz g l) b = block_ptr g (lsz g (Suc l)) (4 * b + i)"
    using lsz_props(3) [OF repD(1) [OF assms(1)], of l] assms(2) by (simp add: block_ptr_def algebra_simps)
  have new: "(Suc l, 4 * b + i) \<notin> F" using Cons.prems(4) by simp
  obtain p1 where p1: "set_free_bit p (Suc l) (4 * b + i) = Some p1"
    and r1: "rep g p1 (insert (Suc l, 4 * b + i) F) F"
    and r2: "rep g (free_list_append (Suc l) (block_ptr g (lsz g (Suc l)) (4 * b + i)) p1)
      (insert (Suc l, 4 * b + i) F) (insert (Suc l, 4 * b + i) F)"
    by (rule rep_release [OF Cons.prems(1) v new])
  have "insert (Suc l, 4 * b + i) F \<union> {(Suc l, 4 * b + j) |j. j \<in> set is} = F \<union> {(Suc l, 4 * b + j) |j. j \<in> set (i # is)}"
    by auto
  moreover have "\<forall>j \<in> set is. (Suc l, 4 * b + j) \<notin> insert (Suc l, 4 * b + i) F" using Cons.prems by auto
  ultimately show ?case using Cons.IH [OF r2] Cons.prems by (simp add: p1 ptr rep_fits [OF r1 v])
qed simp

definition children :: "nat \<Rightarrow> nat \<Rightarrow> (nat \<times> nat) set" where
  "children l b = {(Suc l, 4 * b + i) |i. i \<in> {1, 2, 3}}"

lemma break_block_spec:
  assumes r: "rep g p F F" and l: "Suc l < n_levels g" "b < nblk g l" and new: "children l b \<inter> F = {}"
    and sizes: "lsizes ! l = lsz g l" "lsizes ! Suc l = lsz g (Suc l)"
  obtains p' where "break_block p (block_ptr g (lsz g l) b) l lsizes = Some p'" "rep g p' (F \<union> children l b) (F \<union> children l b)"
proof -
  have "block_num p (block_ptr g (lsz g l) b) (lsz g l) = b"
    using same_shapeD(6) [OF repD(3) [OF r]] lsz_props(1) [OF repD(1) [OF r], of l] l(1) by (simp add: block_num_ptr)
  moreover have "\<exists>p'. break_loop [1, 2, 3] (block_ptr g (lsz g l) b) b l (lsz g (Suc l)) p = Some p' \<and>
      rep g p' (F \<union> children l b) (F \<union> children l b)"
    using break_loop_spec [OF r l, of "[1, 2, 3]"] new by (simp add: children_def disjoint_iff del: break_loop.simps)
  ultimately show thesis using sizes by (auto simp: break_block_def intro: that)
qed

lemma alloc_block_spec:
  assumes r: "rep g p F F" and l: "l < n_levels g" and ne: "\<not> level_empty p l"
  obtains b p' where "alloc_block p l (lsz g l) = Some (Some (block_ptr g (lsz g l) b), p')" "(l, b) \<in> F"
    "rep g p' (F - {(l, b)}) (F - {(l, b)})"
proof -
  note d = repD [OF r]
  obtain a rest where q: "free_list (levels p ! l) = a # rest" using ne by (cases "free_list (levels p ! l)") (auto simp: level_empty_def)
  obtain b where b: "a = block_ptr g (lsz g l) b" "(l, b) \<in> F" using d(6) [OF l] q by auto
  have v: "valid g (l, b)" by (rule rep_valid [OF r b(2)])
  have rest: "distinct rest" "set rest = set (free_list (levels p ! l)) - {a}" using d(5) [OF l] q by auto
  have r1: "rep g (upd_level l (\<lambda>lv. lv\<lparr>free_list := rest\<rparr>) p) F (F - {(l, b)})"
    unfolding rest(2) by (intro free_list_upd [OF r l rest(1)]) (auto simp: rest(2) d(6) [OF l] b(1) block_ptr_inj [OF d(1) l])
  obtain p' where "clear_free_bit (upd_level l (\<lambda>lv. lv\<lparr>free_list := rest\<rparr>) p) l b = Some p'" "rep g p' (F - {(l, b)}) (F - {(l, b)})"
    by (rule rep_clear [OF r1 v])
  moreover have "block_num p a (lsz g l) = b"
    using same_shapeD(6) [OF d(3)] lsz_props(1) [OF d(1) l] b(1) by (simp add: block_num_ptr)
  ultimately show thesis using that b by (simp add: alloc_block_def q)
qed

lemma level_empty_iff: "rep g p F F \<Longrightarrow> l < n_levels g \<Longrightarrow> level_empty p l \<longleftrightarrow> (\<forall>b. (l, b) \<notin> F)"
  using repD(6) [of g p F F l] by (auto simp: level_empty_def)

lemma clear_partners_spec:
  assumes "rep g p F L" "0 < l" "valid g (l, bn)" "set is \<subseteq> {..<4}" "distinct is" "(l, bn) \<notin> L"
  shows "\<exists>p'. clear_partners is l (lsz g l) bn p = Some p' \<and>
    rep g p' (F - {(l, 4 * (bn div 4) + i) |i. i \<in> set is}) (L - {(l, 4 * (bn div 4) + i) |i. i \<in> set is})"
  using assms(1,4-)
proof (induction "is" arbitrary: p F L)
  case (Cons i "is")
  let ?b = "4 * (bn div 4) + i"
  have v: "valid g (l, ?b)" using assms(3) Cons.prems(2) partner_less [OF _ assms(2)] by (simp add: valid_def)
  obtain p1 where p1: "clear_free_bit p l ?b = Some p1" and r1: "rep g p1 (F - {(l, ?b)}) L" by (rule rep_clear [OF Cons.prems(1) v])
  have ptr: "block_ptr p1 (lsz g l) ?b = block_ptr g (lsz g l) ?b" by (rule same_shapeD(5) [OF repD(3) [OF r1]])
  define p2 where "p2 = (if ?b \<noteq> bn then free_list_remove l (block_ptr g (lsz g l) ?b) p1 else p1)"
  have "rep g p2 (F - {(l, ?b)}) (L - {(l, ?b)})"
    using r1 rep_remove [OF r1, of l] Cons.prems(4) v by (auto simp: p2_def valid_def)
  from Cons.IH [OF this] Cons.prems obtain p' where "clear_partners is l (lsz g l) bn p2 = Some p'"
    "rep g p' (F - {(l, ?b)} - {(l, 4 * (bn div 4) + i) |i. i \<in> set is}) (L - {(l, ?b)} - {(l, 4 * (bn div 4) + i) |i. i \<in> set is})"
    by auto
  moreover have "X - {(l, ?b)} - {(l, 4 * (bn div 4) + i) |i. i \<in> set is} = X - {(l, 4 * (bn div 4) + j) |j. j \<in> set (i # is)}" for X
    by auto
  ultimately show ?case
    using p1 by (cases "?b = bn") (simp_all add: ptr rep_fits [OF r1 v] minus_mod_eq_mult_div Let_def p2_def)
qed simp

section \<open>Tilings\<close>

text \<open>
  A block covers the bytes of the buffer at offsets \<open>x\<close>; a set of blocks tiles the buffer when every
  byte is in exactly one of them. Splitting a block and merging four partners keep tilings.
\<close>

definition covers :: "k_mem_pool \<Rightarrow> nat \<times> nat \<Rightarrow> nat \<Rightarrow> bool" where
  "covers g t x \<longleftrightarrow> x div lsz g (fst t) = snd t"

definition tiles :: "k_mem_pool \<Rightarrow> (nat \<times> nat) set \<Rightarrow> bool" where
  "tiles g S \<longleftrightarrow> (\<forall>t \<in> S. valid g t) \<and> (\<forall>x < buf_size g. \<exists>!t. t \<in> S \<and> covers g t x)"

lemma valid_byte:
  assumes "pool_shape g" "valid g t"
  obtains x where "x < buf_size g" "covers g t x"
proof -
  have l: "0 < lsz g (fst t)" using assms by (simp add: lsz_props valid_def)
  have e: "nblk g (fst t) * lsz g (fst t) = buf_size g" using assms by (simp add: lsz_props valid_def)
  have "snd t * lsz g (fst t) < nblk g (fst t) * lsz g (fst t)" using l assms(2) by (intro mult_less_mono1) (simp_all add: valid_def)
  then have "snd t * lsz g (fst t) < buf_size g" unfolding e .
  with l show thesis by (intro that [of "snd t * lsz g (fst t)"]) (simp_all add: covers_def)
qed

lemma tiles_replace:
  assumes "tiles g (P \<union> R)" "\<forall>t \<in> Q. valid g t" "\<And>x. (\<exists>t \<in> P. covers g t x) \<longleftrightarrow> (\<exists>t \<in> Q. covers g t x)"
    "\<And>s t x. s \<in> Q \<Longrightarrow> t \<in> Q \<Longrightarrow> covers g s x \<Longrightarrow> covers g t x \<Longrightarrow> s = t" "P \<inter> R = {}"
    "pool_shape g"
  shows "tiles g (Q \<union> R)" "Q \<inter> R = {}"
proof -
  have one: "\<exists>!t. t \<in> Q \<union> R \<and> covers g t x" if "x < buf_size g" for x
  proof -
    have "\<exists>!t. t \<in> P \<union> R \<and> covers g t x" using assms(1) that by (simp add: tiles_def)
    then obtain t where t: "t \<in> P \<union> R" "covers g t x" "\<And>s. s \<in> P \<union> R \<Longrightarrow> covers g s x \<Longrightarrow> s = t" by blast
    show ?thesis
    proof (cases "t \<in> P")
      case True
      then obtain q where "q \<in> Q" "covers g q x" using assms(3) t(2) by blast
      moreover have "\<not> covers g s x" if "s \<in> R" for s using t(3) True assms(5) that by blast
      ultimately show ?thesis using assms(4) by blast
    next
      case False
      then have "\<not> (\<exists>s \<in> Q. covers g s x)" using t assms(3) [of x] by blast
      with t False show ?thesis by blast
    qed
  qed
  with assms(1,2) show "tiles g (Q \<union> R)" by (auto simp: tiles_def)
  show "Q \<inter> R = {}"
  proof (rule ccontr)
    assume "Q \<inter> R \<noteq> {}"
    then obtain l b where t: "(l, b) \<in> Q" "(l, b) \<in> R" by auto
    then obtain x where "x < buf_size g" "covers g (l, b) x" using valid_byte [OF assms(6)] assms(2) by blast
    with t assms(1,3,5) show False unfolding tiles_def by blast
  qed
qed

text \<open>The four blocks of the next level that make up a block.\<close>

definition family :: "nat \<Rightarrow> nat \<Rightarrow> (nat \<times> nat) set" where
  "family l b = {(Suc l, 4 * b + i) |i. i < 4}"

lemma partners_family: "partners (Suc l) b = family l (b div 4)"
  by (simp add: partners_def family_def)

lemma family_children: "family l b = insert (Suc l, 4 * b) (children l b)"
proof -
  have four: "{i :: nat. i < 4} = {0, 1, 2, 3}" by auto
  have "family l b = (\<lambda>i. (Suc l, 4 * b + i)) ` {i. i < 4}" by (auto simp: family_def)
  moreover have "children l b = (\<lambda>i. (Suc l, 4 * b + i)) ` {1, 2, 3}" unfolding children_def by blast
  ultimately show ?thesis unfolding four by simp
qed

lemma in_family: "(m, c) \<in> family l b \<longleftrightarrow> m = Suc l \<and> c div 4 = b"
  unfolding family_def by (auto intro: exI [of _ "c mod 4"])

lemma covers_family:
  assumes "pool_shape g" "Suc l < n_levels g"
  shows "covers g (l, b) x \<longleftrightarrow> (\<exists>t \<in> family l b. covers g t x)"
proof -
  have "x div lsz g l = x div lsz g (Suc l) div 4"
    using lsz_props(3) [OF assms(1), of l] assms(2) by (simp add: mult.commute flip: div_mult2_eq)
  then show ?thesis by (auto simp: covers_def in_family intro: bexI [of _ "(Suc l, x div lsz g (Suc l))"])
qed

lemma valid_family:
  assumes "valid g (l, b)" "Suc l < n_levels g" "t \<in> family l b"
  shows "valid g t"
  using assms by (auto simp: valid_def family_def nblk_Suc)

lemma tiles_split:
  assumes "pool_shape g" "tiles g (insert (l, b) R)" "(l, b) \<notin> R" "Suc l < n_levels g"
  shows "tiles g (family l b \<union> R)" "family l b \<inter> R = {}"
proof -
  have v: "valid g (l, b)" using assms(2) by (simp add: tiles_def)
  have "\<And>s t x. s \<in> family l b \<Longrightarrow> t \<in> family l b \<Longrightarrow> covers g s x \<Longrightarrow> covers g t x \<Longrightarrow> s = t"
    by (auto simp: family_def covers_def)
  with tiles_replace [of g "{(l, b)}" R "family l b"] assms valid_family [OF v assms(4)]
  show "tiles g (family l b \<union> R)" "family l b \<inter> R = {}" by (simp_all add: covers_family [OF assms(1,4)])
qed

lemma tiles_merge:
  assumes "pool_shape g" "tiles g (family l b \<union> R)" "family l b \<inter> R = {}" "Suc l < n_levels g"
  shows "tiles g (insert (l, b) R)" "(l, b) \<notin> R"
proof -
  have "valid g (Suc l, 4 * b)" using assms(2) by (auto simp: tiles_def family_def)
  then have "valid g (l, b)" by (simp add: valid_def nblk_Suc)
  with tiles_replace [of g "family l b" R "{(l, b)}"] assms
  show "tiles g (insert (l, b) R)" "(l, b) \<notin> R" by (simp_all add: covers_family [OF assms(1,4)])
qed

text \<open>
  The invariant of a pool: the free blocks \<open>F\<close> and the allocated blocks \<open>A\<close> tile the buffer, and no four
  partners are free. While an operation runs it holds one more block.
\<close>

definition merged :: "(nat \<times> nat) set \<Rightarrow> bool" where
  "merged F \<longleftrightarrow> (\<forall>l b. \<not> family l b \<subseteq> F)"

lemma merged_mono: "merged F \<Longrightarrow> G \<subseteq> F \<Longrightarrow> merged G"
  unfolding merged_def by blast

definition tiled :: "k_mem_pool \<Rightarrow> (nat \<times> nat) set \<Rightarrow> (nat \<times> nat) set \<Rightarrow> bool" where
  "tiled g F A \<longleftrightarrow> tiles g (F \<union> A) \<and> F \<inter> A = {} \<and> merged F"

lemma tiled_split:
  assumes "pool_shape g" "tiled g F (insert (l, b) A)" "(l, b) \<notin> A" "Suc l < n_levels g"
  shows "tiled g (F \<union> children l b) (insert (Suc l, 4 * b) A)" "(Suc l, 4 * b) \<notin> A" "children l b \<inter> F = {}"
proof -
  have t: "tiles g (insert (l, b) (F \<union> A))" "(l, b) \<notin> F \<union> A" "F \<inter> A = {}" "merged F"
    using assms(2,3) by (auto simp: tiled_def)
  note s = tiles_split [OF assms(1) t(1,2) assms(4)]
  have "\<not> family l' b' \<subseteq> F \<union> children l b" for l' b'
  proof
    assume f: "family l' b' \<subseteq> F \<union> children l b"
    then obtain c where "(Suc l', c) \<in> family l' b'" "(Suc l', c) \<in> children l b" using t(4) by (force simp: merged_def family_def)
    then have "l' = l" "b' = b" using family_children [of l b] by (auto simp: in_family children_def)
    then show False using f s(2) by (auto simp: family_children children_def)
  qed
  then have m: "merged (F \<union> children l b)" by (simp add: merged_def)
  have e: "F \<union> children l b \<union> insert (Suc l, 4 * b) A = family l b \<union> (F \<union> A)" by (auto simp: family_children)
  show "tiled g (F \<union> children l b) (insert (Suc l, 4 * b) A)"
    unfolding tiled_def e using s t(3) m by (auto simp: family_children children_def)
  show "(Suc l, 4 * b) \<notin> A" "children l b \<inter> F = {}" using s(2) by (auto simp: family_children)
qed

lemma tiled_merge:
  assumes "pool_shape g" "tiled g F (insert (Suc l, b) A)" "(Suc l, b) \<notin> A" "Suc l < n_levels g"
    "family l (b div 4) \<subseteq> insert (Suc l, b) F"
  shows "tiled g (F - family l (b div 4)) (insert (l, b div 4) A)" "(l, b div 4) \<notin> A"
proof -
  let ?Q = "family l (b div 4)" and ?R = "F - family l (b div 4) \<union> A"
  have b: "(Suc l, b) \<in> ?Q" by (simp add: in_family)
  have "?Q \<union> ?R = F \<union> insert (Suc l, b) A" using assms(5) b by auto
  moreover have "?Q \<inter> ?R = {}" using assms(2,3,5) by (auto simp: tiled_def)
  ultimately have "tiles g (insert (l, b div 4) ?R)" "(l, b div 4) \<notin> ?R"
    using tiles_merge [OF assms(1), of l "b div 4" ?R] assms(2,4) by (auto simp: tiled_def)
  with assms(2) show "tiled g (F - ?Q) (insert (l, b div 4) A)" "(l, b div 4) \<notin> A"
    by (auto simp: tiled_def merged_def)
qed

lemma tiled_return:
  assumes "tiled g F (insert (l, b) A)" "(l, b) \<notin> A" "\<And>k. l = Suc k \<Longrightarrow> \<not> family k (b div 4) \<subseteq> insert (l, b) F"
  shows "tiled g (insert (l, b) F) A"
proof -
  have "\<not> family k c \<subseteq> insert (l, b) F" for k c
  proof
    assume f: "family k c \<subseteq> insert (l, b) F"
    then have "(l, b) \<in> family k c" using assms(1) unfolding tiled_def merged_def by blast
    then show False using assms(3) f by (simp add: in_family)
  qed
  with assms(1,2) show ?thesis by (auto simp: tiled_def merged_def)
qed

section \<open>The operations keep the tiling\<close>

definition pool_ok :: "k_mem_pool \<Rightarrow> (nat \<times> nat) set \<Rightarrow> bool" where
  "pool_ok p A \<longleftrightarrow> rep p p (free_blocks p) (free_blocks p) \<and> tiled p (free_blocks p) A"

lemma free_block_spec:
  assumes "rep g p F F" "tiled g F (insert (l, b) A)" "(l, b) \<notin> A" "\<And>i. i \<le> l \<Longrightarrow> lsizes ! i = lsz g i"
  shows "\<exists>p' F'. free_block l lsizes b p = Some p' \<and> rep g p' F' F' \<and> tiled g F' A"
  using assms
proof (induction l arbitrary: b p F)
  case 0
  have v: "valid g (0, b)" and n: "(0, b) \<notin> F" using "0.prems"(2) by (auto simp: tiled_def tiles_def)
  obtain p1 where p1: "set_free_bit p 0 b = Some p1" and r1: "rep g p1 (insert (0, b) F) F"
    and r2: "rep g (free_list_append 0 (block_ptr g (lsz g 0) b) p1) (insert (0, b) F) (insert (0, b) F)"
    by (rule rep_release [OF "0.prems"(1) v n])
  have "tiled g (insert (0, b) F) A" using "0.prems"(2,3) by (rule tiled_return) simp
  with r2 show ?case using "0.prems"(4) [of 0] rep_fits [OF r1 v] same_shapeD(5) [OF repD(3) [OF r1]]
    by (auto simp: p1 Let_def)
next
  case (Suc l)
  let ?t = "(Suc l, b)"
  have v: "valid g ?t" and n: "?t \<notin> F" using Suc.prems(2) by (auto simp: tiled_def tiles_def)
  obtain p1 where p1: "set_free_bit p (Suc l) b = Some p1" and r1: "rep g p1 (insert ?t F) F"
    and r2: "rep g (free_list_append (Suc l) (block_ptr g (lsz g (Suc l)) b) p1) (insert ?t F) (insert ?t F)"
    by (rule rep_release [OF Suc.prems(1) v n])
  note s = same_shapeD [OF repD(3) [OF r1]]
  obtain x where x: "partner_bits p1 (Suc l) b = Some x" "x = 0xf \<longleftrightarrow> partners (Suc l) b \<subseteq> insert ?t F"
    unfolding repD(4) [OF r1, symmetric]
    by (rule partner_bits_spec [OF repD(2) [OF r1], of "Suc l" b]) (use v in \<open>simp_all add: valid_def s\<close>)
  show ?case
  proof (cases "partners (Suc l) b \<subseteq> insert ?t F")
    case True
    then have f: "family l (b div 4) \<subseteq> insert ?t F" by (simp add: partners_family)
    have l: "Suc l < n_levels g" using v by (simp add: valid_def)
    have e: "{(Suc l, 4 * (b div 4) + i) |i. i \<in> set [0, 1, 2, 3]} = family l (b div 4)"
      unfolding family_def by (auto; presburger)
    obtain p2 where p2: "clear_partners [0, 1, 2, 3] (Suc l) (lsz g (Suc l)) b p1 = Some p2"
      and r3: "rep g p2 (insert ?t F - family l (b div 4)) (F - family l (b div 4))"
      using clear_partners_spec [OF r1 _ v _ _ n, of "[0, 1, 2, 3]"] unfolding e by (auto simp del: clear_partners.simps)
    have "insert ?t F - family l (b div 4) = F - family l (b div 4)" by (auto simp: in_family)
    with r3 have r4: "rep g p2 (F - family l (b div 4)) (F - family l (b div 4))" by simp
    note t = tiled_merge [OF repD(1) [OF r1] Suc.prems(2,3) l f]
    show ?thesis using Suc.IH [OF r4 t] Suc.prems(4) x True
      by (simp add: p1 p2 Let_def del: clear_partners.simps One_nat_def)
  next
    case False
    then have "tiled g (insert ?t F) A" using Suc.prems(2,3) by (intro tiled_return) (auto simp: partners_family)
    with r2 False x show ?thesis using Suc.prems(4) [of "Suc l"] rep_fits [OF r1 v] s(5)
      by (auto simp: p1 Let_def)
  qed
qed

lemma break_down_spec:
  assumes "rep g p F F" "tiled g F (insert (l, b) A)" "(l, b) \<notin> A" "l + n < n_levels g"
    "\<And>i. i \<le> l + n \<Longrightarrow> lsizes ! i = lsz g i"
  shows "\<exists>p' F'. break_down n l (block_ptr g (lsz g l) b) lsizes p = Some p' \<and> rep g p' F' F' \<and>
    tiled g F' (insert (l + n, b * 4 ^ n) A) \<and> (l + n, b * 4 ^ n) \<notin> A \<and>
    block_ptr g (lsz g (l + n)) (b * 4 ^ n) = block_ptr g (lsz g l) b"
  using assms
proof (induction n arbitrary: l b p F)
  case (Suc n)
  have l: "Suc l < n_levels g" using Suc.prems(4) by simp
  have b: "b < nblk g l" using Suc.prems(2) by (auto simp: tiled_def tiles_def valid_def)
  note shape = repD(1) [OF Suc.prems(1)]
  note t = tiled_split [OF shape Suc.prems(2,3) l]
  obtain p1 where p1: "break_block p (block_ptr g (lsz g l) b) l lsizes = Some p1" "rep g p1 (F \<union> children l b) (F \<union> children l b)"
    by (rule break_block_spec [OF Suc.prems(1) l b t(3), of lsizes]) (simp_all add: Suc.prems(5))
  have "block_ptr g (lsz g (Suc l)) (4 * b) = block_ptr g (lsz g l) b"
    using lsz_props(3) [OF shape, of l] l by (simp add: block_ptr_def)
  moreover have e: "b * 4 ^ Suc n = (4 * b) * 4 ^ n" by simp
  ultimately show ?case using Suc.IH [OF p1(2) t(1,2)] Suc.prems(4,5) by (simp add: p1(1) e del: power_Suc)
qed auto

section \<open>Choosing the levels\<close>

definition last_free :: "k_mem_pool \<Rightarrow> nat \<Rightarrow> nat option \<Rightarrow> bool" where
  "last_free p m f \<longleftrightarrow>
     (case f of None \<Rightarrow> \<forall>j < m. level_empty p j
      | Some y \<Rightarrow> y < m \<and> \<not> level_empty p y \<and> (\<forall>j. y < j \<and> j < m \<longrightarrow> level_empty p j))"

lemma find_levels_spec:
  assumes "pool_shape p" "i + n = n_levels p" "\<forall>j < i. want \<le> lsz p j" "last_free p i f"
  shows "\<exists>m f'. m \<le> n_levels p \<and> (\<forall>j < m. want \<le> lsz p j) \<and> (m < n_levels p \<longrightarrow> lsz p m < want) \<and> last_free p m f' \<and>
    (\<exists>m' \<ge> m. find_levels p want n i (map (lsz p) [0..<i]) (if i = 0 then None else Some (i - 1)) f =
      (map (lsz p) [0..<m'], if m = 0 then None else Some (m - 1), f'))"
  using assms(2-)
proof (induction n arbitrary: i f)
  case (Suc n)
  have i: "i < n_levels p" using Suc.prems(1) by simp
  have "ALIGN4 (map (lsz p) [0..<i] ! (i - 1) div 4) = lsz p i" if "i > 0"
    using that lsz_props(2) [OF assms(1) i] lsz_Suc [of p "i - 1"] by simp
  moreover have "i = 0 \<Longrightarrow> ALIGN4 (max_sz p) = lsz p i" using lsz_props(2) [OF assms(1) i] by (simp add: lsz_def)
  ultimately have sz: "(if i > 0 then ALIGN4 (map (lsz p) [0..<i] ! (i - 1) div 4) else ALIGN4 (max_sz p)) = lsz p i" by simp
  show ?case
  proof (cases "lsz p i < want")
    case True
    with Suc.prems i show ?thesis
      by (intro exI [of _ i] exI [of _ f]) (auto simp only: find_levels.simps Let_def sz if_True intro!: exI [of _ "Suc i"], simp_all)
  next
    case False
    let ?f = "if level_empty p i then f else Some i"
    have 1: "last_free p (Suc i) ?f" using Suc.prems(3) by (auto simp: last_free_def less_Suc_eq split: option.splits)
    have 2: "\<forall>j < Suc i. want \<le> lsz p j" using Suc.prems(2) False by (simp add: less_Suc_eq)
    have "find_levels p want (Suc n) i (map (lsz p) [0..<i]) (if i = 0 then None else Some (i - 1)) f =
      find_levels p want n (Suc i) (map (lsz p) [0..<Suc i]) (Some i) ?f"
      by (simp only: find_levels.simps Let_def sz False if_False) simp
    with Suc.IH [OF _ 2 1] Suc.prems(1) show ?thesis by simp
  qed
qed auto

lemma pool_okI:
  assumes r: "rep g p F F" and t: "tiled g F A"
  shows "pool_ok p A" "free_blocks p = F"
proof -
  note s = same_shapeD [OF repD(3) [OF r]]
  show F: "free_blocks p = F" by (rule repD(4) [OF r])
  have "rep p p F F" using r by (simp add: rep_def s)
  moreover have "tiles p = tiles g" by (intro ext) (simp add: tiles_def valid_def covers_def s)
  ultimately show "pool_ok p A" using t by (simp add: pool_ok_def F tiled_def)
qed

lemma pool_okD:
  assumes "pool_ok p A"
  shows "rep p p (free_blocks p) (free_blocks p)" "tiled p (free_blocks p) A" "pool_shape p" "t \<in> A \<Longrightarrow> valid p t"
  using assms by (auto simp: pool_ok_def rep_def tiled_def tiles_def)

text \<open>The bytes of a block. Blocks of a tiling do not overlap and lie inside the buffer.\<close>

definition block_bytes :: "k_mem_pool \<Rightarrow> nat \<times> nat \<Rightarrow> nat set" where
  "block_bytes p t = {block_ptr p (lsz p (fst t)) (snd t) ..< block_ptr p (lsz p (fst t)) (snd t) + lsz p (fst t)}"

lemma block_bytes_covers:
  assumes "pool_shape p" "valid p t" "a \<in> block_bytes p t"
  shows "pool_buf p \<le> a" "covers p t (a - pool_buf p)" "a < pool_buf p + buf_size p"
proof -
  let ?s = "lsz p (fst t)"
  have s: "0 < ?s" using assms by (simp add: lsz_props valid_def)
  obtain d where d: "a = pool_buf p + (?s * snd t + d)" "d < ?s"
    using assms(3) by (auto simp: block_bytes_def block_ptr_def intro: that [of "a - pool_buf p - ?s * snd t"])
  show "pool_buf p \<le> a" using d by simp
  show "covers p t (a - pool_buf p)" using d s by (simp add: covers_def)
  have "Suc (snd t) * ?s \<le> nblk p (fst t) * ?s" using assms(2) by (intro mult_le_mono1) (simp add: valid_def)
  moreover have "nblk p (fst t) * ?s = buf_size p" using assms by (simp add: lsz_props valid_def)
  ultimately show "a < pool_buf p + buf_size p" using d by (simp add: mult.commute)
qed

lemma tiles_apart:
  assumes "pool_shape p" "tiles p S" "s \<in> S" "t \<in> S" "s \<noteq> t"
  shows "block_bytes p s \<inter> block_bytes p t = {}"
proof -
  have "False" if "a \<in> block_bytes p s" "a \<in> block_bytes p t" for a
  proof -
    have v: "valid p s" "valid p t" using assms by (auto simp: tiles_def)
    note s = block_bytes_covers [OF assms(1) v(1) that(1)] and t = block_bytes_covers [OF assms(1) v(2) that(2)]
    have "a - pool_buf p < buf_size p" using s(1,3) by simp
    with assms(2-5) s(2) t(2) show False unfolding tiles_def by blast
  qed
  then show ?thesis by blast
qed

lemma pool_alloc_spec:
  assumes ok: "pool_ok p A" and fr: "t \<in> free_blocks p" "want \<le> lsz p (fst t)"
  obtains l b p' where "pool_alloc i p block want = Some (0, \<lparr>block_data = block_ptr p (lsz p l) b,
      id_pool = i mod 2 ^ 8, id_level = l, id_block = b\<rparr>, p')"
    "want \<le> lsz p l" "Suc l < n_levels p \<longrightarrow> lsz p (Suc l) < want" "(l, b) \<notin> A" "pool_ok p' (insert (l, b) A)"
    "same_shape p p'" "valid p (l, b)"
proof -
  note d = pool_okD [OF ok]
  have tv: "fst t < n_levels p" using rep_valid [OF d(1) fr(1)] by (simp add: valid_def)
  obtain m f m' where m: "m \<le> n_levels p" "\<forall>j < m. want \<le> lsz p j" "m < n_levels p \<longrightarrow> lsz p m < want" "last_free p m f" "m \<le> m'"
    and fl: "find_levels p want (n_levels p) 0 [] None None = (map (lsz p) [0..<m'], if m = 0 then None else Some (m - 1), f)"
    using find_levels_spec [OF d(3), of 0 "n_levels p" want None] by (auto simp: last_free_def)
  have "lsz p j \<le> lsz p i" if "i \<le> j" for i j using that by (simp add: lsz_def div_le_mono2 power_increasing)
  with m(3) fr(2) tv have tm: "fst t < m" by (metis leI le_trans not_le)
  have ne: "\<not> level_empty p (fst t)" using level_empty_iff [OF d(1) tv] fr(1) by (cases t) auto
  then obtain y where y: "f = Some y" "y < m" "\<not> level_empty p y" using m(4) tm by (auto simp: last_free_def split: option.splits)
  have yl: "y < n_levels p" using y m(1) by simp
  obtain c p1 where a: "alloc_block p y (lsz p y) = Some (Some (block_ptr p (lsz p y) c), p1)" "(y, c) \<in> free_blocks p"
    "rep p p1 (free_blocks p - {(y, c)}) (free_blocks p - {(y, c)})" by (rule alloc_block_spec [OF d(1) yl y(3)])
  let ?F = "free_blocks p - {(y, c)}" and ?n = "m - 1 - y"
  let ?l = "m - 1" and ?b = "c * 4 ^ (m - 1 - y)"
  have "?F \<union> insert (y, c) A = free_blocks p \<union> A" using a(2) by auto
  then have t1: "tiled p ?F (insert (y, c) A)" "(y, c) \<notin> A"
    using d(2) a(2) by (auto simp: tiled_def intro: merged_mono)
  have "\<exists>p' F'. break_down ?n y (block_ptr p (lsz p y) c) (map (lsz p) [0..<m']) p1 = Some p' \<and> rep p p' F' F' \<and>
    tiled p F' (insert (?l, ?b) A) \<and> (?l, ?b) \<notin> A \<and> block_ptr p (lsz p ?l) ?b = block_ptr p (lsz p y) c"
    using break_down_spec [OF a(3) t1, of ?n "map (lsz p) [0..<m']"] m(1,5) y(2) by simp
  then obtain p' F' where b: "break_down ?n y (block_ptr p (lsz p y) c) (map (lsz p) [0..<m']) p1 = Some p'" "rep p p' F' F'"
    "tiled p F' (insert (?l, ?b) A)" "(?l, ?b) \<notin> A" "block_ptr p (lsz p ?l) ?b = block_ptr p (lsz p y) c" by blast
  have v: "valid p (?l, ?b)" using b(3) by (auto simp: tiled_def tiles_def)
  have lm: "?l < n_levels p" using v by (simp add: valid_def)
  have "?l < 2 ^ 4" using lm d(3) by (simp add: pool_shape_def)
  moreover have "nblk p ?l \<le> nblk p (n_levels p - 1)" 
    unfolding nblk_def using lm by (intro mult_le_mono2 power_increasing) linarith+
  then have "?b < 2 ^ 20" using v d(3) by (simp add: valid_def pool_shape_def)
  moreover have "block_num p (block_ptr p (lsz p y) c) (lsz p ?l) = ?b"
    unfolding b(5) [symmetric] by (rule block_num_ptr [OF lsz_props(1) [OF d(3) lm]])
  ultimately have "pool_alloc i p block want = Some (0, \<lparr>block_data = block_ptr p (lsz p ?l) ?b,
      id_pool = i mod 2 ^ 8, id_level = ?l, id_block = ?b\<rparr>, p')"
    using y m(5) a(1) b(1,5) by (simp add: pool_alloc_def fl)
  then show thesis
    using m(2,3) y(2) b(4) v pool_okI(1) [OF b(2,3)] repD(3) [OF b(2)] by (intro that) auto
qed

lemma pool_alloc_none:
  assumes ok: "pool_ok p A" and fr: "\<And>t. t \<in> free_blocks p \<Longrightarrow> lsz p (fst t) < want"
  shows "pool_alloc i p block want = Some (- ENOMEM, block\<lparr>block_data := 0\<rparr>, p)"
proof -
  note d = pool_okD [OF ok]
  obtain m f m' where m: "m \<le> n_levels p" "\<forall>j < m. want \<le> lsz p j" "last_free p m f"
    and fl: "find_levels p want (n_levels p) 0 [] None None = (map (lsz p) [0..<m'], if m = 0 then None else Some (m - 1), f)"
    using find_levels_spec [OF d(3), of 0 "n_levels p" want None] by (auto simp: last_free_def)
  have "f = None"
  proof (cases f)
    case (Some y)
    with m have "y < n_levels p" "want \<le> lsz p y" "\<not> level_empty p y" by (auto simp: last_free_def)
    then show ?thesis using fr level_empty_iff [OF d(1), of y] by force
  qed
  then show ?thesis by (simp add: pool_alloc_def fl)
qed

text \<open>
  When nothing is allocated only whole blocks are free: of the smallest free blocks, none but the
  partners could hold the rest of the block they were split from.
\<close>

lemma div_lsz_coarser:
  assumes "pool_shape p" "i \<le> k" "k < n_levels p"
  shows "x div lsz p i = x div lsz p k div 4 ^ (k - i)"
proof -
  obtain m where m: "lsz p i = 4 ^ (n_levels p - 1 - i) * (4 * m)" using lsz_exact [OF assms(1), of i] assms(2,3) by auto
  have "lsz p k = lsz p i div 4 ^ (k - i)" using assms(2) by (simp add: lsz_def flip: div_mult2_eq power_add)
  moreover have "4 ^ (k - i) dvd lsz p i" unfolding m using assms(2,3) by (intro dvd_mult2 le_imp_power_dvd) simp
  ultimately have "lsz p i = lsz p k * 4 ^ (k - i)" by simp
  then show ?thesis by (simp add: div_mult2_eq)
qed

lemma finest_partners:
  assumes s: "pool_shape p" and til: "tiles p F" and c: "(Suc k, c) \<in> F" and top: "\<And>i a. (i, a) \<in> F \<Longrightarrow> i \<le> Suc k"
  shows "family k (c div 4) \<subseteq> F"
proof
  fix t assume t: "t \<in> family k (c div 4)"
  have v: "valid p (Suc k, c)" "\<And>x. x < buf_size p \<Longrightarrow> \<exists>!t. t \<in> F \<and> covers p t x"
    using til c unfolding tiles_def by blast+
  from v(1) have k: "Suc k < n_levels p" and "valid p (k, c div 4)"
    by (simp_all add: valid_def nblk_Suc div_less_iff_less_mult mult.commute)
  from valid_family [OF this(2) k t] have "valid p t" .
  then obtain x where x: "x < buf_size p" "covers p t x" by (rule valid_byte [OF s])
  obtain y where y: "y < buf_size p" "covers p (Suc k, c) y" by (rule valid_byte [OF s v(1)])
  have xy: "covers p (k, c div 4) x" "covers p (k, c div 4) y"
    using x y t by (auto simp: covers_family [OF s k] in_family)
  obtain i a where u: "(i, a) \<in> F" "covers p (i, a) x" using v(2) [OF x(1)] by auto
  show "t \<in> F"
  proof (cases "i = Suc k")
    case True
    with u x t show ?thesis by (cases t) (auto simp: covers_def family_def)
  next
    case False
    then have "i \<le> k" using top [OF u(1)] by simp
    then have "covers p (i, a) y" using u(2) xy k by (simp add: covers_def div_lsz_coarser [OF s, of i k])
    with v(2) [OF y(1)] u(1) c y(2) False show ?thesis by blast
  qed
qed

lemma all_free:
  assumes ok: "pool_ok p {}"
  shows "free_blocks p = {(0, b) |b. b < n_max p}"
proof -
  note d = pool_okD [OF ok]
  have til: "tiles p (free_blocks p)" and mg: "merged (free_blocks p)" using d(2) by (auto simp: tiled_def)
  let ?L = "fst ` free_blocks p"
  have fin: "finite ?L" by (rule finite_subset [of _ "{..<n_levels p}"]) (auto simp: free_blocks_def)
  have top: "l = 0" if f: "(l, b) \<in> free_blocks p" for l b
  proof (rule ccontr)
    assume l: "l \<noteq> 0"
    have le: "i \<le> Max ?L" if "(i, a) \<in> free_blocks p" for i a using fin that by (intro Max_ge) (auto intro: image_eqI [of _ fst "(i, a)"])
    have "Max ?L \<in> ?L" using fin f by (intro Max_in) auto
    moreover have "Max ?L \<noteq> 0" using le [OF f] l by simp
    ultimately obtain k c where "Max ?L = Suc k" "(Suc k, c) \<in> free_blocks p" by (cases "Max ?L") auto
    then show False using finest_partners [OF d(3) til, of k c] le mg by (auto simp: merged_def)
  qed
  have "(0, b) \<in> free_blocks p" if "b < n_max p" for b
  proof -
    have "valid p (0, b)" using that d(3) by (simp add: valid_def nblk_def pool_shape_def)
    then obtain x where "x < buf_size p" "covers p (0, b) x" by (rule valid_byte [OF d(3)])
    moreover from this obtain i a where "(i, a) \<in> free_blocks p" "covers p (i, a) x" using til by (auto simp: tiles_def)
    ultimately show ?thesis using top by (auto simp: covers_def)
  qed
  moreover have "b < n_max p" if "(l, b) \<in> free_blocks p" for l b
    using rep_valid [OF d(1) that] top [OF that] by (simp add: valid_def nblk_def)
  ultimately show ?thesis using top by auto
qed

section \<open>The initial pool\<close>

text \<open>
  \<^verbatim>\<open>K_MEM_POOL_DEFINE\<close> fills in the shape; the levels are static data, hence zero. After the loop
  over the levels has handled the first \<open>i\<close>, those have empty lists and zeroed bits, inside the level
  for fewer than 32 blocks. Of a top level of 32 blocks the word inside holds the address of an array.
\<close>

definition static_pool :: "k_mem_pool \<Rightarrow> bool" where
  "static_pool p \<longleftrightarrow> length (levels p) = n_levels p \<and> max_inline_level p = 0 \<and>
     (\<forall>lv \<in> set (levels p). bits lv = 0 \<and> bits_array lv = [])"

definition levels_done :: "k_mem_pool \<Rightarrow> nat \<Rightarrow> k_mem_pool \<Rightarrow> bool" where
  "levels_done p i q \<longleftrightarrow> pool_buf q = pool_buf p \<and> max_sz q = max_sz p \<and> n_max q = n_max p \<and> n_levels q = n_levels p \<and>
     pool_wait_q q = pool_wait_q p \<and> length (levels q) = n_levels p \<and>
     (if i = 0 then max_inline_level q = 0 else max_inline_level q < i) \<and>
     (\<forall>j < n_levels p.
        (j < i \<longrightarrow> free_list (levels q ! j) = [] \<and> (j \<le> max_inline_level q \<longleftrightarrow> j = 0 \<or> nblk p j < 32)) \<and>
        (nblk p j < 32 \<longrightarrow> bits (levels q ! j) = 0) \<and>
        bits_array (levels q ! j) = replicate (if j < i \<and> 32 \<le> nblk p j then (nblk p j + 31) div 32 else 0) 0)"

lemma init_levels_spec:
  assumes s: "pool_shape p" and "levels_done p i q" "i + n = n_levels p" "0 < n \<Longrightarrow> sz = lsz p i"
  shows "levels_done p (n_levels p) (init_levels n i (n_max p * max_sz p) sz a q)"
  using assms(2-)
proof (induction n arbitrary: i sz a q)
  case (Suc n)
  have i: "i < n_levels p" and sz: "sz = lsz p i" using Suc.prems by simp_all
  have "nblk p i * lsz p i = n_max p * max_sz p" using lsz_props(4) [OF s i] by (simp add: buf_size_def)
  then have nb: "n_max p * max_sz p div sz = nblk p i" using lsz_props(1) [OF s i] sz by (metis div_mult_self_is_m)
  let ?q1 = "upd_level i (\<lambda>lv. lv\<lparr>free_list := []\<rparr>) q" and ?words = "(nblk p i + 31) div 32"
  have mono: "nblk p j \<le> nblk p i" if "j \<le> i" for j using that by (simp add: nblk_def power_increasing)
  have next_sz: "0 < n \<Longrightarrow> ALIGN4 (sz div 4) = lsz p (Suc i)"
    using lsz_props(2) [OF s, of "Suc i"] Suc.prems(2) sz by (simp add: lsz_Suc)
  show ?case
  proof (cases "nblk p i < 32")
    case True
    then have "nblk p j < 32" "\<not> 32 \<le> nblk p j" if "j \<le> i" for j using mono [OF that] by simp_all
    with True Suc.prems(1) i have "levels_done p (Suc i) (?q1\<lparr>max_inline_level := i\<rparr>)"
      unfolding levels_done_def by (auto simp: upd_level_simps less_Suc_eq)
    with True Suc.IH [of "Suc i"] Suc.prems(2) next_sz show ?thesis by (simp add: nb Let_def del: upd_level_simps)
  next
    case False
    with Suc.prems(1) i have "levels_done p (Suc i)
        (upd_level i (\<lambda>lv. lv\<lparr>bits := of_nat a, bits_array := replicate ?words 0\<rparr>) ?q1)"
      unfolding levels_done_def by (auto simp: upd_level_simps less_Suc_eq split: if_splits)
    with False Suc.IH [of "Suc i"] Suc.prems(2) next_sz show ?thesis by (simp add: nb Let_def del: upd_level_simps)
  qed
qed simp

text \<open>
  The loop over the blocks only sets bits of the word inside the top level, so it does not
  matter for its result what bits the word had among those the loop sets.
\<close>

definition or_word :: "u32 \<Rightarrow> k_mem_pool \<Rightarrow> k_mem_pool" where
  "or_word w p = upd_level 0 (\<lambda>lv. lv\<lparr>bits := bits lv OR w\<rparr>) p"

lemma level_fields: "lv\<lparr>free_list := y, bits := x\<rparr> = lv\<lparr>bits := x, free_list := y\<rparr>"
  by (cases lv) simp

lemma init_blocks_or_word:
  assumes "levels p \<noteq> []"
  shows "init_blocks n i (or_word w p) = map_option (or_word w) (init_blocks n i p)"
  using assms
proof (induction n arbitrary: i p)
  case (Suc n)
  let ?p = "free_list_append 0 (block_ptr p (max_sz p) i) p"
  have a: "free_list_append 0 (block_ptr (or_word w p) (max_sz (or_word w p)) i) (or_word w p) = or_word w ?p"
    using Suc.prems by (simp add: free_list_append_def or_word_def upd_level_def block_ptr_def level_fields)
  have ne: "levels ?p \<noteq> []" using Suc.prems by (simp add: free_list_append_def upd_level_def)
  then have b: "set_free_bit (or_word w ?p) 0 i = map_option (or_word w) (set_free_bit ?p 0 i)"
    by (simp add: set_free_bit_def get_bit_ptr_def bit_words_def upd_word_def or_word_def upd_level_def
        or.assoc or.commute or.left_commute)
  have "levels p1 \<noteq> []" if "set_free_bit ?p 0 i = Some p1" for p1
    using that ne by (auto simp: set_free_bit_def get_bit_ptr_def upd_word_def upd_level_def split: if_splits)
  then show ?case using Suc.IH by (cases "set_free_bit ?p 0 i") (simp_all only: init_blocks.simps a b, simp_all)
qed simp

lemma levels_done_rep:
  assumes s: "pool_shape p" and d: "levels_done p (n_levels p) q"
  defines "q0 \<equiv> upd_level 0 (\<lambda>lv. lv\<lparr>bits := 0\<rparr>) q"
  shows "rep q0 q0 {} {}" "q = or_word (bits (levels q ! 0)) q0" "n_max p < 32 \<Longrightarrow> bits (levels q ! 0) = 0"
proof -
  have n: "0 < n_levels p" "length (levels q) = n_levels p" using s d by (simp_all add: pool_shape_def levels_done_def)
  then show "q = or_word (bits (levels q ! 0)) q0" by (simp add: or_word_def q0_def upd_level_def)
  show "n_max p < 32 \<Longrightarrow> bits (levels q ! 0) = 0" using d n(1) by (simp add: levels_done_def nblk_def)
  have sh: "pool_shape q0" "n_levels q0 = n_levels p" "nblk q0 = nblk p" "length (levels q0) = n_levels p"
    using s d by (auto simp: levels_done_def pool_shape_def nblk_def fun_eq_iff q0_def upd_level_simps)
  have w: "bit_words q0 l = replicate (if l = 0 \<or> nblk p l < 32 then 1 else (nblk p l + 31) div 32) 0" if "l < n_levels p" for l
    using d that n by (auto simp: levels_done_def bit_words_def q0_def upd_level_simps)
  have b: "bits_ok q0" using s by (auto simp: bits_ok_def sh w) (simp add: pool_shape_def nblk_def)
  have "\<not> free_bit q0 l b" if "l < n_levels p" "b < nblk p l" for l b
  proof -
    have "b div 32 < length (bit_words q0 l)" using get_bit_ptr_ok(2) [OF b, of l b] that by (simp add: sh)
    then show ?thesis by (simp add: free_bit_def w [OF that(1)])
  qed
  with b d sh(1) n show "rep q0 q0 {} {}"
    by (auto simp: rep_def free_blocks_def sh levels_done_def) (auto simp: q0_def upd_level_simps)
qed

lemma init_blocks_spec:
  assumes "rep g p {(0, b) |b. b < i} {(0, b) |b. b < i}" "i + n = n_max g"
  shows "\<exists>p'. init_blocks n i p = Some p' \<and> rep g p' {(0, b) |b. b < n_max g} {(0, b) |b. b < n_max g}"
  using assms
proof (induction n arbitrary: i p)
  case (Suc n)
  let ?F = "{(0 :: nat, b) |b. b < i}"
  have v: "valid g (0, i)" and l: "0 < n_levels g"
    using Suc.prems repD(1) [OF Suc.prems(1)] by (simp_all add: valid_def nblk_def pool_shape_def)
  have ptr: "block_ptr p (max_sz p) i = block_ptr g (lsz g 0) i"
    using repD(3) [OF Suc.prems(1)] by (simp add: lsz_def same_shapeD)
  have n: "(0, i) \<notin> ?F" by simp
  obtain p1 where p1: "set_free_bit (free_list_append 0 (block_ptr g (lsz g 0) i) p) 0 i = Some p1"
    and r1: "rep g p1 (insert (0, i) ?F) (insert (0, i) ?F)"
    by (rule rep_set [OF rep_append [OF Suc.prems(1) l n] v])
  have "insert (0, i) ?F = {(0, b) |b. b < Suc i}" by (auto simp: less_Suc_eq)
  with r1 Suc.IH [of p1 "Suc i"] Suc.prems(2) show ?case by (simp add: p1 ptr)
qed simp

lemma whole_blocks_tiled:
  assumes "pool_shape g"
  shows "tiled g {(0, b) |b. b < n_max g} {}"
proof -
  have l: "0 < n_levels g" "lsz g 0 = max_sz g" "0 < max_sz g" using assms by (auto simp: pool_shape_def lsz_def)
  have "\<exists>!t. t \<in> {(0, b) |b. b < n_max g} \<and> covers g t x" if "x < buf_size g" for x
  proof -
    have "x div max_sz g < n_max g" using that l(3) by (simp add: buf_size_def div_less_iff_less_mult)
    then show ?thesis by (intro ex1I [of _ "(0, x div max_sz g)"]) (auto simp: covers_def l(2))
  qed
  moreover have "merged {(0, b) |b. b < n_max g}" by (auto simp: merged_def family_children)
  ultimately show ?thesis using l(1) by (auto simp: tiled_def tiles_def valid_def nblk_def)
qed

lemma or_full_word:
  assumes "rep g p {(0, b) |b. b < n_max g} L" "n_max g = 32"
  shows "or_word w p = p"
proof -
  note r = repD [OF assms(1)]
  have n: "0 < n_levels p" "length (levels p) = n_levels p" "nblk p 0 = 32"
    using r(1,2) assms(2) same_shapeD(2,3) [OF r(3)] by (auto simp: pool_shape_def bits_ok_def nblk_def)
  have "free_bit p 0 b" if "b < 32" for b
  proof -
    have "(0, b) \<in> free_blocks p" using that assms(2) by (simp add: r(4))
    then show ?thesis by (simp add: free_blocks_def)
  qed
  then have "bits (levels p ! 0) OR w = bits (levels p ! 0)"
    by (intro bit_word_eqI) (auto simp: free_bit_def bit_words_def bit_simps)
  with n show ?thesis by (simp add: or_word_def upd_level_def)
qed

lemma init_ok:
  assumes s: "pool_shape p" and st: "static_pool p"
  obtains p' where "init_blocks (n_max p) 0 (init_levels (n_levels p) 0 (n_max p * max_sz p) (max_sz p) a p) = Some p'"
    "pool_ok p' {}" "pool_buf p' = pool_buf p" "max_sz p' = max_sz p" "n_max p' = n_max p" "n_levels p' = n_levels p"
    "length (levels p') = n_levels p"
    "\<And>j. j < n_levels p \<Longrightarrow> length (bits_array (levels p' ! j)) = (if nblk p j < 32 then 0 else (nblk p j + 31) div 32)"
proof -
  define q where "q = init_levels (n_levels p) 0 (n_max p * max_sz p) (max_sz p) a p"
  define q0 where "q0 = upd_level 0 (\<lambda>lv. lv\<lparr>bits := 0\<rparr>) q"
  have "levels_done p 0 p" using st by (auto simp: static_pool_def levels_done_def)
  then have d: "levels_done p (n_levels p) q" unfolding q_def by (rule init_levels_spec [OF s]) (simp_all add: lsz_def)
  note r = levels_done_rep [OF s d, folded q0_def]
  have g: "pool_buf q0 = pool_buf p" "max_sz q0 = max_sz p" "n_max q0 = n_max p" "n_levels q0 = n_levels p"
    "length (levels q0) = n_levels p"
    using d by (simp_all add: levels_done_def q0_def upd_level_simps)
  obtain p' where p': "init_blocks (n_max p) 0 q0 = Some p'" "rep q0 p' {(0, b) |b. b < n_max q0} {(0, b) |b. b < n_max q0}"
    using init_blocks_spec [of q0 q0 0 "n_max p"] r(1) by (auto simp: g)
  let ?w = "bits (levels q ! 0)"
  have n: "0 < n_levels p" "n_max p \<le> 32" using s by (simp_all add: pool_shape_def)
  have "or_word ?w p' = p'"
  proof (cases "n_max p = 32")
    case False
    then show ?thesis using r(3) n by (simp add: or_word_def upd_level_def)
  qed (use or_full_word [OF p'(2)] g in simp)
  moreover have "levels q0 \<noteq> []" using g(5) n(1) by auto
  ultimately have e: "init_blocks (n_max p) 0 q = Some p'"
    using p'(1) init_blocks_or_word [of q0 "n_max p" 0 ?w] r(2) by simp
  have "pool_ok p' {}" by (rule pool_okI(1) [OF p'(2) whole_blocks_tiled [OF repD(1) [OF r(1)]]])
  moreover have "length (bits_array (levels q0 ! j)) = (if nblk p j < 32 then 0 else (nblk p j + 31) div 32)"
    if "j < n_levels p" for j using d that by (auto simp: levels_done_def q0_def upd_level_simps)
  ultimately show thesis
    using e repD(3) [OF p'(2)] g unfolding q_def [symmetric] by (intro that [of p']) (simp_all add: q_def same_shape_def)
qed

section \<open>The waiters\<close>

text \<open>Freeing a block makes every waiter ready to try again.\<close>

definition woke_all :: "waddr \<Rightarrow> 'a kernel_scheme \<Rightarrow> 'a kernel_scheme \<Rightarrow> bool" where
  "woke_all w k k' \<longleftrightarrow> kinv {} k' \<and> settled k' \<and> current k' = current k \<and> idle_thread k' = idle_thread k \<and>
     nested k' = nested k \<and> handling_timeouts k' = handling_timeouts k \<and> kernel.more k' = kernel.more k \<and>
     (\<forall>v. queues k' (WaitQ v) = (if v = w then [] else queues k (WaitQ v))) \<and>
     (\<forall>u. is_thread_ready k' u \<longleftrightarrow>
        (if u \<in> set (queues k (WaitQ w)) then \<not> st k u 0 \<and> \<not> st k u 3 \<and> \<not> st k u 4 else is_thread_ready k u))"

lemma wake_waiters_spec:
  assumes "kinv {} k" "settled k" "\<not> handling_timeouts k"
  shows "(fst (wake_waiters w k) \<longleftrightarrow> queues k (WaitQ w) \<noteq> []) \<and> woke_all w k (snd (wake_waiters w k))"
  using assms
proof (induction w k rule: wake_waiters.induct)
  case (1 w k)
  show ?case
  proof (cases "queues k (WaitQ w)")
    case Nil
    then show ?thesis using "1.prems" by (simp add: woke_all_def wake_waiters.simps [of w k])
  next
    case (Cons t ts)
    let ?k3 = "woken t (unpend_thread t k)"
    have "unpend_first_thread w k = (Some t, unpend_thread t k)" using "1.prems"(3) Cons by (simp add: unpend_first_head)
    note f = wake_first [OF "1.prems"(1,2) this]
    have e: "wake_waiters w k = (True, snd (wake_waiters w ?k3))" using Cons by (simp add: woken_def Let_def wake_waiters.simps [of w k])
    have d: "distinct (t # ts)" using kinv_wait_distinct [OF "1.prems"(1), of w] Cons by simp
    have other: "remove1 t (queues k (WaitQ v)) = (if v = w then ts else queues k (WaitQ v))" for v
      using Cons kinv_wait_unique [OF "1.prems"(1) f(3), of v] by (cases "v = w") (simp, metis remove1_idem)
    have "woke_all w ?k3 (snd (wake_waiters w ?k3))"
      using "1.IH" [OF Cons refl refl refl, folded woken_def] f(1,2) "1.prems"(3) by simp
    then show ?thesis using e d f(7-9) Cons
      by (auto simp: woke_all_def other st_woken st_unpend)
  qed
qed

lemma level_sizes_nth:
  "pool_shape p \<Longrightarrow> i + n < n_levels p \<Longrightarrow> j \<le> n \<Longrightarrow> level_sizes n (lsz p i) ! j = lsz p (i + j)"
proof (induction n arbitrary: i j)
  case (Suc n)
  have "ALIGN4 (lsz p i div 4) = lsz p (Suc i)" using lsz_props(2) [OF Suc.prems(1), of "Suc i"] Suc.prems(2) by (simp add: lsz_Suc)
  with Suc.IH [of "Suc i" "j - 1"] Suc.prems show ?case by (cases j) simp_all
qed simp

lemma free_block_ok:
  assumes ok: "pool_ok p A" and t: "(id_level blk, id_block blk) \<in> A"
  obtains p' where "free_block (id_level blk) (level_sizes (id_level blk) (ALIGN4 (max_sz p))) (id_block blk) p = Some p'"
    "pool_ok p' (A - {(id_level blk, id_block blk)})" "same_shape p p'"
proof -
  let ?l = "id_level blk" and ?b = "id_block blk"
  note d = pool_okD [OF ok]
  have l: "?l < n_levels p" using d(4) [OF t] by (simp add: valid_def)
  have "ALIGN4 (max_sz p) = lsz p 0" using lsz_props(2) [OF d(3), of 0] l by (simp add: lsz_def)
  then have sz: "\<And>i. i \<le> ?l \<Longrightarrow> level_sizes ?l (ALIGN4 (max_sz p)) ! i = lsz p i"
    using level_sizes_nth [OF d(3), of 0 ?l] l by simp
  have "tiled p (free_blocks p) (insert (?l, ?b) (A - {(?l, ?b)}))" using d(2) t by (simp add: insert_absorb)
  then obtain p' F' where p': "free_block ?l (level_sizes ?l (ALIGN4 (max_sz p))) ?b p = Some p'" "rep p p' F' F'"
      "tiled p F' (A - {(?l, ?b)})"
    using free_block_spec [OF d(1) _ _ sz] by blast
  then show thesis by (intro that [OF p'(1) pool_okI(1) [OF p'(2,3)] repD(3) [OF p'(2)]])
qed

lemma k_mem_pool_free_spec:
  assumes ok: "pool_ok p A" and t: "(id_level blk, id_block blk) \<in> A" and k: "sched_ok k" "\<not> handling_timeouts k" "\<not> is_in_isr k"
  obtains p' k' where "k_mem_pool_free blk p k = Some (p', k')" "pool_ok p' (A - {(id_level blk, id_block blk)})" "same_shape p p'"
    "sched_ok k'" "idle_thread k' = idle_thread k" "nested k' = nested k" "kernel.more k' = kernel.more k"
    "\<And>v. queues k' (WaitQ v) = (if v = pool_wait_q p then [] else queues k (WaitQ v))"
    "\<And>u. is_thread_ready k' u \<longleftrightarrow> (if u \<in> set (queues k (WaitQ (pool_wait_q p)))
       then \<not> st k u 0 \<and> \<not> st k u 3 \<and> \<not> st k u 4 else is_thread_ready k u)"
proof -
  let ?l = "id_level blk" and ?b = "id_block blk" and ?w = "pool_wait_q p"
  obtain p' where p': "free_block ?l (level_sizes ?l (ALIGN4 (max_sz p))) ?b p = Some p'"
    "pool_ok p' (A - {(?l, ?b)})" "same_shape p p'" by (rule free_block_ok [OF ok t])
  note s = sched_okD [OF k(1)]
  define k1 where "k1 = snd (wake_waiters ?w k)"
  have w: "fst (wake_waiters ?w k) \<longleftrightarrow> queues k (WaitQ ?w) \<noteq> []" "woke_all ?w k k1"
    using wake_waiters_spec [OF s(1,4) k(2), of ?w] by (simp_all add: k1_def)
  then have i1: "\<not> is_in_isr k1" using k(3) by (simp add: woke_all_def is_in_isr_def)
  let ?k' = "if queues k (WaitQ ?w) \<noteq> [] then reschedule_threads k1 else k1"
  have e: "k_mem_pool_free blk p k = Some (p', ?k')" using p'(1) w(1) i1 by (simp add: k_mem_pool_free_def k1_def case_prod_unfold Let_def)
  have same: "queues ?k' = queues k1" "idle_thread ?k' = idle_thread k1" "nested ?k' = nested k1" "kernel.more ?k' = kernel.more k1"
    "is_thread_ready ?k' u \<longleftrightarrow> is_thread_ready k1 u" for u by (simp_all add: reschedule_threads_def)
  have r: "is_thread_ready k1 (current k1)"
    using w(2) s(2) kinv_waiting [OF s(1), of "current k" ?w] by (auto simp: woke_all_def is_thread_ready_iff)
  have "sched_ok ?k'"
  proof (cases "queues k (WaitQ ?w) = []")
    case True
    then have "wake_waiters ?w k = (False, k)" by (simp add: wake_waiters.simps)
    then show ?thesis using k(1) True by (simp add: k1_def)
  next
    case False
    then show ?thesis using reschedule_ok [of k1] w(2) r by (simp add: woke_all_def)
  qed
  then show thesis
    using w(2) same p'(2,3) by (intro that [OF e]) (simp_all add: woke_all_def)
qed

section \<open>Static pools\<close>

lemma MPOOL_LVLS_eq:
  assumes "MPOOL_MINBLK \<le> mn" "y < 16"
  shows "MPOOL_LVLS (mn * 4 ^ y) mn = Suc y"
proof -
  have m: "0 < mn" using assms(1) by (simp add: MPOOL_MINBLK_def)
  have "MPOOL_HAVE_LVL (mn * 4 ^ y) mn l = (if l < Suc y then 1 else 0)" for l
  proof (cases "l \<le> y")
    case True
    then have e: "mn * 4 ^ y = mn * 4 ^ (y - l) * 4 ^ l" by (simp flip: power_add)
    have "drop_bit (2 * l) (mn * 4 ^ y) = mn * 4 ^ (y - l)" unfolding e drop_bit_eq_div by (simp add: power_mult)
    then show ?thesis using True by (simp add: MPOOL_HAVE_LVL_def)
  next
    case False
    then have "mn * 4 ^ y < mn * 4 ^ l" using m by (simp add: power_strict_increasing)
    then have "drop_bit (2 * l) (mn * 4 ^ y) < mn" by (simp add: drop_bit_eq_div power_mult div_less_iff_less_mult)
    then show ?thesis using False by (simp add: MPOOL_HAVE_LVL_def)
  qed
  then have "MPOOL_LVLS (mn * 4 ^ y) mn = (\<Sum>l<16. if l < Suc y then 1 else 0)"
    using assms(1) by (simp add: MPOOL_LVLS_def sum_list_distinct_conv_sum_set atLeast0LessThan)
  also have "\<dots> = card ({..<16} \<inter> {l. l < Suc y})" by (simp add: sum.If_cases)
  also have "{..<16} \<inter> {l. l < Suc y} = {..<Suc y}" using assms(2) by auto
  finally show ?thesis by simp
qed

lemma K_MEM_POOL_DEFINE_ok:
  fixes buf m y nmax :: nat and w :: waddr
  assumes "2 \<le> m" "0 < nmax" "nmax \<le> 32" "nmax * 4 ^ y \<le> 2 ^ 20"
  defines "p \<equiv> K_MEM_POOL_DEFINE buf w (4 * m) (4 * m * 4 ^ y) nmax"
  shows "pool_shape p" "static_pool p" "n_levels p = Suc y" "y < 11"
proof -
  show y: "y < 11"
  proof (rule ccontr)
    assume "\<not> y < 11"
    then have "(4 :: nat) ^ 11 \<le> 4 ^ y" by (intro power_increasing) simp_all
    also have "\<dots> \<le> nmax * 4 ^ y" using assms(2) by simp
    finally show False using assms(4) by simp
  qed
  show n: "n_levels p = Suc y" using MPOOL_LVLS_eq [of "4 * m" y] assms(1) y by (simp add: p_def K_MEM_POOL_DEFINE_def MPOOL_MINBLK_def)
  show "static_pool p" by (simp add: static_pool_def p_def K_MEM_POOL_DEFINE_def)
  have "max_sz p = 4 ^ (n_levels p - 1) * (4 * m)" "n_max p = nmax" by (simp_all add: n) (simp_all add: p_def K_MEM_POOL_DEFINE_def)
  then show "pool_shape p" using assms(1-4) y unfolding pool_shape_def nblk_def n by auto
qed

text \<open>The bytes of the arrays of bits behind the buffer.\<close>

definition bits_bytes :: "k_mem_pool \<Rightarrow> nat" where
  "bits_bytes p = sum_list (map (\<lambda>lv. 4 * length (bits_array lv)) (levels p))"

lemma level_words:
  assumes "32 \<le> nmax * 4 ^ j"
  shows "(nmax * 4 ^ j + 31) div 32 \<le> MPOOL_LBIT_WORDS nmax (Suc j)"
proof -
  have e: "push_bit (2 * Suc j) nmax = 4 * (nmax * 4 ^ j)" by (simp add: push_bit_eq_mult power_mult)
  have "2 \<le> (4 * (nmax * 4 ^ j) + 31) div 32" using assms by simp
  moreover have "(nmax * 4 ^ j + 31) div 32 \<le> (4 * (nmax * 4 ^ j) + 31) div 32" by (intro div_le_mono) simp
  ultimately show ?thesis unfolding MPOOL_LBIT_WORDS_def MPOOL_LBIT_WORDS_UNCLAMPED_def e by simp
qed

lemma bits_fit:
  assumes len: "length (levels p') = n_levels p" "n_levels p < 16" "n_levels p = MPOOL_LVLS (max_sz p) mn"
    and b: "\<And>j. j < n_levels p \<Longrightarrow> length (bits_array (levels p' ! j)) = (if nblk p j < 32 then 0 else (nblk p j + 31) div 32)"
  shows "bits_bytes p' \<le> MPOOL_BITS_SIZE (max_sz p) mn (n_max p)"
proof -
  let ?n = "n_levels p" and ?f = "\<lambda>l. MPOOL_LBIT_BYTES (max_sz p) mn l (n_max p)"
  have "bits_bytes p' = (\<Sum>j<?n. if nblk p j < 32 then 0 else 4 * ((nblk p j + 31) div 32))"
    unfolding bits_bytes_def sum_list_sum_nth using len(1) b by (auto simp: atLeast0LessThan intro!: sum.cong)
  also have "\<dots> \<le> (\<Sum>j<?n. ?f (Suc j))"
    using level_words [of "n_max p"] len(3) by (intro sum_mono) (auto simp: MPOOL_LBIT_BYTES_def nblk_def)
  also have "\<dots> \<le> (\<Sum>l<Suc ?n. ?f l)" by (simp add: sum.lessThan_Suc_shift del: sum.lessThan_Suc)
  also have "\<dots> \<le> (\<Sum>l<16. ?f l)" using len(2) by (intro sum_mono2) auto
  also have "\<dots> = MPOOL_BITS_SIZE (max_sz p) mn (n_max p)"
    by (simp add: MPOOL_BITS_SIZE_def sum_list_distinct_conv_sum_set atLeast0LessThan)
  finally show ?thesis .
qed

text \<open>
  Of more than 32 blocks of the largest size the loop sets the bits of the first 32, which are
  those of the word inside the top level, and the next bit is in no word of the level.
\<close>

lemma init_blocks_add: "init_blocks (n + m) i q = Option.bind (init_blocks n i q) (init_blocks m (i + n))"
proof (induction n arbitrary: i q)
  case (Suc n)
  then show ?case by (cases "set_free_bit (free_list_append 0 (block_ptr q (max_sz q) i) q) 0 i") simp_all
qed simp

lemma init_blocks_word:
  assumes "levels q \<noteq> []" "i + n \<le> 32"
  shows "\<exists>q'. init_blocks n i q = Some q' \<and> levels q' \<noteq> [] \<and>
    (\<forall>b. bit (bits (levels q' ! 0)) b \<longleftrightarrow> bit (bits (levels q ! 0)) b \<or> i \<le> b \<and> b < i + n)"
  using assms
proof (induction n arbitrary: i q)
  case (Suc n)
  let ?q1 = "upd_word (free_list_append 0 (block_ptr q (max_sz q) i) q) 0 0 (\<lambda>word. word OR push_bit i 1)"
  have e: "set_free_bit (free_list_append 0 (block_ptr q (max_sz q) i) q) 0 i = Some ?q1"
    using Suc.prems by (simp add: set_free_bit_def get_bit_ptr_def bit_words_def free_list_append_def upd_level_def)
  have "levels ?q1 \<noteq> []" using Suc.prems by (simp add: upd_word_def free_list_append_def upd_level_def)
  moreover have "bit (bits (levels ?q1 ! 0)) b \<longleftrightarrow> bit (bits (levels q ! 0)) b \<or> b = i" for b
    using Suc.prems by (auto simp: upd_word_def free_list_append_def upd_level_def bit_simps)
  ultimately show ?case using Suc.IH [of ?q1 "Suc i"] Suc.prems(2) by (auto simp: e)
qed auto

lemma init_levels_length [simp]: "length (levels (init_levels n i buflen sz a q)) = length (levels q)"
  by (induction n arbitrary: i sz a q) (auto simp: Let_def upd_level_def)

lemma init_large:
  assumes "levels q \<noteq> []" "32 < n"
  obtains q' where "init_blocks 32 0 q = Some q'" "bits (levels q' ! 0) = - 1" "set_free_bit q' 0 32 = None"
    "init_blocks n 0 q = None"
proof -
  obtain q' where q: "init_blocks 32 0 q = Some q'" "levels q' \<noteq> []"
    "\<And>b. bit (bits (levels q' ! 0)) b \<longleftrightarrow> bit (bits (levels q ! 0)) b \<or> b < 32"
    using init_blocks_word [of q 0 32] assms(1) by auto
  obtain m where m: "n = 32 + Suc m" using assms(2) by (metis add_Suc_right less_imp_Suc_add)
  have "set_free_bit p 0 32 = None" for p by (simp add: set_free_bit_def get_bit_ptr_def bit_words_def)
  moreover from this have "init_blocks n 0 q = None" unfolding m init_blocks_add by (simp add: q(1))
  moreover have "bits (levels q' ! 0) = - 1" by (rule bit_word_eqI) (simp add: q(3))
  ultimately show thesis using q(1) by (intro that)
qed

section \<open>Runs\<close>

text \<open>
  A run of calls on a pool, in whatever states of the kernel they are made: \<open>pool_run p0 p bs\<close> when calls lead from
  \<open>p0\<close> to \<open>p\<close> with the blocks \<open>bs\<close> handed out and not yet freed. An allocation may also be one that has waited.
\<close>

inductive pool_run :: "k_mem_pool \<Rightarrow> k_mem_pool \<Rightarrow> k_mem_block list \<Rightarrow> bool" for p0 where
  run_start: "pool_run p0 p0 []"
| run_alloc: "pool_run p0 p bs \<Longrightarrow> k_mem_pool_alloc i p blk want timeout (k :: kernel) = Some (r, blk', p', k') \<Longrightarrow>
    pool_run p0 p' (if r = Some 0 then blk' # bs else bs)"
| run_resume: "pool_run p0 p bs \<Longrightarrow>
    k_mem_pool_alloc_resume i p blk want timeout end_tick (k :: kernel) = Some (r, blk', p', k') \<Longrightarrow>
    pool_run p0 p' (if r = Some 0 then blk' # bs else bs)"
| run_free: "pool_run p0 p bs \<Longrightarrow> blk \<in> set bs \<Longrightarrow> k_mem_pool_free blk p (k :: kernel) = Some (p', k') \<Longrightarrow>
    pool_run p0 p' (remove1 blk bs)"

definition id_pair :: "k_mem_block \<Rightarrow> nat \<times> nat" where
  "id_pair blk = (id_level blk, id_block blk)"

definition run_ok :: "k_mem_pool \<Rightarrow> k_mem_pool \<Rightarrow> k_mem_block list \<Rightarrow> bool" where
  "run_ok p0 p bs \<longleftrightarrow> pool_ok p (id_pair ` set bs) \<and> distinct (map id_pair bs) \<and> same_shape p0 p"

lemma alloc_turn_run:
  assumes r: "run_ok p0 p bs" and e: "alloc_turn i p blk want timeout k = Some (r, blk', p', k')"
  shows "run_ok p0 p' (if r = Some 0 then blk' # bs else bs)"
proof (cases "\<exists>t \<in> free_blocks p. want \<le> lsz p (fst t)")
  case True
  then obtain t where t: "t \<in> free_blocks p" "want \<le> lsz p (fst t)" by blast
  have ok: "pool_ok p (id_pair ` set bs)" using r by (simp add: run_ok_def)
  obtain l b p1 where a: "pool_alloc i p blk want = Some (0, \<lparr>block_data = block_ptr p (lsz p l) b,
      id_pool = i mod 2 ^ 8, id_level = l, id_block = b\<rparr>, p1)"
    "(l, b) \<notin> id_pair ` set bs" "pool_ok p1 (insert (l, b) (id_pair ` set bs))" "same_shape p p1"
    by (rule pool_alloc_spec [OF ok t])
  with r e show ?thesis by (auto simp: run_ok_def alloc_turn_def id_pair_def image_image intro: same_shape_trans)
next
  case False
  then have "pool_alloc i p blk want = Some (- ENOMEM, blk\<lparr>block_data := 0\<rparr>, p)"
    using r by (intro pool_alloc_none [of p "id_pair ` set bs"]) (auto simp: run_ok_def not_le)
  with r e show ?thesis by (auto simp: alloc_turn_def ENOMEM_def split: if_splits)
qed

lemma free_run:
  assumes r: "run_ok p0 p bs" and b: "blk \<in> set bs" and e: "k_mem_pool_free blk p k = Some (p', k')"
  shows "run_ok p0 p' (remove1 blk bs)"
proof -
  have ok: "pool_ok p (id_pair ` set bs)" "(id_level blk, id_block blk) \<in> id_pair ` set bs"
    using r b by (auto simp: run_ok_def id_pair_def)
  obtain p1 where p1: "free_block (id_level blk) (level_sizes (id_level blk) (ALIGN4 (max_sz p))) (id_block blk) p = Some p1"
    "pool_ok p1 (id_pair ` set bs - {id_pair blk})" "same_shape p p1"
    unfolding id_pair_def [of blk] by (rule free_block_ok [OF ok])
  have "p' = p1" using e p1(1) by (simp add: k_mem_pool_free_def case_prod_unfold Let_def)
  moreover have d: "distinct (map id_pair bs)" using r by (simp add: run_ok_def)
  then have "id_pair ` set (remove1 blk bs) = id_pair ` set bs - {id_pair blk}"
    using b by (auto simp: distinct_map inj_on_def)
  moreover have "distinct (map id_pair (remove1 blk bs))"
    using d set_remove1_subset [of blk bs] by (auto simp: distinct_map intro: inj_on_subset)
  ultimately show ?thesis using r p1(2,3) by (auto simp: run_ok_def intro: same_shape_trans)
qed

lemma pool_run_ok:
  assumes "pool_run p0 p bs" "pool_ok p0 {}"
  shows "run_ok p0 p bs"
  using assms(1)
proof (induction rule: pool_run.induct)
  case run_start
  then show ?case using assms(2) by (simp add: run_ok_def)
next
  case (run_alloc p bs i blk want timeout k r blk' p' k')
  then show ?case by (intro alloc_turn_run) (simp_all add: k_mem_pool_alloc_def)
next
  case (run_resume p bs i blk want timeout end_tick k r blk' p' k')
  then show ?case
    by (auto simp: k_mem_pool_alloc_resume_def Let_def EAGAIN_def split: if_splits dest: alloc_turn_run)
next
  case (run_free p bs blk k p' k')
  then show ?case by (intro free_run)
qed

lemma defined_pool_init:
  assumes "2 \<le> m" "0 < nmax" "nmax \<le> 32" "nmax * 4 ^ y \<le> 2 ^ 20"
  obtains p' where "init_mem_pool (K_MEM_POOL_DEFINE buf w (4 * m) (4 * m * 4 ^ y) nmax) k =
      Some (p', k\<lparr>queues := (queues k)(WaitQ w := [])\<rparr>)" "pool_ok p' {}" "pool_buf p' = buf" "max_sz p' = 4 * m * 4 ^ y"
    "n_max p' = nmax" "n_levels p' = Suc y" "bits_bytes p' \<le> MPOOL_BITS_SIZE (4 * m * 4 ^ y) (4 * m) nmax"
proof -
  let ?p = "K_MEM_POOL_DEFINE buf w (4 * m) (4 * m * 4 ^ y) nmax"
  note d = K_MEM_POOL_DEFINE_ok(1-3) [OF assms, of buf w] K_MEM_POOL_DEFINE_ok(4) [OF assms]
  have f: "pool_buf ?p = buf" "max_sz ?p = 4 * m * 4 ^ y" "n_max ?p = nmax" "pool_wait_q ?p = w"
    "n_levels ?p = MPOOL_LVLS (max_sz ?p) (4 * m)" by (simp_all add: K_MEM_POOL_DEFINE_def)
  obtain p' where p': "init_blocks (n_max ?p) 0 (init_levels (n_levels ?p) 0 (n_max ?p * max_sz ?p) (max_sz ?p)
      (pool_buf ?p + n_max ?p * max_sz ?p) ?p) = Some p'"
    "pool_ok p' {}" "pool_buf p' = pool_buf ?p" "max_sz p' = max_sz ?p" "n_max p' = n_max ?p" "n_levels p' = n_levels ?p"
    and b: "bits_bytes p' \<le> MPOOL_BITS_SIZE (max_sz ?p) (4 * m) (n_max ?p)"
    by (rule init_ok [OF d(1,2)]) (use bits_fit [of _ ?p "4 * m"] d(3,4) f(5) in auto)
  show thesis using p' b by (intro that [of p']) (simp_all add: init_mem_pool_def d(3) f(1-4))
qed

section \<open>Properties\<close>

text \<open>A pool of one 64-byte block with two levels.\<close>

definition example_static :: k_mem_pool where
  "example_static = K_MEM_POOL_DEFINE 4096 7 16 64 1"

definition example_pool :: k_mem_pool where
  "example_pool = \<lparr>pool_buf = 4096, max_sz = 64, n_max = 1, n_levels = 2, max_inline_level = 1,
     levels = [\<lparr>bits = 1, bits_array = [], free_list = [4096]\<rparr>, \<lparr>bits = 0, bits_array = [], free_list = []\<rparr>],
     pool_wait_q = 7\<rparr>"

definition no_block :: k_mem_block where
  "no_block = \<lparr>block_data = 0, id_pool = 0, id_level = 0, id_block = 0\<rparr>"

definition example_used :: "k_mem_block \<times> k_mem_pool" where
  "example_used = (case pool_alloc 0 example_pool no_block 10 of Some (_, blk, p) \<Rightarrow> (blk, p) | None \<Rightarrow> (no_block, example_pool))"

lemma example_init:
  "init_blocks (n_max example_static) 0
     (init_levels (n_levels example_static) 0 (n_max example_static * max_sz example_static) (max_sz example_static) 4160 example_static) =
   Some example_pool"
  using MPOOL_LVLS_eq [of 16 1]
  by (simp add: example_static_def K_MEM_POOL_DEFINE_def MPOOL_MINBLK_def example_pool_def numeral_2_eq_2 Let_def
      upd_level_def ALIGN4_def block_ptr_def free_list_append_def set_free_bit_def get_bit_ptr_def
      bit_words_def upd_word_def)

lemma example_pool_ok: "pool_ok example_pool {}"
proof -
  have "pool_shape example_static" "static_pool example_static"
    using K_MEM_POOL_DEFINE_ok(1,2) [of 4 1 1 4096 7] by (simp_all add: example_static_def)
  then show ?thesis by (rule init_ok [where a = 4160]) (simp add: example_init)
qed

lemma example_lsz: "lsz example_pool 0 = 64" "lsz example_pool 1 = 16" "pool_wait_q example_pool = 7" "n_levels example_pool = 2"
  by (simp_all add: lsz_def example_pool_def)

lemma example_free: "free_blocks example_pool = {(0, 0)}"
  using all_free [OF example_pool_ok] by (auto simp: example_pool_def)

lemma example_used_ok:
  "pool_ok (snd example_used) {(id_level (fst example_used), id_block (fst example_used))}" "pool_wait_q (snd example_used) = 7"
proof -
  have "(0, 0) \<in> free_blocks example_pool" "10 \<le> lsz example_pool (fst (0 :: nat, 0 :: nat))"
    by (simp_all add: example_free example_lsz)
  from pool_alloc_spec [OF example_pool_ok this, of 0 no_block] obtain l b p' where
    "pool_alloc 0 example_pool no_block 10 = Some (0, \<lparr>block_data = block_ptr example_pool (lsz example_pool l) b,
      id_pool = 0 mod 2 ^ 8, id_level = l, id_block = b\<rparr>, p')" "pool_ok p' {(l, b)}" "same_shape example_pool p'" by metis
  then show "pool_ok (snd example_used) {(id_level (fst example_used), id_block (fst example_used))}" "pool_wait_q (snd example_used) = 7"
    by (simp_all add: example_used_def same_shapeD example_lsz)
qed

text \<open>
  C11. A memory pool defined statically with a minimum size of at least 8 that is a multiple of 4, a maximum size that is the
  minimum size times a power of four, at most 32 blocks of the largest and \<open>2 ^ 20\<close> of the smallest size is initialised to a pool with nothing allocated, and the arrays of bits that the
  initialisation lays out behind the buffer fit in the bytes the definition reserves for them.\<close>
theorem init_mem_pool_ok:
  assumes "2 \<le> m" "0 < nmax" "nmax \<le> 32" "nmax * 4 ^ y \<le> 2 ^ 20"
  shows "\<exists>p' k'. init_mem_pool (K_MEM_POOL_DEFINE buf w (4 * m) (4 * m * 4 ^ y) nmax) k = Some (p', k') \<and> pool_ok p' {} \<and>
    pool_buf p' = buf \<and> buf_size p' = nmax * (4 * m * 4 ^ y) \<and> n_levels p' = Suc y \<and>
    bits_bytes p' \<le> MPOOL_BITS_SIZE (4 * m * 4 ^ y) (4 * m) nmax \<and> queues k' (WaitQ w) = []"
  by (rule defined_pool_init [OF assms, of buf w k]) (simp add: buf_size_def)

theorem init_mem_pool_ok_witness:
  "\<exists>p' k'. init_mem_pool example_static pair_kernel = Some (p', k') \<and> pool_ok p' {} \<and> buf_size p' = 64"
  using init_mem_pool_ok [of 4 1 1 4096 7 pair_kernel] by (auto simp: example_static_def)

text \<open>
  C39. A pool of more than 32 blocks of the largest size, which is a power of four below \<open>4 ^ 16\<close> times a minimum size of at
  least 8 that is a multiple of 4, is not initialised without an access outside of its bits. The
  bits of the first level are always taken to be the one word inside the level, although the initialisation lays out an
  array for them. The first 32 blocks set all bits of that word, and the bit of the next block is in no word of the level:
  the write goes to what follows the word, the list of free blocks of the level.\<close>
theorem init_mem_pool_large:
  fixes m y nmax buf :: nat and w :: waddr
  assumes "32 < nmax" "2 \<le> m" "y < 16"
  defines "p \<equiv> K_MEM_POOL_DEFINE buf w (4 * m) (4 * m * 4 ^ y) nmax"
  shows "\<exists>q. init_blocks 32 0 (init_levels (Suc y) 0 (nmax * max_sz p) (max_sz p) (buf + nmax * max_sz p) p) = Some q \<and>
    bits (levels q ! 0) = - 1 \<and> set_free_bit q 0 32 = None \<and> init_mem_pool p k = None"
proof -
  have l: "MPOOL_LVLS (4 * m * 4 ^ y) (4 * m) = Suc y" using MPOOL_LVLS_eq [of "4 * m" y] assms by (simp add: MPOOL_MINBLK_def)
  then have p: "n_levels p = Suc y" "n_max p = nmax" "pool_buf p = buf" "length (levels p) = Suc y"
    by (simp_all add: p_def K_MEM_POOL_DEFINE_def)
  let ?q = "init_levels (Suc y) 0 (nmax * max_sz p) (max_sz p) (buf + nmax * max_sz p) p"
  have "length (levels ?q) = Suc y" by (simp only: init_levels_length p)
  then have "levels ?q \<noteq> []" by auto
  then obtain q' where q: "init_blocks 32 0 ?q = Some q'" "bits (levels q' ! 0) = - 1" "set_free_bit q' 0 32 = None"
    "init_blocks nmax 0 ?q = None" by (rule init_large [OF _ assms(1)])
  have "init_mem_pool p k = None" using q(4) by (simp add: init_mem_pool_def p Let_def del: init_levels.simps)
  with q(1-3) show ?thesis by blast
qed

theorem init_mem_pool_large_witness: "init_mem_pool (K_MEM_POOL_DEFINE 4096 7 16 64 33) pair_kernel = None"
  using init_mem_pool_large [of 33 4 1 4096 7 pair_kernel] by auto

text \<open>
  C8. Allocating from a pool: if there is a free block that is large enough, the call returns 0 and a block of the
  smallest sufficient size that was free, whose bytes are inside the buffer and in no other allocated block. Otherwise
  it returns -ENOMEM at once if the caller does not want to wait, and otherwise the caller is pending and the pool unchanged.\<close>
theorem k_mem_pool_alloc_refines:
  assumes p: "pool_ok p A" and k: "sched_ok k" and c: "timeout \<noteq> K_NO_WAIT \<Longrightarrow> current k \<noteq> idle_thread k"
  shows "\<exists>r block' p' k'. k_mem_pool_alloc i p block want timeout k = Some (r, block', p', k') \<and> sched_ok k' \<and>
    (if \<exists>t \<in> free_blocks p. want \<le> lsz p (fst t)
     then r = Some 0 \<and> k' = k \<and> (\<exists>l b. block' = \<lparr>block_data = block_ptr p (lsz p l) b, id_pool = i mod 2 ^ 8, id_level = l, id_block = b\<rparr> \<and>
       want \<le> lsz p l \<and> (Suc l < n_levels p \<longrightarrow> lsz p (Suc l) < want) \<and>
       block_bytes p (l, b) \<subseteq> {pool_buf p ..< pool_buf p + buf_size p} \<and> (\<forall>t \<in> A. block_bytes p (l, b) \<inter> block_bytes p t = {}) \<and>
       (l, b) \<notin> A \<and> pool_ok p' (insert (l, b) A) \<and> same_shape p p')
     else p' = p \<and> block' = block\<lparr>block_data := 0\<rparr> \<and>
       (if timeout = K_NO_WAIT then r = Some (- ENOMEM) \<and> k' = k
        else r = None \<and> is_thread_pending k' (current k) \<and>
          queues k' (WaitQ (pool_wait_q p)) = prio_insert (\<lambda>u. prio (threads k u)) (current k) (queues k (WaitQ (pool_wait_q p)))))"
proof (cases "\<exists>t \<in> free_blocks p. want \<le> lsz p (fst t)")
  case True
  then obtain t where t: "t \<in> free_blocks p" "want \<le> lsz p (fst t)" by blast
  obtain l b p' where a: "pool_alloc i p block want = Some (0, \<lparr>block_data = block_ptr p (lsz p l) b,
      id_pool = i mod 2 ^ 8, id_level = l, id_block = b\<rparr>, p')"
    and b: "want \<le> lsz p l" "Suc l < n_levels p \<longrightarrow> lsz p (Suc l) < want" "(l, b) \<notin> A" "pool_ok p' (insert (l, b) A)"
      "same_shape p p'" "valid p (l, b)" by (rule pool_alloc_spec [OF p t])
  note s = same_shapeD [OF b(5)]
  have "tiles p' = tiles p" by (intro ext) (simp add: tiles_def valid_def covers_def s)
  then have til: "tiles p (free_blocks p' \<union> insert (l, b) A)" using pool_okD(2) [OF b(4)] by (simp add: tiled_def)
  have "block_bytes p (l, b) \<inter> block_bytes p t = {}" if "t \<in> A" for t
    using tiles_apart [OF pool_okD(3) [OF p] til, of "(l, b)" t] that b(3) by auto
  moreover have "block_bytes p (l, b) \<subseteq> {pool_buf p ..< pool_buf p + buf_size p}"
    using block_bytes_covers(1,3) [OF pool_okD(3) [OF p] b(6)] by auto
  ultimately show ?thesis using True a b(1-5) k by (simp add: k_mem_pool_alloc_def alloc_turn_def)
next
  case False
  then have a: "pool_alloc i p block want = Some (- ENOMEM, block\<lparr>block_data := 0\<rparr>, p)" by (intro pool_alloc_none [OF p]) (metis not_le)
  have e: "- ENOMEM \<noteq> 0" "- ENOMEM \<noteq> - EAGAIN" by (simp_all add: ENOMEM_def EAGAIN_def)
  note s = sched_okD [OF k]
  show ?thesis
  proof (cases "timeout = K_NO_WAIT")
    case True
    with False a k show ?thesis by (simp add: k_mem_pool_alloc_def alloc_turn_def)
  next
    case wait: False
    note blk = block_current [OF s(1,2,4) c [OF wait], of "pool_wait_q p" timeout]
    show ?thesis using False a e wait blk by (simp add: k_mem_pool_alloc_def alloc_turn_def)
  qed
qed

theorem k_mem_pool_alloc_refines_witness:
  "\<exists>block' p'. k_mem_pool_alloc 0 example_pool no_block 10 K_NO_WAIT pair_kernel = Some (Some 0, block', p', pair_kernel) \<and>
     id_level block' = 1"
proof -
  have f: "\<exists>t \<in> free_blocks example_pool. 10 \<le> lsz example_pool (fst t)" by (simp add: example_free example_lsz)
  have l: "l = 1" if "10 \<le> lsz example_pool l" "Suc l < n_levels example_pool \<longrightarrow> lsz example_pool (Suc l) < 10" for l
  proof (cases "l < 2")
    case True
    with that show ?thesis by (auto simp: less_Suc_eq numeral_2_eq_2 lsz_def example_pool_def)
  next
    case False
    then have "(4 :: nat) ^ 2 \<le> 4 ^ l" by (intro power_increasing) simp_all
    then have "64 div 4 ^ l \<le> 64 div (4 :: nat) ^ 2" by (rule div_le_mono2 [rotated]) simp
    with that(1) show ?thesis by (simp add: lsz_def example_pool_def)
  qed
  show ?thesis
    using k_mem_pool_alloc_refines [OF example_pool_ok pair_sched_ok, of K_NO_WAIT 0 no_block 10] f l by auto
qed

text \<open>
  C9. Freeing an allocated block returns it to the pool, merging four free partners as far as possible, and readies every thread
  that waits for memory, except suspended and dead ones; the thread that then runs is one that may.\<close>
theorem k_mem_pool_free_refines:
  assumes "pool_ok p A" "(id_level blk, id_block blk) \<in> A" "sched_ok k" "\<not> handling_timeouts k" "\<not> is_in_isr k"
  shows "\<exists>p' k'. k_mem_pool_free blk p k = Some (p', k') \<and> pool_ok p' (A - {(id_level blk, id_block blk)}) \<and> same_shape p p' \<and>
    sched_ok k' \<and> queues k' (WaitQ (pool_wait_q p)) = [] \<and>
    (\<forall>u. is_thread_ready k' u \<longleftrightarrow> (if u \<in> set (queues k (WaitQ (pool_wait_q p)))
       then \<not> st k u 0 \<and> \<not> st k u 3 \<and> \<not> st k u 4 else is_thread_ready k u))"
  by (rule k_mem_pool_free_spec [OF assms]) simp

theorem k_mem_pool_free_refines_witness:
  "\<exists>p' k'. k_mem_pool_free (fst example_used) (snd example_used) pair_kernel = Some (p', k') \<and> pool_ok p' {}"
  using k_mem_pool_free_refines [OF example_used_ok(1) _ pair_sched_ok, of "fst example_used"] by (auto simp: pair_current is_in_isr_def)

text \<open>
  C10. Memory does not stay fragmented. After any run of allocations and releases on a pool that was defined statically
  and initialised, with a minimum size of at least 8 that is a multiple of 4, a maximum size that is the minimum size times a
  power of four, at most 32 blocks of the largest and \<open>2 ^ 20\<close> of the smallest size, once every block handed out has been freed, the free blocks are exactly those of the
  largest size, whatever the order of the calls and whatever state of the kernel they were made in, and an allocation of any
  size up to the largest succeeds.\<close>
theorem pool_no_fragmentation:
  assumes "2 \<le> m" "0 < nmax" "nmax \<le> 32" "nmax * 4 ^ y \<le> 2 ^ 20"
    and i: "init_mem_pool (K_MEM_POOL_DEFINE buf w (4 * m) (4 * m * 4 ^ y) nmax) k = Some (p0, k0)" and r: "pool_run p0 p []"
  shows "free_blocks p = {(0, b) |b. b < nmax} \<and>
    (\<forall>want \<le> 4 * m * 4 ^ y. \<exists>blk' p'. k_mem_pool_alloc j p blk want timeout k1 = Some (Some 0, blk', p', k1))"
proof -
  have p0: "pool_ok p0 {}" "n_max p0 = nmax" "max_sz p0 = 4 * m * 4 ^ y"
    using i by (auto intro: defined_pool_init [OF assms(1-4), of buf w k])
  have p: "pool_ok p {}" "same_shape p0 p" using pool_run_ok [OF r p0(1)] by (simp_all add: run_ok_def)
  then have f: "free_blocks p = {(0, b) |b. b < nmax}" using all_free p0(2) by (simp add: same_shape_def)
  have "\<exists>blk' p'. k_mem_pool_alloc j p blk want timeout k1 = Some (Some 0, blk', p', k1)" if "want \<le> 4 * m * 4 ^ y" for want
  proof -
    have t: "(0, 0) \<in> free_blocks p" "want \<le> lsz p (fst (0 :: nat, 0 :: nat))"
      using that f assms(2) p0(3) p(2) by (simp_all add: lsz_def same_shapeD)
    show ?thesis by (rule pool_alloc_spec [OF p(1) t, of j blk]) (simp add: k_mem_pool_alloc_def alloc_turn_def)
  qed
  with f show ?thesis by blast
qed

text \<open>The pool of one block, after a small block has been taken from it and freed.\<close>

lemma example_pool_run:
  obtains p k' where "k_mem_pool_free (fst example_used) (snd example_used) pair_kernel = Some (p, k')" "pool_run example_pool p []"
proof -
  have "(0, 0) \<in> free_blocks example_pool" "10 \<le> lsz example_pool (fst (0 :: nat, 0 :: nat))"
    by (simp_all add: example_free example_lsz)
  then obtain l b p1 where a: "pool_alloc 0 example_pool no_block 10 = Some (0, \<lparr>block_data = block_ptr example_pool (lsz example_pool l) b,
      id_pool = 0 mod 2 ^ 8, id_level = l, id_block = b\<rparr>, p1)" by (rule pool_alloc_spec [OF example_pool_ok])
  then have "k_mem_pool_alloc 0 example_pool no_block 10 K_NO_WAIT pair_kernel =
      Some (Some 0, fst example_used, snd example_used, pair_kernel)"
    by (simp add: k_mem_pool_alloc_def alloc_turn_def example_used_def)
  from run_alloc [OF run_start this] have r: "pool_run example_pool (snd example_used) [fst example_used]" by simp
  obtain p k' where "k_mem_pool_free (fst example_used) (snd example_used) pair_kernel = Some (p, k')"
    by (rule k_mem_pool_free_spec [OF example_used_ok(1) _ pair_sched_ok, of "fst example_used"])
       (auto simp: pair_current is_in_isr_def)
  with run_free [OF r _ this] show thesis by (intro that) simp_all
qed

theorem pool_no_fragmentation_witness:
  "\<exists>p k'. k_mem_pool_free (fst example_used) (snd example_used) pair_kernel = Some (p, k') \<and> free_blocks p = {(0, 0)}"
proof -
  obtain p k' where f: "k_mem_pool_free (fst example_used) (snd example_used) pair_kernel = Some (p, k')"
    and r: "pool_run example_pool p []" by (rule example_pool_run)
  have s: "pool_buf example_static + n_max example_static * max_sz example_static = 4160" "pool_wait_q example_static = 7"
    by (simp_all add: example_static_def K_MEM_POOL_DEFINE_def)
  have "init_mem_pool example_static pair_kernel = Some (example_pool, pair_kernel\<lparr>queues := (queues pair_kernel)(WaitQ 7 := [])\<rparr>)"
    unfolding init_mem_pool_def Let_def s example_init by simp
  then have "init_mem_pool (K_MEM_POOL_DEFINE 4096 7 (4 * 4) (4 * 4 * 4 ^ 1) 1) pair_kernel =
      Some (example_pool, pair_kernel\<lparr>queues := (queues pair_kernel)(WaitQ 7 := [])\<rparr>)" by (simp add: example_static_def)
  from pool_no_fragmentation [OF _ _ _ _ this r, of 0 no_block 0 pair_kernel] f show ?thesis by simp
qed

end
