(* ===== verification/Ring_Buffer.thy ===== *)
theory Ring_Buffer
  imports Prelude
begin

text \<open>
  The ring buffer of \<^verbatim>\<open>lib/ring_buffer/ring_buffer.c\<close> and \<^verbatim>\<open>include/ring_buffer.h\<close>: items
  of a type, a value and some words, each stored as a header word and its data words, in an
  array of words that wraps around. Indices are reduced by a bit mask if the size is a power
  of two, and by a division otherwise.
\<close>

section \<open>Data\<close>

record ring_buf =
  ring_head :: u32
  ring_tail :: u32
  dropped_put_count :: u32
  ring_size :: u32
  ring_data :: "u32 list"
  ring_mask :: u32

text \<open>The header of an item: the bit fields of \<^verbatim>\<open>struct ring_element\<close>.\<close>

definition ring_element :: "u16 \<Rightarrow> u8 \<Rightarrow> u8 \<Rightarrow> u32" where
  "ring_element ty len val = ucast ty OR push_bit 16 (ucast len) OR push_bit 24 (ucast val)"

definition header_type :: "u32 \<Rightarrow> u16" where
  "header_type h = ucast h"

definition header_length :: "u32 \<Rightarrow> u8" where
  "header_length h = ucast (drop_bit 16 h)"

definition header_value :: "u32 \<Rightarrow> u8" where
  "header_value h = ucast (drop_bit 24 h)"

section \<open>Operations\<close>

definition is_power_of_two :: "u32 \<Rightarrow> bool" where
  "is_power_of_two x \<longleftrightarrow> x \<noteq> 0 \<and> x AND (x - 1) = 0"

definition sys_ring_buf_init :: "u32 \<Rightarrow> u32 list \<Rightarrow> ring_buf" where
  "sys_ring_buf_init n data =
     \<lparr>ring_head = 0, ring_tail = 0, dropped_put_count = 0, ring_size = n, ring_data = data,
      ring_mask = (if is_power_of_two n then n - 1 else 0)\<rparr>"

definition sys_ring_buf_is_empty :: "ring_buf \<Rightarrow> bool" where
  "sys_ring_buf_is_empty b \<longleftrightarrow> ring_head b = ring_tail b"

definition sys_ring_buf_space_get :: "ring_buf \<Rightarrow> u32" where
  "sys_ring_buf_space_get b =
     (if sys_ring_buf_is_empty b then ring_size b - 1
      else if ring_tail b < ring_head b then ring_head b - ring_tail b - 1
      else (ring_size b - ring_tail b) + ring_head b - 1)"

text \<open>The two ways to wrap an index, and the loops that copy the words of an item in and out.\<close>

definition ring_wrap :: "ring_buf \<Rightarrow> u32 \<Rightarrow> u32" where
  "ring_wrap b i = (if ring_mask b \<noteq> 0 then i AND ring_mask b else i mod ring_size b)"

fun ring_write :: "(u32 \<Rightarrow> u32) \<Rightarrow> u32 \<Rightarrow> u32 list \<Rightarrow> u32 list \<Rightarrow> u32 list" where
  "ring_write wrap i [] xs = xs"
| "ring_write wrap i (d # ds) xs = ring_write wrap (i + 1) ds (xs[unat (wrap i) := d])"

fun ring_read :: "(u32 \<Rightarrow> u32) \<Rightarrow> u32 \<Rightarrow> nat \<Rightarrow> u32 list \<Rightarrow> u32 list" where
  "ring_read wrap i 0 xs = []"
| "ring_read wrap i (Suc n) xs = xs ! unat (wrap i) # ring_read wrap (i + 1) n xs"

definition sys_ring_buf_put :: "ring_buf \<Rightarrow> u16 \<Rightarrow> u8 \<Rightarrow> u32 list \<Rightarrow> u8 \<Rightarrow> int \<times> ring_buf" where
  "sys_ring_buf_put b ty val data size32 =
     (let space = sys_ring_buf_space_get b
      in if ucast size32 + 1 \<le> space
         then let xs = (ring_data b)[unat (ring_tail b) := ring_element ty size32 val];
                  ys = ring_write (ring_wrap b) (ring_tail b + 1) (take (unat size32) data) xs
              in (0, b\<lparr>ring_data := ys, ring_tail := ring_wrap b (ring_tail b + ucast size32 + 1)\<rparr>)
         else (- EMSGSIZE, b\<lparr>dropped_put_count := dropped_put_count b + 1\<rparr>))"

text \<open>
  A call that succeeds returns the item it read through \<^verbatim>\<open>type\<close>, \<^verbatim>\<open>value\<close> and
  \<^verbatim>\<open>data\<close>; \<^verbatim>\<open>*size32\<close> is the last component of the result.
\<close>

definition sys_ring_buf_get :: "ring_buf \<Rightarrow> u8 \<Rightarrow> int \<times> ring_buf \<times> (u16 \<times> u8 \<times> u32 list) option \<times> u8" where
  "sys_ring_buf_get b size32 =
     (if sys_ring_buf_is_empty b then (- EAGAIN, b, None, size32)
      else
        let h = ring_data b ! unat (ring_head b); n = header_length h
        in if size32 < n then (- EMSGSIZE, b, None, n)
           else (0, b\<lparr>ring_head := ring_wrap b (ring_head b + ucast n + 1)\<rparr>,
                 Some (header_type h, header_value h, ring_read (ring_wrap b) (ring_head b + 1) (unat n) (ring_data b)), n))"

section \<open>The header\<close>

lemma header_fields [simp]:
  "header_type (ring_element t n v) = t" "header_length (ring_element t n v) = n"
  "header_value (ring_element t n v) = v"
  by (rule bit_word_eqI; auto simp: header_type_def header_length_def header_value_def ring_element_def bit_simps
      dest: bit_imp_le_length)+

section \<open>Wrapping\<close>

text \<open>A number without two bits in common with its predecessor is a power of two.\<close>

lemma power_of_two_nat:
  fixes x :: nat
  assumes "0 < x" "x AND (x - 1) = 0"
  shows "\<exists>n. x = 2 ^ n"
  using assms
proof (induction x rule: less_induct)
  case (less x)
  show ?case
  proof (cases "even x")
    case True
    then obtain y where y: "x = 2 * y" "0 < y" using less.prems(1) by (auto elim: evenE)
    then have "x - 1 = 2 * (y - 1) + 1" by simp
    then have "x AND (x - 1) = 2 * (y AND (y - 1))"
      unfolding y(1) by (subst and_rec) simp
    with less.prems(2) have "y AND (y - 1) = 0" by simp
    then obtain n where "y = 2 ^ n" using less.IH [of y] y by auto
    with y have "x = 2 ^ Suc n" by simp
    then show ?thesis ..
  next
    case False
    then obtain y where y: "x = 2 * y + 1" by (auto elim: oddE)
    then have "x AND (x - 1) = 2 * (y AND y)" by (subst and_rec) simp
    with less.prems(2) y have "x = 2 ^ 0" by simp
    then show ?thesis ..
  qed
qed

lemma power_of_two:
  assumes "is_power_of_two x"
  obtains n where "n < 32" "x = 2 ^ n"
proof -
  have x: "x \<noteq> 0" "x AND (x - 1) = 0" using assms by (simp_all add: is_power_of_two_def)
  then have "unat (x AND (x - 1)) = 0" by simp
  then have "unat x AND (unat x - 1) = 0" using x(1) by (simp add: unsigned_and_eq unat_minus_one)
  then obtain n where n: "unat x = 2 ^ n" using power_of_two_nat [of "unat x"] x(1) by (auto simp: unat_gt_0)
  then have "(2::nat) ^ n < 2 ^ 32" using unat_bound [of x] by simp
  then have "n < 32" by (rule power_less_imp_less_exp [rotated]) simp
  moreover have "x = of_nat (unat x)" by simp
  then have "x = 2 ^ n" unfolding n by simp
  ultimately show thesis by (rule that)
qed

lemma ring_wrap_mod:
  assumes "is_power_of_two (ring_size b) \<Longrightarrow> ring_mask b = ring_size b - 1"
    and "\<not> is_power_of_two (ring_size b) \<Longrightarrow> ring_mask b = 0"
  shows "ring_wrap b i = i mod ring_size b"
proof (cases "is_power_of_two (ring_size b)")
  case True
  then obtain n where n: "n < 32" "ring_size b = 2 ^ n" by (rule power_of_two)
  have "i AND (2 ^ n - 1) = i mod 2 ^ n"
    by (metis mask_eq_exp_minus_1 take_bit_eq_mask take_bit_eq_mod)
  with n assms(1) [OF True] show ?thesis by (simp add: ring_wrap_def)
qed (simp add: ring_wrap_def assms(2))

section \<open>What the buffer holds\<close>

text \<open>The words from an index on, around the end of the array.\<close>

definition around :: "u32 list \<Rightarrow> nat \<Rightarrow> nat \<Rightarrow> u32 list" where
  "around xs h n = map (\<lambda>i. xs ! ((h + i) mod length xs)) [0..<n]"

lemma length_around [simp]: "length (around xs h n) = n"
  by (simp add: around_def)

lemma around_add: "around xs h (m + n) = around xs h m @ around xs (h + m) n"
  by (rule nth_equalityI) (auto simp: around_def nth_append add.assoc)

lemma around_mod: "around xs (h mod length xs) n = around xs h n"
  by (simp add: around_def mod_add_left_eq)

lemma mod_neq:
  fixes h :: nat
  assumes "i < u" "u < n" shows "(h + i) mod n \<noteq> (h + u) mod n"
proof
  assume "(h + i) mod n = (h + u) mod n"
  then have "n dvd (h + u) - (h + i)" using assms by (metis add_le_cancel_left less_imp_le mod_eq_dvd_iff_nat)
  then show False using assms by (auto dest: dvd_imp_le)
qed

lemma around_update:
  assumes "u < length xs"
  shows "around (xs[(h + u) mod length xs := d]) h (Suc u) = around xs h u @ [d]"
proof (rule nth_equalityI)
  have ne: "xs \<noteq> []" using assms by auto
  fix i assume i: "i < length (around (xs[(h + u) mod length xs := d]) h (Suc u))"
  then show "around (xs[(h + u) mod length xs := d]) h (Suc u) ! i = (around xs h u @ [d]) ! i"
    using assms mod_neq [of i u "length xs" h] ne
    by (cases "i = u") (auto simp: around_def nth_append simp del: upt_Suc)
qed simp

lemma ring_write_around:
  assumes w: "\<And>i. wrap i = i mod n" and n: "unat n = length xs" "0 < length xs"
    and p: "unat p + length ds < 2 ^ 32" "unat p mod length xs = (h + u) mod length xs" "u + length ds \<le> length xs"
  shows "around (ring_write wrap p ds xs) h (u + length ds) = around xs h u @ ds \<and>
    length (ring_write wrap p ds xs) = length xs"
  using n p
proof (induction ds arbitrary: p xs u)
  case (Cons d ds)
  let ?xs = "xs[unat (wrap p) := d]"
  have q: "unat (p + 1) = unat p + 1" using Cons.prems(3) by (intro unat_Suc_not_max) (auto simp: unat_minus_1)
  have "unat (wrap p) = (h + u) mod length xs" using Cons.prems by (simp add: w unat_mod)
  then have a: "around ?xs h (Suc u) = around xs h u @ [d]" using around_update [of u xs h d] Cons.prems by simp
  have "unat (p + 1) mod length xs = (h + Suc u) mod length xs"
    using Cons.prems(4) q by (metis add_Suc_right mod_Suc_eq Suc_eq_plus1)
  then have "around (ring_write wrap (p + 1) ds ?xs) h (Suc u + length ds) = around ?xs h (Suc u) @ ds \<and>
      length (ring_write wrap (p + 1) ds ?xs) = length ?xs"
    using Cons.prems q by (intro Cons.IH) simp_all
  with a show ?case by simp
qed simp

lemma ring_read_around:
  assumes w: "\<And>i. wrap i = i mod n" and n: "unat n = length xs" and p: "unat p + m < 2 ^ 32"
  shows "ring_read wrap p m xs = around xs (unat p) m"
  using p
proof (induction m arbitrary: p)
  case (Suc m)
  have q: "unat (p + 1) = unat p + 1" using Suc.prems by (intro unat_Suc_not_max) (auto simp: unat_minus_1)
  have "around xs (unat p) (Suc m) = xs ! (unat p mod length xs) # around xs (unat p + 1) m"
    using around_add [of xs "unat p" 1 m] by (simp add: around_def)
  then show ?case using Suc.IH [of "p + 1"] Suc.prems q n by (simp add: w unat_mod)
qed (simp add: around_def)

text \<open>How many words are in use, and which.\<close>

definition ring_used :: "ring_buf \<Rightarrow> nat" where
  "ring_used b = (unat (ring_tail b) + unat (ring_size b) - unat (ring_head b)) mod unat (ring_size b)"

definition ring_words :: "ring_buf \<Rightarrow> u32 list" where
  "ring_words b = around (ring_data b) (unat (ring_head b)) (ring_used b)"

definition ring_inv :: "ring_buf \<Rightarrow> bool" where
  "ring_inv b \<longleftrightarrow> 0 < unat (ring_size b) \<and> unat (ring_size b) + 256 < 2 ^ 32 \<and>
     length (ring_data b) = unat (ring_size b) \<and>
     unat (ring_head b) < unat (ring_size b) \<and> unat (ring_tail b) < unat (ring_size b) \<and>
     ring_mask b = (if is_power_of_two (ring_size b) then ring_size b - 1 else 0)"

lemma ring_invD:
  assumes "ring_inv b"
  shows "0 < unat (ring_size b)" "unat (ring_size b) + 256 < 2 ^ 32" "length (ring_data b) = unat (ring_size b)"
    "unat (ring_head b) < unat (ring_size b)" "unat (ring_tail b) < unat (ring_size b)"
    "ring_wrap b i = i mod ring_size b"
  using assms ring_wrap_mod [of b i] by (simp_all add: ring_inv_def)

lemma ring_used_eq:
  fixes h u n :: nat
  assumes "h < n" "u < n"
  shows "((h + u) mod n + n - h) mod n = u"
proof (cases "h + u < n")
  case False
  then have "(h + u) mod n = h + u - n" using assms by (simp add: mod_if)
  with False assms show ?thesis by simp
qed (use assms in simp)

lemma ring_used_tail:
  assumes "ring_inv b"
  shows "ring_used b < unat (ring_size b)" "unat (ring_tail b) = (unat (ring_head b) + ring_used b) mod unat (ring_size b)"
proof -
  note i = ring_invD [OF assms]
  show "ring_used b < unat (ring_size b)" using i(1) by (simp add: ring_used_def)
  have "(unat (ring_head b) + ring_used b) mod unat (ring_size b) =
      (unat (ring_head b) + (unat (ring_tail b) + unat (ring_size b) - unat (ring_head b))) mod unat (ring_size b)"
    by (simp add: ring_used_def mod_add_right_eq)
  also have "\<dots> = unat (ring_tail b)" using i(4,5) by simp
  finally show "unat (ring_tail b) = (unat (ring_head b) + ring_used b) mod unat (ring_size b)" by simp
qed

lemma space_get_free:
  assumes "ring_inv b"
  shows "unat (sys_ring_buf_space_get b) = unat (ring_size b) - 1 - ring_used b"
proof -
  note i = ring_invD [OF assms]
  consider "ring_head b = ring_tail b" | "ring_tail b < ring_head b" | "ring_head b < ring_tail b" by force
  then show ?thesis
  proof cases
    case 1
    with i show ?thesis by (simp add: sys_ring_buf_space_get_def sys_ring_buf_is_empty_def ring_used_def unat_minus_one unat_gt_0)
  next
    case 2
    then have "unat (ring_tail b) < unat (ring_head b)" by (simp add: word_less_nat_alt)
    moreover have "unat (ring_head b - ring_tail b) = unat (ring_head b) - unat (ring_tail b)"
      using calculation by (simp add: unat_sub_if')
    ultimately have "unat (ring_head b - ring_tail b - 1) = unat (ring_head b) - unat (ring_tail b) - 1"
      by (subst unat_minus_one) auto
    with 2 i \<open>unat (ring_tail b) < unat (ring_head b)\<close> show ?thesis
      by (auto simp: sys_ring_buf_space_get_def sys_ring_buf_is_empty_def ring_used_def)
  next
    case 3
    then have l: "unat (ring_head b) < unat (ring_tail b)" by (simp add: word_less_nat_alt)
    have "unat (ring_size b - ring_tail b) = unat (ring_size b) - unat (ring_tail b)" using i(5) by (simp add: unat_sub_if')
    moreover have "unat (ring_size b - ring_tail b + ring_head b) = unat (ring_size b) - unat (ring_tail b) + unat (ring_head b)"
      using i l by (subst unat_add_exact) (simp_all add: unat_sub_if')
    ultimately have "unat (ring_size b - ring_tail b + ring_head b - 1) =
        unat (ring_size b) - unat (ring_tail b) + unat (ring_head b) - 1"
      using i(5) l by (subst unat_minus_one) auto
    moreover have e: "unat (ring_tail b) + unat (ring_size b) - unat (ring_head b) =
        unat (ring_tail b) - unat (ring_head b) + unat (ring_size b)" using l by simp
    have "ring_used b = unat (ring_tail b) - unat (ring_head b)" unfolding ring_used_def e using i(5) by simp
    ultimately show ?thesis using 3 i(5) l by (auto simp: sys_ring_buf_space_get_def sys_ring_buf_is_empty_def)
  qed
qed

section \<open>Specification\<close>

text \<open>The buffer is a queue of items; the words in use are their encodings one after the other.\<close>

type_synonym item = "u16 \<times> u8 \<times> u32 list"

fun encode :: "item list \<Rightarrow> u32 list" where
  "encode [] = []"
| "encode ((t, v, ws) # xs) = ring_element t (of_nat (length ws)) v # ws @ encode xs"

definition holds :: "ring_buf \<Rightarrow> item list \<Rightarrow> bool" where
  "holds b items \<longleftrightarrow> ring_inv b \<and> ring_words b = encode items \<and> (\<forall>(t, v, ws) \<in> set items. length ws < 256)"

lemma encode_append: "encode (xs @ ys) = encode xs @ encode ys"
  by (induction xs rule: encode.induct) auto

lemma encode_Nil_iff: "encode xs = [] \<longleftrightarrow> xs = []"
  by (cases xs rule: encode.cases) auto

lemma ring_empty_iff:
  assumes "ring_inv b" shows "sys_ring_buf_is_empty b \<longleftrightarrow> ring_used b = 0"
proof -
  note i = ring_invD [OF assms]
  have "ring_used b = 0 \<Longrightarrow> ring_tail b = ring_head b"
    using ring_used_tail [OF assms] i(4) by (intro unsigned_word_eqI [where 'a = nat]) simp
  then show ?thesis using i(4) by (auto simp: sys_ring_buf_is_empty_def ring_used_def)
qed

lemma unat_size32 [simp]: "unat (ucast (n :: u8) :: u32) = unat n"
  using unat_bound [of n] by (simp add: unsigned_ucast_eq take_bit_nat_eq_self)

lemma unat_u8_less: "unat (n :: u8) < 256"
  using unat_bound [of n] by simp

lemma unat_item_end: "unat (p :: u32) + 256 < 2 ^ 32 \<Longrightarrow> unat (p + ucast (n :: u8) + 1) = unat p + unat n + 1"
  using unat_u8_less [of n] by (simp add: unat_add_exact)

lemma sys_ring_buf_put_spec:
  assumes h: "holds b items" and d: "unat size32 \<le> length data"
    and f: "length (encode items) + unat size32 + 1 < unat (ring_size b)"
  obtains b' where "sys_ring_buf_put b ty val data size32 = (0, b')"
    and "holds b' (items @ [(ty, val, take (unat size32) data)])" and "dropped_put_count b' = dropped_put_count b"
proof -
  have v: "ring_inv b" and w: "ring_words b = encode items" using h by (simp_all add: holds_def)
  note i = ring_invD [OF v] and t = ring_used_tail [OF v]
  let ?N = "unat (ring_size b)" and ?h = "unat (ring_head b)" and ?u = "ring_used b" and ?n = "unat size32"
  let ?ds = "ring_element ty size32 val # take ?n data"
  let ?ys = "ring_write (ring_wrap b) (ring_tail b) ?ds (ring_data b)"
  let ?b = "b\<lparr>ring_data := ?ys, ring_tail := ring_wrap b (ring_tail b + ucast size32 + 1)\<rparr>"
  have u: "?u = length (encode items)" using w by (metis length_around ring_words_def)
  have ds: "length ?ds = ?n + 1" using d by simp
  have "unat (ring_wrap b (ring_tail b)) = unat (ring_tail b)" using i(5) by (simp add: i(6) unat_mod)
  then have e: "ring_write (ring_wrap b) (ring_tail b + 1) (take ?n data)
      ((ring_data b)[unat (ring_tail b) := ring_element ty size32 val]) = ?ys" by simp
  have "?n + 1 \<le> ?N - 1 - ?u" using f u by linarith
  then have "ucast size32 + 1 \<le> sys_ring_buf_space_get b"
    using space_get_free [OF v] unat_u8_less [of size32] by (simp add: word_le_nat_alt unat_add_exact)
  then have put: "sys_ring_buf_put b ty val data size32 = (0, ?b)"
    by (simp only: sys_ring_buf_put_def Let_def e if_True)
  have ys: "around ?ys ?h (?u + length ?ds) = around (ring_data b) ?h ?u @ ?ds" "length ?ys = length (ring_data b)"
  proof -
    have "unat (ring_tail b) mod length (ring_data b) = (?h + ?u) mod length (ring_data b)" by (simp add: t i(3))
    moreover have "unat (ring_tail b) + length ?ds < 2 ^ 32" using i(2,5) ds unat_u8_less [of size32] by linarith
    moreover have "?u + length ?ds \<le> length (ring_data b)" "0 < length (ring_data b)"
      using i(1) u f unfolding ds i(3) by linarith+
    ultimately show "around ?ys ?h (?u + length ?ds) = around (ring_data b) ?h ?u @ ?ds" "length ?ys = length (ring_data b)"
      using ring_write_around [OF i(6) i(3) [symmetric], of "ring_tail b" ?ds ?h ?u] by blast+
  qed
  have tl: "unat (ring_tail ?b) = (?h + (?u + ?n + 1)) mod ?N"
  proof -
    have "unat (ring_tail ?b) = (unat (ring_tail b) + (?n + 1)) mod ?N"
      using unat_item_end [of "ring_tail b" size32] i(2,5) by (simp add: i(6) unat_mod)
    also have "\<dots> = (?h + (?u + ?n + 1)) mod ?N" unfolding t(2) by (simp only: mod_add_left_eq add.assoc)
    finally show ?thesis .
  qed
  have used: "ring_used ?b = ?u + ?n + 1"
    using ring_used_eq [of ?h ?N "?u + ?n + 1"] i(4) f u tl by (simp add: ring_used_def)
  have "ring_inv ?b" using v ys(2) tl i(1) by (simp add: ring_inv_def)
  moreover have "ring_words ?b = encode (items @ [(ty, val, take ?n data)])"
    using ys ds d w used by (simp add: ring_words_def encode_append min_absorb2)
  ultimately have "holds ?b (items @ [(ty, val, take ?n data)])"
    using h unat_u8_less [of size32] by (auto simp: holds_def)
  with put show thesis by (intro that [of ?b]) simp_all
qed

lemma sys_ring_buf_put_full:
  assumes h: "holds b items" and f: "\<not> length (encode items) + unat size32 + 1 < unat (ring_size b)"
  shows "sys_ring_buf_put b ty val data size32 = (- EMSGSIZE, b\<lparr>dropped_put_count := dropped_put_count b + 1\<rparr>)"
    and "holds (b\<lparr>dropped_put_count := c\<rparr>) items"
proof -
  have v: "ring_inv b" and w: "ring_words b = encode items" using h by (simp_all add: holds_def)
  have "ring_used b = length (encode items)" using w by (metis length_around ring_words_def)
  then have "\<not> ucast size32 + 1 \<le> sys_ring_buf_space_get b"
    using f space_get_free [OF v] ring_used_tail(1) [OF v] unat_u8_less [of size32]
    by (simp add: word_le_nat_alt unat_add_exact)
  then show "sys_ring_buf_put b ty val data size32 = (- EMSGSIZE, b\<lparr>dropped_put_count := dropped_put_count b + 1\<rparr>)"
    by (simp add: sys_ring_buf_put_def)
  show "holds (b\<lparr>dropped_put_count := c\<rparr>) items"
    using h by (simp add: holds_def ring_inv_def ring_words_def ring_used_def)
qed

lemma sys_ring_buf_get_spec:
  assumes h: "holds b ((t, v, ws) # items)" and n: "length ws \<le> unat size32"
  obtains b' where "sys_ring_buf_get b size32 = (0, b', Some (t, v, ws), of_nat (length ws))"
    and "holds b' items" and "dropped_put_count b' = dropped_put_count b"
proof -
  let ?n = "length ws" and ?N = "unat (ring_size b)" and ?h = "unat (ring_head b)" and ?u = "ring_used b"
  have iv: "ring_inv b" and w: "ring_words b = ring_element t (of_nat ?n) v # ws @ encode items" and l: "?n < 256"
    using h by (auto simp: holds_def)
  note i = ring_invD [OF iv] and tl = ring_used_tail [OF iv]
  have u: "?u = ?n + 1 + length (encode items)" using arg_cong [OF w, of length] by (simp add: ring_words_def)
  have un: "unat (of_nat ?n :: u8) = ?n" using l by (simp add: unsigned_of_nat take_bit_nat_eq_self)
  have "around (ring_data b) ?h (1 + ?n + length (encode items)) = ring_element t (of_nat ?n) v # ws @ encode items"
    using w u by (simp add: ring_words_def add.commute)
  then have a: "around (ring_data b) ?h 1 = [ring_element t (of_nat ?n) v]" "around (ring_data b) (?h + 1) ?n = ws"
    "around (ring_data b) (?h + (1 + ?n)) (length (encode items)) = encode items"
    unfolding around_add by (auto simp: append_eq_append_conv around_def)
  let ?b = "b\<lparr>ring_head := ring_wrap b (ring_head b + ucast (of_nat ?n :: u8) + 1)\<rparr>"
  have hd: "ring_data b ! ?h = ring_element t (of_nat ?n) v" using a(1) i(3,4) by (simp add: around_def)
  have q: "unat (ring_head b + 1) = ?h + 1" using i(2,4) by (intro unat_Suc_not_max) (auto simp: unat_minus_1)
  have "ring_read (ring_wrap b) (ring_head b + 1) ?n (ring_data b) = ws"
    using ring_read_around [OF i(6) i(3) [symmetric], of "ring_head b + 1" ?n] i(2,4) l a(2) q by simp
  then have get: "sys_ring_buf_get b size32 = (0, ?b, Some (t, v, ws), of_nat ?n)"
    using ring_empty_iff [OF iv] u n un by (simp add: sys_ring_buf_get_def hd Let_def word_less_nat_alt)
  have hd': "unat (ring_head ?b) = (?h + (1 + ?n)) mod ?N"
    using unat_item_end [of "ring_head b" "of_nat ?n"] i(2,4) un by (simp add: i(6) unat_mod)
  have "(unat (ring_head ?b) + length (encode items)) mod ?N = unat (ring_tail b)"
    unfolding hd' tl(2) u by (simp only: mod_add_left_eq) (simp add: ac_simps)
  then have used: "ring_used ?b = length (encode items)"
    using ring_used_eq [of "unat (ring_head ?b)" ?N "length (encode items)"] hd' i(1) tl(1) u by (simp add: ring_used_def)
  have "ring_inv ?b" using iv hd' i(1) by (simp add: ring_inv_def)
  moreover have "ring_words ?b = encode items"
    using a(3) used hd' around_mod [of "ring_data b" "?h + (1 + ?n)"] i(3) by (simp add: ring_words_def)
  ultimately have "holds ?b items" using h by (simp add: holds_def)
  with get show thesis by (intro that [of ?b]) simp_all
qed

lemma sys_ring_buf_get_short:
  assumes h: "holds b ((t, v, ws) # items)" and n: "unat size32 < length ws"
  shows "sys_ring_buf_get b size32 = (- EMSGSIZE, b, None, of_nat (length ws))"
proof -
  have iv: "ring_inv b" and w: "ring_words b = ring_element t (of_nat (length ws)) v # ws @ encode items" and l: "length ws < 256"
    using h by (auto simp: holds_def)
  have "ring_used b \<noteq> 0" using arg_cong [OF w, of length] by (simp add: ring_words_def)
  moreover from this w have "ring_data b ! unat (ring_head b) = ring_element t (of_nat (length ws)) v"
    using ring_invD(3,4) [OF iv] by (cases "ring_used b") (auto simp: ring_words_def around_def upt_conv_Cons simp del: upt_Suc)
  ultimately show ?thesis
    using ring_empty_iff [OF iv] n l
    by (simp add: sys_ring_buf_get_def Let_def word_less_nat_alt unsigned_of_nat take_bit_nat_eq_self)
qed

lemma sys_ring_buf_init_holds:
  assumes "0 < n" "unat n + 256 < 2 ^ 32" "length data = unat n"
  shows "holds (sys_ring_buf_init n data) []"
  using assms by (simp add: holds_def ring_inv_def sys_ring_buf_init_def ring_words_def ring_used_def around_def unat_gt_0)

definition example_ring :: ring_buf where
  "example_ring = sys_ring_buf_init 5 [0, 0, 0, 0, 0]"

lemma example_ring_holds: "holds example_ring []" "ring_size example_ring = 5"
  by (simp_all add: example_ring_def sys_ring_buf_init_holds) (simp add: sys_ring_buf_init_def)

section \<open>Properties\<close>

text \<open>
  C17. Putting an item into a ring buffer appends it to the items the buffer holds, wherever
  in the array it ends and whether indices wrap by mask or by division; if it does not
  fit, nothing changes but the count of dropped items, and the call returns
  \<^verbatim>\<open>-EMSGSIZE\<close>.
\<close>

theorem sys_ring_buf_put_refines:
  assumes "holds b items" and "unat size32 \<le> length data"
  shows "let (rc, b') = sys_ring_buf_put b ty val data size32 in
    if length (encode items) + unat size32 + 1 < unat (ring_size b)
    then rc = 0 \<and> holds b' (items @ [(ty, val, take (unat size32) data)]) \<and> dropped_put_count b' = dropped_put_count b
    else rc = - EMSGSIZE \<and> holds b' items \<and> dropped_put_count b' = dropped_put_count b + 1"
proof (cases "length (encode items) + unat size32 + 1 < unat (ring_size b)")
  case True
  show ?thesis by (rule sys_ring_buf_put_spec [OF assms True, where ty = ty and val = val]) (use True in simp)
qed (use sys_ring_buf_put_full [OF assms(1)] in simp)

theorem sys_ring_buf_put_refines_witness:
  "holds (snd (sys_ring_buf_put example_ring 7 1 [10, 11] 2)) [(7, 1, [10, 11])]"
  using sys_ring_buf_put_refines [OF example_ring_holds(1), of 2 "[10, 11]" 7 1]
  by (simp add: example_ring_holds case_prod_unfold Let_def)

text \<open>
  Getting an item takes out the one that was put in first, with its type, its value and
  all its words; without room for its words it stays, the call returns \<^verbatim>\<open>-EMSGSIZE\<close>
  and the size it needs; an empty buffer makes the call return \<^verbatim>\<open>-EAGAIN\<close>.
\<close>

theorem sys_ring_buf_get_refines:
  assumes h: "holds b items"
  shows "case items of
      [] \<Rightarrow> sys_ring_buf_get b size32 = (- EAGAIN, b, None, size32)
    | (t, v, ws) # rest \<Rightarrow>
        if length ws \<le> unat size32
        then \<exists>b'. sys_ring_buf_get b size32 = (0, b', Some (t, v, ws), of_nat (length ws)) \<and> holds b' rest
        else sys_ring_buf_get b size32 = (- EMSGSIZE, b, None, of_nat (length ws))"
proof (cases items)
  case Nil
  then have "ring_used b = 0" using h length_around [of "ring_data b"] by (metis encode.simps(1) holds_def list.size(3) ring_words_def)
  then show ?thesis using Nil h ring_empty_iff [of b] by (simp add: sys_ring_buf_get_def holds_def)
next
  case (Cons it rest)
  obtain t v ws where it: "it = (t, v, ws)" by (cases it)
  have h': "holds b ((t, v, ws) # rest)" using h Cons it by simp
  show ?thesis
  proof (cases "length ws \<le> unat size32")
    case True
    show ?thesis by (rule sys_ring_buf_get_spec [OF h' True]) (use True Cons it in auto)
  qed (use Cons it sys_ring_buf_get_short [OF h'] in simp)
qed

theorem sys_ring_buf_get_refines_witness:
  "\<exists>b. sys_ring_buf_get (snd (sys_ring_buf_put example_ring 7 1 [10, 11] 2)) 4 = (0, b, Some (7, 1, [10, 11]), 2)"
proof -
  have "unat (2::u8) \<le> length [10::u32, 11]" "length (encode []) + unat (2::u8) + 1 < unat (ring_size example_ring)"
    by (simp_all add: example_ring_holds)
  then obtain b' where "sys_ring_buf_put example_ring 7 1 [10, 11] 2 = (0, b')"
    and "holds b' ([] @ [(7, 1, take (unat (2::u8)) [10, 11])])"
    by (rule sys_ring_buf_put_spec [OF example_ring_holds(1)])
  then show ?thesis using sys_ring_buf_get_refines [of b' "[(7, 1, [10, 11])]" 4] by auto
qed

end
