(* ===== verification/Heap.thy ===== *)
theory Heap
  imports Mem_Pool Libc_String
begin

text \<open>
  The heap (the end of \<^verbatim>\<open>kernel/mempool.c\<close>): \<^verbatim>\<open>k_malloc\<close> allocates a block from the memory pool of the heap and
  keeps the block's descriptor in its first eight bytes, where \<^verbatim>\<open>k_free\<close> finds it. Sizes are 32-bit words, with the
  wrap-around of \<^verbatim>\<open>size_t\<close>. The pools are a function of their index in the list of static pools; the contents of the
  memory are bytes. The pool keeps its list nodes inside free blocks, so that the contents of free blocks mean nothing.
\<close>

section \<open>Pools and descriptors\<close>

definition get_pool :: "(nat \<Rightarrow> k_mem_pool) \<Rightarrow> nat \<Rightarrow> k_mem_pool" where
  "get_pool pools i = pools i"

text \<open>\<^verbatim>\<open>struct k_mem_block\<close> in memory: the address of the data and the three bit fields of the identity.\<close>

definition block_id :: "k_mem_block \<Rightarrow> u32" where
  "block_id blk = of_nat (id_pool blk + 2 ^ 8 * id_level blk + 2 ^ 12 * id_block blk)"

definition store_block :: "nat \<Rightarrow> k_mem_block \<Rightarrow> mem \<Rightarrow> mem" where
  "store_block a blk m = store32 (a + 4) (block_id blk) (store32 a (of_nat (block_data blk)) m)"

definition load_block :: "mem \<Rightarrow> nat \<Rightarrow> k_mem_block" where
  "load_block m a =
     (let w = unat (load32 m (a + 4))
      in \<lparr>block_data = unat (load32 m a), id_pool = w mod 2 ^ 8, id_level = w div 2 ^ 8 mod 2 ^ 4, id_block = w div 2 ^ 12\<rparr>)"

definition sizeof_k_mem_block :: nat where
  "sizeof_k_mem_block = 8"

section \<open>The calls\<close>

text \<open>
  The null pointer is 0; \<open>junk\<close> is the uninitialised descriptor on the stack, \<open>h\<close> the index of the
  heap's pool.
\<close>

definition k_malloc ::
  "nat \<Rightarrow> k_mem_block \<Rightarrow> u32 \<Rightarrow> (nat \<Rightarrow> k_mem_pool) \<Rightarrow> mem \<Rightarrow> 'a kernel_scheme \<Rightarrow>
   (nat \<times> (nat \<Rightarrow> k_mem_pool) \<times> mem \<times> 'a kernel_scheme) option" where
  "k_malloc h junk sz pools m k = do {
     let sz1 = sz + of_nat sizeof_k_mem_block;
     (r, block, p1, k1) \<leftarrow> k_mem_pool_alloc h (get_pool pools h) junk (unat sz1) K_NO_WAIT k;
     if r \<noteq> Some 0 then Some (0, pools(h := p1), m, k1)
     else Some (block_data block + sizeof_k_mem_block, pools(h := p1), store_block (block_data block) block m, k1)
   }"

definition k_free ::
  "nat \<Rightarrow> (nat \<Rightarrow> k_mem_pool) \<Rightarrow> mem \<Rightarrow> 'a kernel_scheme \<Rightarrow> ((nat \<Rightarrow> k_mem_pool) \<times> 'a kernel_scheme) option" where
  "k_free ptr pools m k =
     (if ptr \<noteq> 0
      then do {
        let block = load_block m (ptr - sizeof_k_mem_block);
        (p1, k1) \<leftarrow> k_mem_pool_free block (get_pool pools (id_pool block)) k;
        Some (pools(id_pool block := p1), k1)
      }
      else Some (pools, k))"

definition k_calloc ::
  "nat \<Rightarrow> k_mem_block \<Rightarrow> u32 \<Rightarrow> u32 \<Rightarrow> (nat \<Rightarrow> k_mem_pool) \<Rightarrow> mem \<Rightarrow> 'a kernel_scheme \<Rightarrow>
   (nat \<times> (nat \<Rightarrow> k_mem_pool) \<times> mem \<times> 'a kernel_scheme) option" where
  "k_calloc h junk nmemb sz pools m k = do {
     let bounds = nmemb * sz;
     (ret, pools1, m1, k1) \<leftarrow> k_malloc h junk bounds pools m k;
     Some (ret, pools1, if ret \<noteq> 0 then snd (memset ret 0 (unat bounds) m1) else m1, k1)
   }"

section \<open>Descriptors in memory\<close>

lemma load_store_block:
  assumes "block_data blk < 2 ^ 32" "id_pool blk < 2 ^ 8" "id_level blk < 2 ^ 4" "id_block blk < 2 ^ 20"
  shows "load_block (store_block a blk m) a = blk"
proof -
  have n: "unat (of_nat n :: u32) = n" if "n < 2 ^ 32" for n using that by (simp add: unat_of_nat take_bit_nat_eq_self_iff)
  have lt: "id_pool blk + 2 ^ 8 * id_level blk + 2 ^ 12 * id_block blk < 2 ^ 32" using assms by simp
  have "unat (block_id blk) = id_pool blk + 2 ^ 8 * id_level blk + 2 ^ 12 * id_block blk"
    unfolding block_id_def by (rule n [OF lt])
  then have w: "unat (block_id blk) = id_pool blk + 2 ^ 8 * (id_level blk + 2 ^ 4 * id_block blk)" by simp
  have "unat (of_nat (block_data blk) :: u32) = block_data blk" by (rule n [OF assms(1)])
  moreover have "unat (block_id blk) mod 2 ^ 8 = id_pool blk" using assms(2) by (simp only: w mod_mult_self2 mod_less)
  moreover have d: "unat (block_id blk) div 2 ^ 8 = id_level blk + 2 ^ 4 * id_block blk"
    using assms(2) div_mult_self2 [of "2 ^ 8" "id_pool blk" "id_level blk + 2 ^ 4 * id_block blk"] by (simp only: w) simp
  moreover have "unat (block_id blk) div 2 ^ 12 = unat (block_id blk) div 2 ^ 8 div 2 ^ 4" by (simp flip: div_mult2_eq)
  then have "unat (block_id blk) div 2 ^ 12 = id_block blk" unfolding d using assms(3) by simp
  ultimately show ?thesis using assms(3)
    by (cases blk) (simp add: load_block_def store_block_def Let_def load_store32_apart apart_def)
qed

lemma load_block_cong: "(\<And>i. i < 8 \<Longrightarrow> m' (a + i) = m (a + i)) \<Longrightarrow> load_block m' a = load_block m a"
proof -
  assume e: "\<And>i. i < 8 \<Longrightarrow> m' (a + i) = m (a + i)"
  have "load32 m' a = load32 m a" "load32 m' (a + 4) = load32 m (a + 4)" by (rule load32_cong; simp add: e add.assoc)+
  then show ?thesis by (simp add: load_block_def)
qed

lemma store_block_other: "x \<notin> {a ..< a + 8} \<Longrightarrow> store_block a blk m x = m x"
  by (auto simp: store_block_def store32_def poke_apply)

section \<open>The heap\<close>

text \<open>
  The invariant of the heap: the pool is well formed with the blocks \<open>A\<close> allocated, it lies in the address space, and
  every allocated block starts with its descriptor.
\<close>

definition heap_inv :: "nat \<Rightarrow> (nat \<Rightarrow> k_mem_pool) \<Rightarrow> mem \<Rightarrow> (nat \<times> nat) set \<Rightarrow> bool" where
  "heap_inv h pools m A \<longleftrightarrow> (let p = pools h in
     h < 2 ^ 8 \<and> pool_ok p A \<and> 0 < pool_buf p \<and> pool_buf p + buf_size p \<le> 2 ^ 32 \<and> 8 \<le> lsz p (n_levels p - 1) \<and>
     (\<forall>(l, b) \<in> A. load_block m (block_ptr p (lsz p l) b) =
        \<lparr>block_data = block_ptr p (lsz p l) b, id_pool = h, id_level = l, id_block = b\<rparr>))"

text \<open>The bytes that belong to the caller: those of an allocated block behind its descriptor.\<close>

definition user_bytes :: "k_mem_pool \<Rightarrow> nat \<times> nat \<Rightarrow> nat set" where
  "user_bytes p t = {block_ptr p (lsz p (fst t)) (snd t) + 8 ..< block_ptr p (lsz p (fst t)) (snd t) + lsz p (fst t)}"


lemma heap_invD:
  assumes "heap_inv h pools m A"
  shows "h < 2 ^ 8" "pool_ok (pools h) A" "0 < pool_buf (pools h)" "pool_buf (pools h) + buf_size (pools h) \<le> 2 ^ 32"
    "l < n_levels (pools h) \<Longrightarrow> 8 \<le> lsz (pools h) l"
    "(l, b) \<in> A \<Longrightarrow> load_block m (block_ptr (pools h) (lsz (pools h) l) b) =
       \<lparr>block_data = block_ptr (pools h) (lsz (pools h) l) b, id_pool = h, id_level = l, id_block = b\<rparr>"
proof -
  note d = assms [unfolded heap_inv_def Let_def]
  from d show "h < 2 ^ 8" "pool_ok (pools h) A" "0 < pool_buf (pools h)" "pool_buf (pools h) + buf_size (pools h) \<le> 2 ^ 32" by simp_all
  from d show "(l, b) \<in> A \<Longrightarrow> load_block m (block_ptr (pools h) (lsz (pools h) l) b) =
       \<lparr>block_data = block_ptr (pools h) (lsz (pools h) l) b, id_pool = h, id_level = l, id_block = b\<rparr>" by blast
  assume "l < n_levels (pools h)"
  then have "lsz (pools h) (n_levels (pools h) - 1) \<le> lsz (pools h) l"
    unfolding lsz_def by (intro div_le_mono2 power_increasing) simp_all
  with d show "8 \<le> lsz (pools h) l" by simp
qed

lemma valid_small:
  assumes "pool_shape p" "valid p (l, b)" "pool_buf p + buf_size p \<le> 2 ^ 32"
  shows "block_ptr p (lsz p l) b < 2 ^ 32" "l < 2 ^ 4" "b < 2 ^ 20"
proof -
  have l: "l < n_levels p" and b: "b < nblk p l" using assms(2) by (simp_all add: valid_def)
  have "block_ptr p (lsz p l) b \<in> block_bytes p (l, b)" using lsz_props(1) [OF assms(1) l] by (simp add: block_bytes_def)
  from block_bytes_covers(3) [OF assms(1,2) this] assms(3) show "block_ptr p (lsz p l) b < 2 ^ 32" by simp
  show "l < 2 ^ 4" using l assms(1) by (simp add: pool_shape_def)
  have "nblk p l \<le> nblk p (n_levels p - 1)" unfolding nblk_def using l by (intro mult_le_mono2 power_increasing) linarith+
  with b assms(1) show "b < 2 ^ 20" by (simp add: pool_shape_def)
qed

lemma heap_inv_pool:
  assumes "heap_inv h pools m A" "same_shape (pools h) p'" "pool_ok p' A'"
    "\<And>l b. (l, b) \<in> A' \<Longrightarrow> load_block m' (block_ptr (pools h) (lsz (pools h) l) b) =
       \<lparr>block_data = block_ptr (pools h) (lsz (pools h) l) b, id_pool = h, id_level = l, id_block = b\<rparr>"
  shows "heap_inv h (pools(h := p')) m' A'"
proof -
  have "pool_buf p' = pool_buf (pools h)" using assms(2) by (simp add: same_shape_def)
  with assms show ?thesis by (auto simp: heap_inv_def Let_def same_shapeD [OF assms(2)])
qed

lemma k_malloc_some:
  assumes inv: "heap_inv h pools m A" and t: "t \<in> free_blocks (pools h)" "unat (sz + 8) \<le> lsz (pools h) (fst t)"
  obtains l b p' m' where "k_malloc h junk sz pools m k = Some (block_ptr (pools h) (lsz (pools h) l) b + 8, pools(h := p'), m', k)"
    "heap_inv h (pools(h := p')) m' (insert (l, b) A)" "(l, b) \<notin> A" "unat (sz + 8) \<le> lsz (pools h) l" "same_shape (pools h) p'"
    "\<And>x. x \<notin> {block_ptr (pools h) (lsz (pools h) l) b ..< block_ptr (pools h) (lsz (pools h) l) b + 8} \<Longrightarrow> m' x = m x"
proof -
  let ?p = "pools h"
  note d = heap_invD [OF inv]
  obtain l b p' where a: "pool_alloc h ?p junk (unat (sz + 8)) = Some (0, \<lparr>block_data = block_ptr ?p (lsz ?p l) b,
      id_pool = h mod 2 ^ 8, id_level = l, id_block = b\<rparr>, p')"
    and r: "unat (sz + 8) \<le> lsz ?p l" "(l, b) \<notin> A" "pool_ok p' (insert (l, b) A)" "same_shape ?p p'" "valid ?p (l, b)"
    by (rule pool_alloc_spec [OF d(2) t])
  let ?a = "block_ptr ?p (lsz ?p l) b" and ?blk = "\<lparr>block_data = block_ptr ?p (lsz ?p l) b, id_pool = h, id_level = l, id_block = b\<rparr>"
  note small = valid_small [OF pool_okD(3) [OF d(2)] r(5) d(4)]
  have e: "k_malloc h junk sz pools m k = Some (?a + 8, pools(h := p'), store_block ?a ?blk m, k)"
    using a d(1) by (simp add: k_malloc_def get_pool_def sizeof_k_mem_block_def k_mem_pool_alloc_def alloc_turn_def Let_def)
  have til: "tiles ?p (free_blocks p' \<union> insert (l, b) A)"
    using pool_okD(2) [OF r(3)] by (simp add: tiled_def tiles_def valid_def covers_def same_shapeD [OF r(4)])
  have "load_block (store_block ?a ?blk m) (block_ptr ?p (lsz ?p l') b') =
      \<lparr>block_data = block_ptr ?p (lsz ?p l') b', id_pool = h, id_level = l', id_block = b'\<rparr>" if "(l', b') \<in> insert (l, b) A" for l' b'
  proof (cases "(l', b') = (l, b)")
    case True
    then show ?thesis using load_store_block [of ?blk ?a m] small d(1) by simp
  next
    case False
    then have "(l', b') \<in> A" using that by blast
    have "block_bytes ?p (l, b) \<inter> block_bytes ?p (l', b') = {}"
      using tiles_apart [OF pool_okD(3) [OF d(2)] til, of "(l, b)" "(l', b')"] that False by auto
    moreover have "l < n_levels ?p" "l' < n_levels ?p"
      using r(5) pool_okD(4) [OF d(2) \<open>(l', b') \<in> A\<close>] by (simp_all add: valid_def)
    then have "{?a ..< ?a + 8} \<subseteq> block_bytes ?p (l, b)" "{block_ptr ?p (lsz ?p l') b' ..< block_ptr ?p (lsz ?p l') b' + 8} \<subseteq> block_bytes ?p (l', b')"
      using d(5) [of l] d(5) [of l'] by (auto simp: block_bytes_def)
    ultimately have "store_block ?a ?blk m (block_ptr ?p (lsz ?p l') b' + i) = m (block_ptr ?p (lsz ?p l') b' + i)" if "i < 8" for i
      using that by (intro store_block_other) fastforce
    then show ?thesis using load_block_cong [of "store_block ?a ?blk m"] d(6) [OF \<open>(l', b') \<in> A\<close>] by simp
  qed
  then have "heap_inv h (pools(h := p')) (store_block ?a ?blk m) (insert (l, b) A)" by (rule heap_inv_pool [OF inv r(4,3)])
  from that [OF e this r(2,1,4) store_block_other] show thesis .
qed

lemma k_malloc_none:
  assumes inv: "heap_inv h pools m A" and t: "\<And>t. t \<in> free_blocks (pools h) \<Longrightarrow> lsz (pools h) (fst t) < unat (sz + 8)"
  shows "k_malloc h junk sz pools m k = Some (0, pools, m, k)"
proof -
  have "pool_alloc h (pools h) junk (unat (sz + 8)) = Some (- ENOMEM, junk\<lparr>block_data := 0\<rparr>, pools h)"
    by (rule pool_alloc_none [OF heap_invD(2) [OF inv] t])
  then show ?thesis
    by (simp add: k_malloc_def get_pool_def sizeof_k_mem_block_def k_mem_pool_alloc_def alloc_turn_def Let_def ENOMEM_def EAGAIN_def)
qed

lemma k_free_some:
  assumes inv: "heap_inv h pools m A" and t: "(l, b) \<in> A" and k: "sched_ok k" "\<not> handling_timeouts k" "\<not> is_in_isr k"
  obtains p' k' where "k_free (block_ptr (pools h) (lsz (pools h) l) b + 8) pools m k = Some (pools(h := p'), k')"
    "heap_inv h (pools(h := p')) m (A - {(l, b)})" "sched_ok k'" "same_shape (pools h) p'"
proof -
  let ?p = "pools h"
  note d = heap_invD [OF inv]
  let ?blk = "\<lparr>block_data = block_ptr ?p (lsz ?p l) b, id_pool = h, id_level = l, id_block = b\<rparr>"
  have A: "(id_level ?blk, id_block ?blk) \<in> A" using t by simp
  obtain p' k' where f: "k_mem_pool_free ?blk ?p k = Some (p', k')" "pool_ok p' (A - {(l, b)})" "same_shape ?p p'" "sched_ok k'"
    by (rule k_mem_pool_free_spec [OF d(2) A k]) simp
  have "heap_inv h (pools(h := p')) m (A - {(l, b)})" by (rule heap_inv_pool [OF inv f(3,2)]) (simp add: d(6))
  then show thesis using f d(6) [OF t] by (intro that) (simp_all add: k_free_def Let_def sizeof_k_mem_block_def get_pool_def)
qed


section \<open>Properties\<close>

lemma user_bytes_apart:
  assumes inv: "heap_inv h pools m A" and A: "s \<in> A" "t \<in> A" and x: "x \<in> user_bytes (pools h) s"
  shows "x \<notin> {block_ptr (pools h) (lsz (pools h) (fst t)) (snd t) ..< block_ptr (pools h) (lsz (pools h) (fst t)) (snd t) + 8}"
proof (cases "s = t")
  case True
  then show ?thesis using x by (auto simp: user_bytes_def)
next
  case False
  note d = heap_invD [OF inv]
  have til: "tiles (pools h) (free_blocks (pools h) \<union> A)" using pool_okD(2) [OF d(2)] by (simp add: tiled_def)
  have "block_bytes (pools h) s \<inter> block_bytes (pools h) t = {}"
    using tiles_apart [OF pool_okD(3) [OF d(2)] til, of s t] A False by simp
  moreover have "x \<in> block_bytes (pools h) s" using x by (auto simp: user_bytes_def block_bytes_def)
  moreover have "8 \<le> lsz (pools h) (fst t)" using d(5) [of "fst t"] pool_okD(4) [OF d(2) A(2)] by (simp add: valid_def)
  ultimately show ?thesis by (auto simp: block_bytes_def)
qed

lemma k_calloc_zeroes:
  assumes "heap_inv h pools m A" "t \<in> free_blocks (pools h)" "unat (nmemb * sz + 8) \<le> lsz (pools h) (fst t)"
  shows "\<exists>ptr pools' m'. k_calloc h junk nmemb sz pools m k = Some (ptr, pools', m', k) \<and> ptr \<noteq> 0 \<and>
    region m' ptr (unat (nmemb * sz)) = replicate (unat (nmemb * sz)) 0"
  by (rule k_malloc_some [OF assms, of junk k]) (simp add: k_calloc_def Let_def memset_fill)

lemma size_wraps: "0xfffffff8 \<le> unat sz \<Longrightarrow> unat (sz + 8) \<le> 8 \<and> 2 ^ 32 \<le> unat sz + 8" for sz :: u32
proof -
  assume s: "0xfffffff8 \<le> unat sz"
  have "unat sz < 2 ^ 32" using unat_bound [of sz] by simp
  with s obtain d where d: "unat sz + 8 = 2 ^ 32 + d" "d < 8" by (intro that [of "unat sz - 0xfffffff8"]) simp_all
  then have "unat (sz + 8) = d" by (simp add: unat_word_ariths)
  with d show ?thesis by simp
qed

lemma k_malloc_wrapped:
  assumes inv: "heap_inv h pools m A" and f: "t \<in> free_blocks (pools h)" and sz: "0xfffffff8 \<le> unat sz"
  shows "\<exists>ptr l b pools' m'. k_malloc h junk sz pools m k = Some (ptr, pools', m', k) \<and> ptr \<noteq> 0 \<and>
    heap_inv h pools' m' (insert (l, b) A) \<and> ptr + unat sz > pool_buf (pools h) + buf_size (pools h)"
proof -
  note d = heap_invD [OF inv]
  have v: "valid (pools h) t" by (rule rep_valid [OF pool_okD(1) [OF d(2)] f])
  then have "unat (sz + 8) \<le> lsz (pools h) (fst t)" using size_wraps [OF sz] d(5) [of "fst t"] by (simp add: valid_def)
  then obtain l b p' m' where a: "k_malloc h junk sz pools m k = Some (block_ptr (pools h) (lsz (pools h) l) b + 8, pools(h := p'), m', k)"
    "heap_inv h (pools(h := p')) m' (insert (l, b) A)" by (rule k_malloc_some [OF inv f]) simp
  have "block_ptr (pools h) (lsz (pools h) l) b + 8 + unat sz > pool_buf (pools h) + buf_size (pools h)"
    using d(3,4) size_wraps [OF sz] by (simp add: block_ptr_def)
  moreover have "block_ptr (pools h) (lsz (pools h) l) b + 8 \<noteq> 0" by simp
  ultimately show ?thesis using a by blast
qed

definition heap_example :: "nat \<Rightarrow> k_mem_pool" where
  "heap_example _ = example_pool"

lemma heap_example_inv: "heap_inv 0 heap_example (\<lambda>_. 0) {}"
  using example_pool_ok example_lsz by (auto simp: heap_inv_def heap_example_def example_pool_def buf_size_def)

text \<open>
  C12. The heap: as long as its size plus eight bytes for the descriptor does not overflow, k_malloc returns the null pointer and
  changes nothing if no free block is large enough, and otherwise the address of as many bytes as requested, all of them in a block
  that was not allocated. If the caller changes no bytes but those of allocated blocks behind their descriptors, k_free of that address
  gives the block back, and the heap has the blocks it had before.\<close>
theorem k_malloc_k_free:
  assumes inv: "heap_inv h pools m A" and sz: "unat sz + 8 < 2 ^ 32" and k: "sched_ok k" "\<not> handling_timeouts k" "\<not> is_in_isr k"
  shows "if \<exists>t \<in> free_blocks (pools h). unat sz + 8 \<le> lsz (pools h) (fst t)
    then \<exists>ptr l b pools' m'. k_malloc h junk sz pools m k = Some (ptr, pools', m', k) \<and> ptr \<noteq> 0 \<and> (l, b) \<notin> A \<and>
      {ptr ..< ptr + unat sz} \<subseteq> user_bytes (pools h) (l, b) \<and> heap_inv h pools' m' (insert (l, b) A) \<and>
      (\<forall>m''. (\<forall>x. (\<forall>t \<in> insert (l, b) A. x \<notin> user_bytes (pools h) t) \<longrightarrow> m'' x = m' x) \<longrightarrow>
        (\<exists>pools'' k'. k_free ptr pools' m'' k = Some (pools'', k') \<and> heap_inv h pools'' m'' A \<and> sched_ok k'))
    else k_malloc h junk sz pools m k = Some (0, pools, m, k)"
proof -
  have e: "unat (sz + 8) = unat sz + 8" using sz by (simp add: unat_word_ariths)
  show ?thesis
  proof (cases "\<exists>t \<in> free_blocks (pools h). unat sz + 8 \<le> lsz (pools h) (fst t)")
    case False
    then show ?thesis using k_malloc_none [OF inv, of sz] by (auto simp: e not_le)
  next
    case True
    then obtain t where t: "t \<in> free_blocks (pools h)" "unat (sz + 8) \<le> lsz (pools h) (fst t)" unfolding e by blast
    obtain l b p' m' where a: "k_malloc h junk sz pools m k = Some (block_ptr (pools h) (lsz (pools h) l) b + 8, pools(h := p'), m', k)"
      and r: "heap_inv h (pools(h := p')) m' (insert (l, b) A)" "(l, b) \<notin> A" "unat (sz + 8) \<le> lsz (pools h) l" "same_shape (pools h) p'"
      by (rule k_malloc_some [OF inv t]) simp
    let ?ptr = "block_ptr (pools h) (lsz (pools h) l) b + 8" and ?pools' = "pools(h := p')"
    note s = same_shapeD [OF r(4)]
    have sub: "{?ptr ..< ?ptr + unat sz} \<subseteq> user_bytes (pools h) (l, b)" using r(3) e by (auto simp: user_bytes_def)
    have fr: "\<exists>pools'' k'. k_free ?ptr ?pools' m'' k = Some (pools'', k') \<and> heap_inv h pools'' m'' A \<and> sched_ok k'"
      if m: "\<forall>x. (\<forall>t \<in> insert (l, b) A. x \<notin> user_bytes (pools h) t) \<longrightarrow> m'' x = m' x" for m''
    proof -
      have "load_block m'' (block_ptr p' (lsz p' i) c) = load_block m' (block_ptr p' (lsz p' i) c)" if ic: "(i, c) \<in> insert (l, b) A" for i c
      proof (rule load_block_cong)
        fix j :: nat assume j: "j < 8"
        have "block_ptr p' (lsz p' i) c + j \<notin> user_bytes (pools h) t" if "t \<in> insert (l, b) A" for t
          using user_bytes_apart [OF r(1) that ic, of "block_ptr p' (lsz p' i) c + j"] j by (auto simp: user_bytes_def s)
        then show "m'' (block_ptr p' (lsz p' i) c + j) = m' (block_ptr p' (lsz p' i) c + j)" using m by blast
      qed
      then have inv'': "heap_inv h ?pools' m'' (insert (l, b) A)" using r(1) by (auto simp: heap_inv_def Let_def)
      have A: "insert (l, b) A - {(l, b)} = A" using r(2) by auto
      show ?thesis by (rule k_free_some [OF inv'' insertI1 k]) (auto simp: A s)
    qed
    show ?thesis
      unfolding if_P [OF True] using a r(1,2) sub fr
      by (rule_tac exI [of _ ?ptr], rule_tac exI [of _ l], rule_tac exI [of _ b]) auto
  qed
qed

theorem k_malloc_k_free_witness:
  "\<exists>ptr pools' m'. k_malloc 0 no_block 5 heap_example (\<lambda>_. 0) pair_kernel = Some (ptr, pools', m', pair_kernel) \<and> ptr \<noteq> 0 \<and>
     (\<exists>pools'' k'. k_free ptr pools' m' pair_kernel = Some (pools'', k') \<and> heap_inv 0 pools'' m' {})"
proof -
  have "\<exists>t \<in> free_blocks (heap_example 0). unat (5 :: u32) + 8 \<le> lsz (heap_example 0) (fst t)"
    by (simp add: heap_example_def example_free example_lsz)
  then show ?thesis
    using k_malloc_k_free [OF heap_example_inv _ pair_sched_ok, of 5 no_block] by (auto simp: pair_current is_in_isr_def; metis)
qed


text \<open>
  C38. The sizes of the heap overflow silently: while anything at all is free, a request for the largest sizes, where adding the eight bytes
  of the descriptor wraps around, and a request of k_calloc for 65536 times 65536 bytes return an address although the bytes that were
  asked for reach beyond the end of the heap.\<close>
theorem heap_sizes_wrap:
  assumes inv: "heap_inv h pools m A" and f: "t \<in> free_blocks (pools h)" and sz: "0xfffffff8 \<le> sz"
  shows "(\<exists>ptr pools' m'. k_malloc h junk sz pools m k = Some (ptr, pools', m', k) \<and> ptr \<noteq> 0 \<and>
      ptr + unat sz > pool_buf (pools h) + buf_size (pools h)) \<and>
    (\<exists>ptr pools' m'. k_calloc h junk 0x10000 0x10000 pools m k = Some (ptr, pools', m', k) \<and> ptr \<noteq> 0)"
proof -
  have "0xfffffff8 \<le> unat sz" using sz by (simp add: word_le_nat_alt)
  note m = k_malloc_wrapped [OF inv f this]
  have v: "valid (pools h) t" by (rule rep_valid [OF pool_okD(1) [OF heap_invD(2) [OF inv]] f])
  then have "unat (0x10000 * 0x10000 + 8 :: u32) \<le> lsz (pools h) (fst t)" using heap_invD(5) [OF inv, of "fst t"] by (simp add: valid_def)
  from m k_calloc_zeroes [OF inv f this] show ?thesis by blast
qed

theorem heap_sizes_wrap_witness:
  "\<exists>ptr pools' m'. k_malloc 0 no_block 0xfffffffc heap_example (\<lambda>_. 0) pair_kernel = Some (ptr, pools', m', pair_kernel) \<and> ptr \<noteq> 0"
  using heap_sizes_wrap [OF heap_example_inv, where t = "(0, 0)" and sz = "0xfffffffc" and junk = no_block and k = pair_kernel]
  by (auto simp: heap_example_def example_free)

end
