(* ===== verification/Libc_Stdlib.thy ===== *)
theory Libc_Stdlib
  imports Libc_String "HOL-Library.Sublist"
begin

text \<open>
  Character classes (\<^verbatim>\<open>ctype.h\<close>), number conversion (\<^verbatim>\<open>stdlib/strtol.c\<close>, \<^verbatim>\<open>strtoul.c\<close>, \<^verbatim>\<open>atoi.c\<close>) and the
  string functions outside \<^verbatim>\<open>string.c\<close> (\<^verbatim>\<open>strncasecmp.c\<close>, \<^verbatim>\<open>strstr.c\<close>) of the minimal C library. \<^verbatim>\<open>int\<close> and \<^verbatim>\<open>long\<close> have 32
  bits; characters are read as signed numbers. A loop that runs on when a string is not terminated is a
  partial function, as in the theory of \<^verbatim>\<open>string.c\<close>.
\<close>

section \<open>Characters\<close>

definition isupper :: "int \<Rightarrow> bool" where
  "isupper a \<longleftrightarrow> (word_of_int a :: u32) - 65 < 26"

definition isalpha :: "int \<Rightarrow> bool" where
  "isalpha c \<longleftrightarrow> ((word_of_int c :: u32) OR 32) - 97 < 26"

definition isspace :: "int \<Rightarrow> bool" where
  "isspace c \<longleftrightarrow> c = 32 \<or> (word_of_int c :: u32) - 9 < 5"

definition isgraph :: "int \<Rightarrow> bool" where
  "isgraph c \<longleftrightarrow> (word_of_int c :: u32) > 32 \<and> (word_of_int c :: u32) \<le> 126"

definition isprint :: "int \<Rightarrow> bool" where
  "isprint c \<longleftrightarrow> (word_of_int c :: u32) \<ge> 32 \<and> (word_of_int c :: u32) \<le> 126"

definition isdigit :: "int \<Rightarrow> bool" where
  "isdigit a \<longleftrightarrow> (word_of_int a :: u32) - 48 < 10"

definition isxdigit :: "int \<Rightarrow> bool" where
  "isxdigit a \<longleftrightarrow> (let ua = (word_of_int a :: u32) in ua - 48 < 10 \<or> ua - 97 < 6 \<or> ua - 65 < 6)"

definition tolower :: "int \<Rightarrow> int" where
  "tolower chr = (if chr \<ge> 65 \<and> chr \<le> 90 then chr + 32 else chr)"

definition toupper :: "int \<Rightarrow> int" where
  "toupper chr = (if chr \<ge> 97 \<and> chr \<le> 122 then chr - 32 else chr)"

definition isalnum :: "int \<Rightarrow> bool" where
  "isalnum chr \<longleftrightarrow> isalpha chr \<or> isdigit chr"

text \<open>The character at an address.\<close>

definition char_at :: "mem \<Rightarrow> nat \<Rightarrow> int" where
  "char_at m s = sint (m s)"

section \<open>Numbers\<close>

partial_function (option) atoi_space :: "nat \<Rightarrow> mem \<Rightarrow> nat option" where
  "atoi_space s m = (if isspace (char_at m s) then atoi_space (s + 1) m else Some s)"

partial_function (option) atoi_digits :: "nat \<Rightarrow> u32 \<Rightarrow> mem \<Rightarrow> u32 option" where
  "atoi_digits s n m =
     (if isdigit (char_at m s) then atoi_digits (s + 1) (10 * n - word_of_int (char_at m s - 48)) m else Some n)"

definition atoi :: "nat \<Rightarrow> mem \<Rightarrow> int option" where
  "atoi s m =
     (case atoi_space s m of
        None \<Rightarrow> None
      | Some s1 \<Rightarrow>
          let neg = (char_at m s1 = 45);
              s2 = (if char_at m s1 = 45 \<or> char_at m s1 = 43 then s1 + 1 else s1)
          in map_option (\<lambda>n. sint (if neg then n else - n)) (atoi_digits s2 0 m))"

text \<open>
  \<^verbatim>\<open>strtol\<close> and \<^verbatim>\<open>strtoul\<close> begin in the same way: \<open>strto_space\<close> is the first loop, \<open>strto_start\<close> what follows it up to the
  choice of the base. They give the sign, the base, the current character and the address behind it.
\<close>

partial_function (option) strto_space :: "nat \<Rightarrow> mem \<Rightarrow> (int \<times> nat) option" where
  "strto_space s m = (let c = char_at m s in if isspace c then strto_space (s + 1) m else Some (c, s + 1))"

definition strto_start :: "nat \<Rightarrow> int \<Rightarrow> mem \<Rightarrow> (bool \<times> int \<times> int \<times> nat) option" where
  "strto_start nptr base m =
     (case strto_space nptr m of
        None \<Rightarrow> None
      | Some (c, s) \<Rightarrow>
          let neg = (c = 45);
              (c1, s1) = (if c = 45 \<or> c = 43 then (char_at m s, s + 1) else (c, s));
              hex = ((base = 0 \<or> base = 16) \<and> c1 = 48 \<and> (char_at m s1 = 120 \<or> char_at m s1 = 88));
              (c2, s2) = (if hex then (char_at m (s1 + 1), s1 + 2) else (c1, s1));
              base1 = (if hex then 16 else base);
              base2 = (if base1 = 0 then (if c2 = 48 then 8 else 10) else base1)
          in Some (neg, base2, c2, s2))"

definition digit_of :: "int \<Rightarrow> int option" where
  "digit_of c =
     (if isdigit c then Some (c - 48)
      else if isalpha c then Some (c - (if isupper c then 65 - 10 else 97 - 10))
      else None)"

text \<open>The loop over the digits; \<open>any\<close> is 0 before the first digit and negative after an overflow.\<close>

partial_function (option) strto_digits ::
  "int \<Rightarrow> u32 \<Rightarrow> int \<Rightarrow> int \<Rightarrow> nat \<Rightarrow> u32 \<Rightarrow> int \<Rightarrow> mem \<Rightarrow> (u32 \<times> int \<times> nat) option" where
  "strto_digits base cutoff cutlim c s acc any m =
     (case digit_of c of
        None \<Rightarrow> Some (acc, any, s)
      | Some d \<Rightarrow>
          if d \<ge> base then Some (acc, any, s)
          else if any < 0 \<or> acc > cutoff \<or> acc = cutoff \<and> d > cutlim
          then strto_digits base cutoff cutlim (char_at m s) (s + 1) acc (- 1) m
          else strto_digits base cutoff cutlim (char_at m s) (s + 1) (acc * word_of_int base + word_of_int d) 1 m)"

text \<open>The result, whether \<^verbatim>\<open>errno\<close> is set to \<^verbatim>\<open>ERANGE\<close>, and the value for \<^verbatim>\<open>*endptr\<close>.\<close>

definition strtoul :: "nat \<Rightarrow> int \<Rightarrow> mem \<Rightarrow> (u32 \<times> bool \<times> nat) option" where
  "strtoul nptr base0 m =
     (case strto_start nptr base0 m of
        None \<Rightarrow> None
      | Some (neg, base, c, s) \<Rightarrow>
          let cutoff = - 1 div word_of_int base;
              cutlim = sint (- 1 mod (word_of_int base :: u32))
          in case strto_digits base cutoff cutlim c s 0 0 m of
               None \<Rightarrow> None
             | Some (acc, any, s') \<Rightarrow>
                 Some (if any < 0 then - 1 else if neg then - acc else acc, any < 0, if any \<noteq> 0 then s' - 1 else nptr))"

definition strtol :: "nat \<Rightarrow> int \<Rightarrow> mem \<Rightarrow> (int \<times> bool \<times> nat) option" where
  "strtol nptr base0 m =
     (case strto_start nptr base0 m of
        None \<Rightarrow> None
      | Some (neg, base, c, s) \<Rightarrow>
          let most = (if neg then 0x80000000 else 0x7fffffff) :: u32;
              cutlim = sint (most mod word_of_int base);
              cutoff = most div word_of_int base
          in case strto_digits base cutoff cutlim c s 0 0 m of
               None \<Rightarrow> None
             | Some (acc, any, s') \<Rightarrow>
                 Some (sint (if any < 0 then (if neg then 0x80000000 else 0x7fffffff) else if neg then - acc else acc),
                       any < 0, if any \<noteq> 0 then s' - 1 else nptr))"

section \<open>Strings\<close>

text \<open>The table of \<^verbatim>\<open>strncasecmp.c\<close>, which maps the upper case letters, also those with the highest bit set.\<close>

definition charmap :: "nat list" where
  "charmap = [0..<65] @ [97..<123] @ [91..<193] @ [225..<251] @ [219..<256]"

fun strncasecmp :: "nat \<Rightarrow> nat \<Rightarrow> nat \<Rightarrow> mem \<Rightarrow> int" where
  "strncasecmp s1 s2 0 m = 0"
| "strncasecmp s1 s2 (Suc n) m =
     (let u1 = unat (m s1); u2 = unat (m s2)
      in if charmap ! u1 \<noteq> charmap ! u2 then int (charmap ! u1) - int (charmap ! u2)
         else if u1 = 0 then 0
         else strncasecmp (s1 + 1) (s2 + 1) n m)"

text \<open>The loops of \<^verbatim>\<open>strstr\<close>: the result of the search is \<open>None\<close> for the null pointer.\<close>

partial_function (option) strstr_loop :: "nat \<Rightarrow> u8 \<Rightarrow> nat \<Rightarrow> nat \<Rightarrow> mem \<Rightarrow> nat option option" where
  "strstr_loop s c pat len m =
     (if m s = 0 then Some None
      else if m s \<noteq> c then strstr_loop (s + 1) c pat len m
      else if strncmp (s + 1) pat len m \<noteq> 0 then strstr_loop (s + 1) c pat len m
      else Some (Some s))"

definition strstr :: "nat \<Rightarrow> nat \<Rightarrow> mem \<Rightarrow> nat option option" where
  "strstr s pat m =
     (if m pat \<noteq> 0
      then (case strlen (pat + 1) m of None \<Rightarrow> None | Some len \<Rightarrow> strstr_loop s (m pat) (pat + 1) len m)
      else Some (Some s))"

section \<open>Digits\<close>

text \<open>Facts about characters, by going through all of them.\<close>

lemma all_bytes: "(\<forall>i \<in> set [0..255]. P (word_of_int i)) \<Longrightarrow> P x" for x :: u8
proof -
  assume h: "\<forall>i \<in> set [0..255]. P (word_of_int i)"
  have "uint x \<in> set [0..255]" using uint_bounded [of x] by simp
  with h have "P (word_of_int (uint x))" by blast
  then show ?thesis by simp
qed

lemma digit_of_byte: "(case digit_of (sint x) of None \<Rightarrow> True | Some d \<Rightarrow> 0 \<le> d \<and> d < 36 \<and> \<not> isspace (sint x) \<and> x \<noteq> 43 \<and> x \<noteq> 45 \<and> x \<noteq> 0)"
  for x :: u8
  by (rule all_bytes [where P = "\<lambda>x. case digit_of (sint x) of None \<Rightarrow> True
      | Some d \<Rightarrow> 0 \<le> d \<and> d < 36 \<and> \<not> isspace (sint x) \<and> x \<noteq> 43 \<and> x \<noteq> 45 \<and> x \<noteq> 0"]) code_simp

lemma space_byte: "isspace (sint x) \<longrightarrow> x \<noteq> 43 \<and> x \<noteq> 45 \<and> x \<noteq> 0" for x :: u8
  by (rule all_bytes [where P = "\<lambda>x. isspace (sint x) \<longrightarrow> x \<noteq> 43 \<and> x \<noteq> 45 \<and> x \<noteq> 0"]) code_simp

lemma digit_of_decimal: "d < 10 \<Longrightarrow> digit_of (sint (of_nat (48 + d) :: u8)) = Some (int d)"
proof -
  have "\<forall>d \<in> set [0..<10]. digit_of (sint (of_nat (48 + d) :: u8)) = Some (int d)" by code_simp
  then show "d < 10 \<Longrightarrow> ?thesis" by simp
qed

lemma digit_ofD:
  "digit_of (sint x) = Some d \<Longrightarrow> 0 \<le> d \<and> d < 36 \<and> \<not> isspace (sint x) \<and> x \<noteq> 43 \<and> x \<noteq> 45 \<and> x \<noteq> 0" for x :: u8
  using digit_of_byte [of x] by simp

text \<open>The value of a list of digits, and the digits at the start of a string.\<close>

definition is_digit :: "int \<Rightarrow> u8 \<Rightarrow> bool" where
  "is_digit base x \<longleftrightarrow> (case digit_of (sint x) of None \<Rightarrow> False | Some d \<Rightarrow> d < base)"

definition digits_value :: "int \<Rightarrow> int \<Rightarrow> u8 list \<Rightarrow> int" where
  "digits_value base a xs = foldl (\<lambda>a x. a * base + the (digit_of (sint x))) a xs"

lemma digits_value_simps [simp]:
  "digits_value base a [] = a" "digits_value base a (x # xs) = digits_value base (a * base + the (digit_of (sint x))) xs"
  by (simp_all add: digits_value_def)

lemma digits_value_mono:
  assumes "1 \<le> base" "0 \<le> a" "\<forall>x \<in> set xs. is_digit base x"
  shows "a \<le> digits_value base a xs"
  using assms(2,3)
proof (induction xs arbitrary: a)
  case (Cons x xs)
  then obtain d where d: "digit_of (sint x) = Some d" by (auto simp: is_digit_def split: option.splits)
  have "a * 1 \<le> a * base" using assms(1) Cons.prems(1) by (intro mult_left_mono) simp_all
  then have "a \<le> a * base + d" using digit_ofD [OF d] by simp
  moreover have "a * base + d \<le> digits_value base (a * base + d) xs" using Cons calculation by (intro Cons.IH) simp_all
  ultimately show ?case using d by simp
qed simp

text \<open>
  The loop of \<^verbatim>\<open>strtol\<close> with any limit \<open>most\<close>. Once the value is above it, it stays there.
\<close>

lemma cutoff_iff:
  fixes acc d base :: int
  assumes "0 < base" "0 \<le> d" "d < base"
  shows "acc > most div base \<or> acc = most div base \<and> d > most mod base \<longleftrightarrow> acc * base + d > most"
proof -
  define q r where "q = most div base" and "r = most mod base"
  have m: "most = q * base + r" "0 \<le> r" "r < base" using assms(1) by (simp_all add: q_def r_def)
  consider "acc < q" | "acc = q" | "acc > q" by linarith
  then have "acc > q \<or> acc = q \<and> d > r \<longleftrightarrow> acc * base + d > most"
  proof cases
    case 1
    then have "(acc + 1) * base \<le> q * base" using assms(1) by (intro mult_right_mono) simp_all
    with 1 m assms show ?thesis by (simp add: algebra_simps)
  next
    case 2
    with m show ?thesis by simp
  next
    case 3
    then have "(q + 1) * base \<le> acc * base" using assms(1) by (intro mult_right_mono) simp_all
    with 3 m assms show ?thesis by (simp add: algebra_simps)
  qed
  then show ?thesis by (simp add: q_def r_def)
qed

lemma strto_digits_stop:
  "\<not> is_digit base (m s) \<Longrightarrow> strto_digits base cutoff cutlim (char_at m s) (s + 1) acc any m = Some (acc, any, s + 1)"
  by (subst strto_digits.simps) (auto simp: is_digit_def char_at_def split: option.splits)

lemma strto_digits_step:
  assumes "is_digit base (m s)"
  shows "strto_digits base cutoff cutlim (char_at m s) (s + 1) acc any m =
    (let d = the (digit_of (sint (m s))) in
     if any < 0 \<or> acc > cutoff \<or> acc = cutoff \<and> d > cutlim
     then strto_digits base cutoff cutlim (char_at m (s + 1)) (s + 1 + 1) acc (- 1) m
     else strto_digits base cutoff cutlim (char_at m (s + 1)) (s + 1 + 1) (acc * word_of_int base + word_of_int d) 1 m)"
  using assms by (subst strto_digits.simps) (auto simp: is_digit_def char_at_def Let_def split: option.splits)

lemma strto_digits_over:
  assumes "cstring m s (ds @ rest)" "\<forall>x \<in> set ds. is_digit base x" "\<not> is_digit base (m (s + length ds))" "any < 0"
  shows "strto_digits base cutoff cutlim (char_at m s) (s + 1) acc any m = Some (acc, if ds = [] then any else - 1, s + length ds + 1)"
  using assms
proof (induction ds arbitrary: s any)
  case Nil
  then show ?case using strto_digits_stop [of base m s] by simp
next
  case (Cons x ds)
  then show ?case using strto_digits_step [of base m s] Cons.IH [of "s + 1" "- 1"] by (simp add: Let_def)
qed

lemma strto_digits_spec:
  fixes most base :: int
  assumes b: "2 \<le> base" "base \<le> 36" and most: "0 \<le> most" "most < 2 ^ 32"
    and "cstring m s (ds @ rest)" "\<forall>x \<in> set ds. is_digit base x" "\<not> is_digit base (m (s + length ds))"
    "uint acc \<le> most" "0 \<le> any"
  shows "\<exists>acc'. strto_digits base (word_of_int (most div base)) (most mod base) (char_at m s) (s + 1) acc any m =
    (if digits_value base (uint acc) ds \<le> most
     then Some (word_of_int (digits_value base (uint acc) ds), if ds = [] then any else 1, s + length ds + 1)
     else Some (acc', - 1, s + length ds + 1))"
  using assms(5-)
proof (induction ds arbitrary: s any acc)
  case Nil
  then show ?case using strto_digits_stop [of base m s] by simp
next
  case (Cons x ds)
  let ?d = "the (digit_of (sint x))" and ?v = "uint acc * base + the (digit_of (sint x))"
  have x: "m s = x" "is_digit base x" using Cons.prems by simp_all
  then have d: "0 \<le> ?d" "?d < base" using digit_ofD [of x] by (auto simp: is_digit_def split: option.splits)
  have q: "0 \<le> most div base" "most div base < 2 ^ 32"
    using most b zdiv_mono2 [of most 1 base] by (auto simp: pos_imp_zdiv_nonneg_iff)
  then have "acc > word_of_int (most div base) \<longleftrightarrow> uint acc > most div base" "acc = word_of_int (most div base) \<longleftrightarrow> uint acc = most div base"
    by (simp_all add: word_less_def word_uint_eq_iff uint_word_of_int)
  then have over: "(acc > word_of_int (most div base) \<or> acc = word_of_int (most div base) \<and> ?d > most mod base) \<longleftrightarrow> ?v > most"
    using cutoff_iff [of base ?d most "uint acc"] b d by simp
  have nn: "0 \<le> ?v" using d b by simp
  have dv: "?v \<le> digits_value base ?v ds" using digits_value_mono [of base ?v ds] nn b Cons.prems(2) by simp
  have tail: "cstring m (s + 1) (ds @ rest)" "\<forall>x \<in> set ds. is_digit base x" "\<not> is_digit base (m (s + 1 + length ds))" using Cons.prems by simp_all
  show ?case
  proof (cases "?v > most")
    case True
    then show ?thesis
      using strto_digits_step [of base m s] x over dv Cons.prems(5) strto_digits_over [OF tail, of "- 1"] by (simp add: Let_def)
  next
    case False
    have w: "uint (acc * word_of_int base + word_of_int ?d) = ?v"
      using False nn most by (simp add: uint_word_ariths uint_word_of_int mod_simps)
    have "\<exists>acc'. strto_digits base (word_of_int (most div base)) (most mod base) (char_at m (s + 1)) (s + 1 + 1)
        (acc * word_of_int base + word_of_int ?d) 1 m =
      (if digits_value base ?v ds \<le> most
       then Some (word_of_int (digits_value base ?v ds), if ds = [] then 1 else 1, s + 1 + length ds + 1)
       else Some (acc', - 1, s + 1 + length ds + 1))"
      using Cons.IH [OF tail, of "acc * word_of_int base + word_of_int ?d" 1] False unfolding w by simp
    moreover have "strto_digits base (word_of_int (most div base)) (most mod base) (char_at m s) (s + 1) acc any m =
        strto_digits base (word_of_int (most div base)) (most mod base) (char_at m (s + 1)) (s + 1 + 1)
          (acc * word_of_int base + word_of_int ?d) 1 m"
      unfolding strto_digits_step [of base m s, unfolded x(1), OF x(2)] Let_def by (rule if_not_P) (use over False Cons.prems(5) in simp)
    ultimately show ?thesis by (auto split: if_splits)
  qed
qed

lemma strto_space_spec:
  assumes "cstring m s (sp @ xs)" "\<forall>x \<in> set sp. isspace (sint x)" "\<not> isspace (char_at m (s + length sp))"
  shows "strto_space s m = Some (char_at m (s + length sp), s + length sp + 1)"
  using assms
proof (induction sp arbitrary: s)
  case Nil
  then show ?case by (subst strto_space.simps) simp
next
  case (Cons x sp)
  then show ?case using Cons.IH [of "s + 1"] by (subst strto_space.simps) (simp add: char_at_def)
qed

text \<open>A number: spaces, an optional sign, and digits that do not start a prefix of base 16.\<close>

definition is_number :: "int \<Rightarrow> u8 list \<Rightarrow> u8 list \<Rightarrow> u8 list \<Rightarrow> u8 list \<Rightarrow> bool" where
  "is_number base sp sg ds rest \<longleftrightarrow>
     (\<forall>x \<in> set sp. isspace (sint x)) \<and> sg \<in> {[], [43], [45]} \<and> ds \<noteq> [] \<and> (\<forall>x \<in> set ds. is_digit base x) \<and>
     (case rest of [] \<Rightarrow> True | x # _ \<Rightarrow> \<not> is_digit base x) \<and>
     (base = 16 \<longrightarrow> ds = [48] \<longrightarrow> (case rest of [] \<Rightarrow> True | x # _ \<Rightarrow> x \<noteq> 120 \<and> x \<noteq> 88))"

lemma is_digit_letter: "is_digit base x \<Longrightarrow> base \<le> 16 \<Longrightarrow> x \<noteq> 120 \<and> x \<noteq> 88" for x :: u8
proof -
  have "digit_of (sint (120 :: u8)) = Some 33" "digit_of (sint (88 :: u8)) = Some 33" by code_simp+
  then show "is_digit base x \<Longrightarrow> base \<le> 16 \<Longrightarrow> ?thesis" by (auto simp: is_digit_def)
qed

lemma digit_zero: "digit_of 0 = None" "sint (43 :: u8) = 43" "sint (45 :: u8) = 45" "sint (48 :: u8) = 48"
  "sint (120 :: u8) = 120" "sint (88 :: u8) = 88"
  by code_simp+

lemma char_at_eq:
  "char_at m s = 43 \<longleftrightarrow> m s = 43" "char_at m s = 45 \<longleftrightarrow> m s = 45" "char_at m s = 48 \<longleftrightarrow> m s = 48"
  "char_at m s = 120 \<longleftrightarrow> m s = 120" "char_at m s = 88 \<longleftrightarrow> m s = 88"
  unfolding char_at_def digit_zero(2-) [symmetric] by (metis signed_word_eqI)+

lemma strto_start_spec:
  assumes m: "cstring m s (sp @ sg @ ds @ rest)" and n: "is_number base sp sg ds rest" and b: "2 \<le> base"
  defines "d0 \<equiv> s + length sp + length sg"
  shows "strto_start s base m = Some (sg = [45], base, char_at m d0, d0 + 1)" "cstring m d0 (ds @ rest)"
    "\<not> is_digit base (m (d0 + length ds))"
proof -
  have sp: "\<forall>x \<in> set sp. isspace (sint x)" and sg: "sg = [] \<or> sg = [43] \<or> sg = [45]" and ds: "\<forall>x \<in> set ds. is_digit base x"
    using n by (auto simp: is_number_def)
  obtain x ds' where x: "ds = x # ds'" using n by (cases ds) (auto simp: is_number_def)
  have "cstring m (s + length sp) (sg @ ds @ rest)" using m by (simp add: cstring_append)
  then show c: "cstring m d0 (ds @ rest)" by (simp add: cstring_append d0_def)
  have mx: "m d0 = x" using c x by simp
  have xd: "is_digit base x" using ds x by simp
  have xs: "\<not> isspace (sint x)" "x \<noteq> 43" "x \<noteq> 45" using xd digit_ofD [of x] by (auto simp: is_digit_def split: option.splits)
  have ns: "\<not> isspace (char_at m (s + length sp))"
    using sg m mx xs space_byte [of 43] space_byte [of 45] by (auto simp: d0_def char_at_def cstring_append region_Suc digit_zero)
  note sp' = strto_space_spec [OF m sp ns]
  have "cstring m (d0 + length ds) rest" using c by (simp only: cstring_append)
  then have "m (d0 + length ds) = (case rest of [] \<Rightarrow> 0 | y # _ \<Rightarrow> y)" by (cases rest) simp_all
  then show "\<not> is_digit base (m (d0 + length ds))"
    using n by (cases rest) (auto simp: is_number_def is_digit_def digit_zero)
  have hex: "\<not> (base = 16 \<and> m d0 = 48 \<and> (m (d0 + 1) = 120 \<or> m (d0 + 1) = 88))"
  proof (cases ds')
    case Nil
    then show ?thesis using n c x by (cases rest) (auto simp: is_number_def)
  next
    case (Cons y ds'')
    then have "m (d0 + 1) = y" "is_digit base y" using c x ds by simp_all
    then show ?thesis using is_digit_letter [of base y] by auto
  qed
  show "strto_start s base m = Some (sg = [45], base, char_at m d0, d0 + 1)"
    using sg
  proof (elim disjE)
    assume "sg = []"
    with hex b mx xs show ?thesis by (simp add: strto_start_def sp' char_at_eq d0_def Let_def)
  next
    assume e: "sg = [43]"
    then have "m (s + length sp) = 43" using m by (simp add: cstring_append region_Suc)
    with e hex b show ?thesis by (simp add: strto_start_def sp' char_at_eq d0_def Let_def)
  next
    assume e: "sg = [45]"
    then have "m (s + length sp) = 45" using m by (simp add: cstring_append region_Suc)
    with e hex b show ?thesis by (simp add: strto_start_def sp' char_at_eq d0_def Let_def)
  qed
qed

lemma strto_digits_number:
  assumes m: "cstring m s (sp @ sg @ ds @ rest)" and n: "is_number base sp sg ds rest" and b: "2 \<le> base" "base \<le> 36"
    and most: "0 \<le> most" "most < 2 ^ 32"
  defines "d0 \<equiv> s + length sp + length sg" and "v \<equiv> digits_value base 0 ds"
  obtains acc' where "strto_digits base (word_of_int (most div base)) (most mod base) (char_at m d0) (d0 + 1) 0 0 m =
    (if v \<le> most then Some (word_of_int v, 1, d0 + length ds + 1) else Some (acc', - 1, d0 + length ds + 1))" "0 \<le> v"
proof -
  note s = strto_start_spec [OF m n b(1), folded d0_def]
  have ds: "\<forall>x \<in> set ds. is_digit base x" "ds \<noteq> []" using n by (auto simp: is_number_def)
  have "0 \<le> v" using digits_value_mono [of base 0 ds] ds b by (simp add: v_def)
  with strto_digits_spec [OF b most s(2) ds(1) s(3), of 0 0] ds(2) most(1) show thesis by (auto simp: v_def intro: that)
qed

lemma word_div_mod:
  fixes base most :: int
  assumes "2 \<le> base" "base \<le> 36" "0 \<le> most" "most < 2 ^ 32"
  shows "word_of_int most div word_of_int base = (word_of_int (most div base) :: u32)"
    "sint (word_of_int most mod word_of_int base :: u32) = most mod base"
proof -
  have u: "uint (word_of_int base :: u32) = base" "uint (word_of_int most :: u32) = most" using assms by (simp_all add: uint_word_of_int)
  show "word_of_int most div word_of_int base = (word_of_int (most div base) :: u32)" by (simp add: word_div_def u)
  have r: "0 \<le> most mod base" "most mod base < 36" using assms pos_mod_bound [of base most] pos_mod_sign [of base most] by linarith+
  then have "uint (word_of_int (most mod base) :: u32) = most mod base" by (simp add: uint_word_of_int)
  with r sint_small [of "word_of_int (most mod base) :: u32"] show "sint (word_of_int most mod word_of_int base :: u32) = most mod base"
    by (simp add: word_mod_def u)
qed

text \<open>
  C16. strtol on a number in a base between 2 and 36, with leading spaces and an optional sign, ends and returns its value, or the
  smallest or largest long integer and a range error when the value does not fit; the end pointer is behind the last digit.\<close>
theorem strtol_value:
  assumes m: "cstring m s (sp @ sg @ ds @ rest)" and n: "is_number base sp sg ds rest" and b: "2 \<le> base" "base \<le> 36"
  shows "strtol s base m =
    (let v = (if sg = [45] then - digits_value base 0 ds else digits_value base 0 ds)
     in Some (max (- (2 ^ 31)) (min (2 ^ 31 - 1) v), v < - (2 ^ 31) \<or> 2 ^ 31 - 1 < v, s + length sp + length sg + length ds))"
proof -
  define most :: int where "most = (if sg = [45] then 2 ^ 31 else 2 ^ 31 - 1)"
  let ?d0 = "s + length sp + length sg" and ?v = "digits_value base 0 ds"
  have most: "0 \<le> most" "most < 2 ^ 32" by (simp_all add: most_def)
  obtain acc' where d: "strto_digits base (word_of_int (most div base)) (most mod base) (char_at m ?d0) (?d0 + 1) 0 0 m =
    (if ?v \<le> most then Some (word_of_int ?v, 1, ?d0 + length ds + 1) else Some (acc', - 1, ?d0 + length ds + 1))" "0 \<le> ?v"
    by (rule strto_digits_number [OF m n b most])
  have w: "(if sg = [45] then 0x80000000 else 0x7fffffff :: u32) = word_of_int most" by (simp add: most_def)
  have dv: "word_of_int most div word_of_int base = (word_of_int (most div base) :: u32)"
    "sint (word_of_int most mod word_of_int base :: u32) = most mod base" by (rule word_div_mod [OF b most])+
  have neg: "sint (- word_of_int ?v :: u32) = - ?v" if "?v \<le> 2 ^ 31"
    using to_s32_id [of "- ?v"] d(2) that by (simp add: to_s32_def)
  have pos: "sint (word_of_int ?v :: u32) = ?v" if "?v \<le> 2 ^ 31 - 1"
    using to_s32_id [of ?v] d(2) that by (simp add: to_s32_def)
  have lim: "sint (0x80000000 :: u32) = - (2 ^ 31)" "sint (0x7fffffff :: u32) = 2 ^ 31 - 1" by code_simp+
  have "strtol s base m = (case strto_digits base (word_of_int (most div base)) (most mod base) (char_at m ?d0) (?d0 + 1) 0 0 m of
      None \<Rightarrow> None
    | Some (acc, any, s') \<Rightarrow> Some (sint (if any < 0 then (if sg = [45] then 0x80000000 else 0x7fffffff) else if sg = [45] then - acc else acc),
        any < 0, if any \<noteq> 0 then s' - 1 else s))"
    unfolding strtol_def strto_start_spec(1) [OF m n b(1)] Let_def option.case prod.case w dv ..
  also note d(1)
  finally show ?thesis
    using d(2) neg pos lim by (cases "sg = [45]"; cases "?v \<le> most") (simp_all add: Let_def most_def max_def min_def)
qed

theorem strtol_value_witness:
  "strtol 0 10 ((\<lambda>_. 0)(0 := 32, 1 := 45, 2 := 52, 3 := 50)) = Some (- 42, False, 4)"
proof -
  let ?m = "(\<lambda>_. 0)(0 := 32, 1 := 45, 2 := 52, 3 := 50) :: mem"
  have "digit_of (sint (52 :: u8)) = Some 4" "digit_of (sint (50 :: u8)) = Some 2" "isspace (sint (32 :: u8))" by code_simp+
  then show ?thesis using strtol_value [of ?m 0 "[32]" "[45]" "[52, 50]" "[]" 10] by (simp add: is_number_def is_digit_def)
qed

text \<open>The same for the conversion to an unsigned number, where a sign negates modulo \<open>2 ^ 32\<close>.\<close>

lemma strtoul_value:
  assumes m: "cstring m s (sp @ sg @ ds @ rest)" and n: "is_number base sp sg ds rest" and b: "2 \<le> base" "base \<le> 36"
  shows "strtoul s base m =
    (let v = digits_value base 0 ds
     in Some (if v < 2 ^ 32 then (if sg = [45] then - word_of_int v else word_of_int v) else - 1, 2 ^ 32 \<le> v,
              s + length sp + length sg + length ds))"
proof -
  let ?d0 = "s + length sp + length sg" and ?v = "digits_value base 0 ds" and ?most = "2 ^ 32 - 1 :: int"
  obtain acc' where d: "strto_digits base (word_of_int (?most div base)) (?most mod base) (char_at m ?d0) (?d0 + 1) 0 0 m =
    (if ?v \<le> ?most then Some (word_of_int ?v, 1, ?d0 + length ds + 1) else Some (acc', - 1, ?d0 + length ds + 1))" "0 \<le> ?v"
    by (rule strto_digits_number [OF m n b, of ?most]) simp_all
  have w: "(- 1 :: u32) = word_of_int ?most" by simp
  have dv: "word_of_int ?most div word_of_int base = (word_of_int (?most div base) :: u32)"
    "sint (word_of_int ?most mod word_of_int base :: u32) = ?most mod base" by (rule word_div_mod [OF b]; simp)+
  have "strtoul s base m = (case strto_digits base (word_of_int (?most div base)) (?most mod base) (char_at m ?d0) (?d0 + 1) 0 0 m of
      None \<Rightarrow> None
    | Some (acc, any, s') \<Rightarrow> Some (if any < 0 then word_of_int ?most else if sg = [45] then - acc else acc,
        any < 0, if any \<noteq> 0 then s' - 1 else s))"
    unfolding strtoul_def strto_start_spec(1) [OF m n b(1)] Let_def option.case prod.case w dv ..
  also note d(1)
  finally show ?thesis by (cases "?v \<le> ?most") (simp_all add: Let_def)
qed

lemma isdigit_byte: "isdigit (sint x) \<longleftrightarrow> is_digit 10 x" for x :: u8
  by (rule all_bytes [where P = "\<lambda>x. isdigit (sint x) \<longleftrightarrow> is_digit 10 x"]) code_simp

lemma digit_of_isdigit: "isdigit c \<Longrightarrow> digit_of c = Some (c - 48)"
  by (simp add: digit_of_def)

lemma atoi_digits_spec:
  assumes "cstring m s (ds @ rest)" "\<forall>x \<in> set ds. is_digit 10 x" "\<not> is_digit 10 (m (s + length ds))"
  shows "atoi_digits s (- word_of_int v) m = Some (- word_of_int (digits_value 10 v ds))"
  using assms
proof (induction ds arbitrary: s v)
  case Nil
  then show ?case by (subst atoi_digits.simps) (simp add: char_at_def isdigit_byte)
next
  case (Cons x ds)
  have x: "isdigit (char_at m s)" "char_at m s = sint x" using Cons.prems by (simp_all add: isdigit_byte char_at_def)
  have "10 * (- word_of_int v) - word_of_int (sint x - 48) = (- word_of_int (v * 10 + (sint x - 48)) :: u32)" by (simp add: algebra_simps)
  then have "atoi_digits s (- word_of_int v) m = atoi_digits (s + 1) (- word_of_int (v * 10 + (sint x - 48))) m"
    using x by (subst atoi_digits.simps) (simp only: if_True)
  also have "\<dots> = Some (- word_of_int (digits_value 10 (v * 10 + (sint x - 48)) ds))" using Cons.prems by (intro Cons.IH) simp_all
  finally show ?case using digit_of_isdigit [of "sint x"] x by simp
qed

lemma atoi_space_spec:
  assumes "cstring m s (sp @ xs)" "\<forall>x \<in> set sp. isspace (sint x)" "\<not> isspace (char_at m (s + length sp))"
  shows "atoi_space s m = Some (s + length sp)"
  using assms
proof (induction sp arbitrary: s)
  case Nil
  then show ?case by (subst atoi_space.simps) simp
next
  case (Cons x sp)
  then show ?case using Cons.IH [of "s + 1"] by (subst atoi_space.simps) (simp add: char_at_def)
qed

text \<open>\<^verbatim>\<open>atoi\<close> computes the value modulo \<open>2 ^ 32\<close>, so that it agrees with \<^verbatim>\<open>strtol\<close> on every number that fits.\<close>

lemma atoi_value:
  assumes m: "cstring m s (sp @ sg @ ds @ rest)" and n: "is_number 10 sp sg ds rest"
  shows "atoi s m = Some (to_s32 (if sg = [45] then - digits_value 10 0 ds else digits_value 10 0 ds))"
proof -
  let ?d0 = "s + length sp + length sg"
  note st = strto_start_spec(2,3) [OF m n]
  have ds: "\<forall>x \<in> set ds. is_digit 10 x" "ds \<noteq> []" and sp: "\<forall>x \<in> set sp. isspace (sint x)"
    and sg: "sg = [] \<or> sg = [43] \<or> sg = [45]" using n by (auto simp: is_number_def)
  have d: "atoi_digits ?d0 0 m = Some (- word_of_int (digits_value 10 0 ds))"
    using atoi_digits_spec [OF _ ds(1), of m ?d0 rest 0] st by simp
  have c0: "is_digit 10 (m ?d0)" using st(1) ds by (cases ds) auto
  then have c: "\<not> isspace (char_at m ?d0)" "m ?d0 \<noteq> 43" "m ?d0 \<noteq> 45"
    using digit_ofD [of "m ?d0"] by (auto simp: is_digit_def char_at_def split: option.splits)
  have first: "sg \<noteq> [] \<Longrightarrow> m (s + length sp) = hd sg" using m sg by (auto simp: cstring_append region_Suc)
  have "\<not> isspace (char_at m (s + length sp))"
    using sg c first space_byte [of 43] space_byte [of 45] by (auto simp: char_at_def digit_zero)
  note sp' = atoi_space_spec [OF m sp this]
  show ?thesis using sg d c first by (elim disjE) (simp_all add: atoi_def sp' char_at_eq Let_def to_s32_def)
qed

section \<open>Searching and comparing\<close>

lemma strncmp_prefix:
  "cstring m a xs \<Longrightarrow> cstring m b ys \<Longrightarrow> strncmp a b (length ys) m = 0 \<longleftrightarrow> prefix ys xs"
proof (induction ys arbitrary: a b xs)
  case (Cons y ys)
  show ?case
  proof (cases xs)
    case Nil
    then show ?thesis using Cons.prems by (auto dest: signed_word_eqI)
  next
    case (Cons x xs')
    then show ?thesis using Cons.prems Cons.IH [of "a + 1" xs' "b + 1"] by (auto dest: signed_word_eqI)
  qed
qed simp

lemma strstr_loop_spec:
  assumes "cstring m s xs" "cstring m b (y # ys)"
  shows "\<exists>r. strstr_loop s y (b + 1) (length ys) m = Some r \<and>
    (case r of None \<Rightarrow> \<forall>i. \<not> prefix (y # ys) (drop i xs)
     | Some p \<Rightarrow> \<exists>i. p = s + i \<and> prefix (y # ys) (drop i xs) \<and> (\<forall>j < i. \<not> prefix (y # ys) (drop j xs)))"
  using assms
proof (induction xs arbitrary: s)
  case Nil
  then show ?case by (subst strstr_loop.simps) simp
next
  case (Cons x xs)
  have b: "cstring m (b + 1) ys" using Cons.prems(2) by simp
  have x: "m s = x" "x \<noteq> 0" "cstring m (s + 1) xs" using Cons.prems(1) by simp_all
  have hit: "prefix (y # ys) (x # xs) \<longleftrightarrow> x = y \<and> strncmp (s + 1) (b + 1) (length ys) m = 0"
    using strncmp_prefix [OF x(3) b] by auto
  show ?case
  proof (cases "prefix (y # ys) (x # xs)")
    case True
    then show ?thesis using x hit by (subst strstr_loop.simps) (auto intro: exI [of _ 0])
  next
    case False
    have e: "strstr_loop s y (b + 1) (length ys) m = strstr_loop (s + 1) y (b + 1) (length ys) m"
      using False x hit by (subst strstr_loop.simps) auto
    obtain r where r: "strstr_loop (s + 1) y (b + 1) (length ys) m = Some r"
      "case r of None \<Rightarrow> \<forall>i. \<not> prefix (y # ys) (drop i xs)
       | Some p \<Rightarrow> \<exists>i. p = s + 1 + i \<and> prefix (y # ys) (drop i xs) \<and> (\<forall>j < i. \<not> prefix (y # ys) (drop j xs))"
      using Cons.IH [OF x(3) Cons.prems(2)] by blast
    have "\<not> prefix (y # ys) (drop j (x # xs))" if "\<forall>i < k. \<not> prefix (y # ys) (drop i xs)" "j < Suc k" for j k
      using that False by (cases j) simp_all
    then show ?thesis unfolding e r(1) using r(2) False
      by (cases r) (force simp: drop_Cons' intro: exI [of _ "Suc i" for i])+
  qed
qed

text \<open>
  C37. strstr ends on terminated strings; it returns the first place in the string where the other string occurs, and the null pointer
  if there is none.\<close>
theorem strstr_first:
  assumes x: "cstring m s xs" and y: "cstring m b ys"
  shows "\<exists>r. strstr s b m = Some r \<and>
    (case r of None \<Rightarrow> \<forall>i. \<not> prefix ys (drop i xs)
     | Some p \<Rightarrow> \<exists>i. p = s + i \<and> prefix ys (drop i xs) \<and> (\<forall>j < i. \<not> prefix ys (drop j xs)))"
proof (cases ys)
  case Nil
  then show ?thesis using y by (simp add: strstr_def)
next
  case (Cons z zs)
  then have "cstring m (b + 1) zs" "m b = z" "z \<noteq> 0" using y by simp_all
  then show ?thesis unfolding Cons using strstr_loop_spec [OF x y [unfolded Cons]] by (simp add: strstr_def strlen_spec)
qed

theorem strstr_first_witness:
  "\<exists>p. strstr 0 8 ((\<lambda>_. 0)(0 := 97, 1 := 98, 8 := 98)) = Some (Some p) \<and> p = 1"
proof -
  let ?m = "(\<lambda>_. 0)(0 := 97, 1 := 98, 8 := 98) :: mem"
  have x: "cstring ?m 0 [97, 98]" "cstring ?m 8 [98]" by simp_all
  have hit: "prefix [98] (drop i [97, 98 :: u8]) \<longleftrightarrow> i = 1" for i
    by (cases i; cases "i - 1") (simp_all add: drop_Cons')
  show ?thesis using strstr_first [OF x] unfolding hit by (auto split: option.splits)
qed

text \<open>
  Comparison without regard to case: the table agrees with \<^verbatim>\<open>tolower\<close> on the ASCII characters, and the result is zero
  exactly if the first \<open>n\<close> characters of the strings have the same images.
\<close>

definition lower :: "u8 \<Rightarrow> nat" where
  "lower x = charmap ! unat x"

lemma charmap_nth:
  "n < 256 \<Longrightarrow> charmap ! n = (if 65 \<le> n \<and> n \<le> 90 \<or> 193 \<le> n \<and> n \<le> 218 then n + 32 else n)"
proof -
  assume "n < 256"
  then consider "n < 65" | "65 \<le> n \<and> n < 91" | "91 \<le> n \<and> n < 193" | "193 \<le> n \<and> n < 219" | "219 \<le> n \<and> n < 256" by linarith
  then show ?thesis by cases (auto simp: charmap_def nth_append simp del: upt_rec_numeral)
qed

lemma charmap_ascii: "n < 128 \<Longrightarrow> int (charmap ! n) = tolower (int n)"
  by (simp add: charmap_nth tolower_def)

lemma lower_zero: "lower x = 0 \<longleftrightarrow> x = 0"
proof -
  have "unat x < 256" using unat_bound [of x] by simp
  then have "lower x = 0 \<longleftrightarrow> unat x = 0" unfolding lower_def by (simp only: charmap_nth) auto
  then show ?thesis by (simp add: unat_eq_zero)
qed

lemma strncasecmp_zero_iff:
  "cstring m a xs \<Longrightarrow> cstring m b ys \<Longrightarrow> strncasecmp a b n m = 0 \<longleftrightarrow> map lower (take n xs) = map lower (take n ys)"
proof (induction n arbitrary: a b xs ys)
  case (Suc n)
  have e: "strncasecmp a b (Suc n) m = 0 \<longleftrightarrow> lower (m a) = lower (m b) \<and> (m a = 0 \<or> strncasecmp (a + 1) (b + 1) n m = 0)"
    by (simp add: lower_def Let_def unat_eq_zero)
  show ?case
  proof (cases xs)
    case Nil
    then show ?thesis unfolding e using Suc.prems lower_zero [of "m b"] lower_zero [of 0] by (cases ys) auto
  next
    case (Cons x xs')
    then show ?thesis unfolding e using Suc.prems Suc.IH [of "a + 1" xs' "b + 1"] lower_zero [of x] lower_zero [of 0] by (cases ys) auto
  qed
qed simp

end
