(* ===== verification/Crc16.thy ===== *)
theory Crc16
  imports Memory
begin

text \<open>
  The 16-bit cyclic redundancy check (\<^verbatim>\<open>lib/crc/crc16_sw.c\<close>). The bytes come from memory; the register is a
  16-bit word. The main fact is what the check is for: a message followed by its check value, the
  most significant byte first, checks to zero.
\<close>

section \<open>The routine\<close>

text \<open>One turn of the inner loop, with the input bit; the bit of the message or of the implicit trailing zeros.\<close>

definition crc_step :: "u16 \<Rightarrow> bool \<Rightarrow> u16 \<Rightarrow> u16" where
  "crc_step polynomial input crc =
     (let divide = crc AND 0x8000;
          crc1 = push_bit 1 crc;
          crc2 = crc1 OR (if input then 1 else 0)
      in if divide \<noteq> 0 then crc2 XOR polynomial else crc2)"

definition input_bit :: "nat \<Rightarrow> nat \<Rightarrow> mem \<Rightarrow> nat \<Rightarrow> nat \<Rightarrow> bool" where
  "input_bit src len m i b \<longleftrightarrow> i < len \<and> m (src + i) AND drop_bit b 0x80 \<noteq> 0"

definition crc16 :: "nat \<Rightarrow> nat \<Rightarrow> u16 \<Rightarrow> u16 \<Rightarrow> bool \<Rightarrow> mem \<Rightarrow> u16" where
  "crc16 src len polynomial initial_value pad m =
     (let padding = (if pad then 2 else 0)
      in fold (\<lambda>i crc. fold (\<lambda>b crc. crc_step polynomial (input_bit src len m i b) crc) [0..<8] crc)
           [0..<len + padding] initial_value)"

section \<open>The register as a machine\<close>

text \<open>The bits of a byte, the most significant first, and the register after a sequence of bits.\<close>

definition byte_bits :: "u8 \<Rightarrow> bool list" where
  "byte_bits x = map (\<lambda>b. bit x (7 - b)) [0..<8]"

definition crc_bits :: "u16 \<Rightarrow> bool list \<Rightarrow> u16 \<Rightarrow> u16" where
  "crc_bits polynomial = fold (crc_step polynomial)"

lemma zero_no_bits: "w = 0 \<longleftrightarrow> (\<forall>n. \<not> bit w n)" for w :: "'a::len word"
proof
  assume "\<forall>n. \<not> bit w n"
  then show "w = 0" by (intro bit_eqI) simp
qed simp

lemma msb_test: "crc AND 0x8000 \<noteq> 0 \<longleftrightarrow> bit crc 15" for crc :: u16
proof -
  have "(0x8000 :: u16) = push_bit 15 1" by simp
  then have "bit (0x8000 :: u16) i \<longleftrightarrow> i = 15" for i by (simp only: bit_push_bit_iff bit_1_iff) auto
  then show ?thesis unfolding zero_no_bits by (simp add: bit_and_iff)
qed

lemma bit_crc_step:
  assumes "i < 16"
  shows "bit (crc_step p a x) i \<longleftrightarrow> (if i = 0 then a else bit x (i - 1)) \<noteq> (bit x 15 \<and> bit p i)"
proof -
  have "bit (push_bit 1 x OR (if a then 1 else 0)) i \<longleftrightarrow> (if i = 0 then a else bit x (i - 1))"
    using assms by (simp only: bit_or_iff bit_push_bit_iff) (auto simp: bit_1_iff)
  then have "bit (if bit x 15 then (push_bit 1 x OR (if a then 1 else 0)) XOR p else push_bit 1 x OR (if a then 1 else 0)) i \<longleftrightarrow>
      (if i = 0 then a else bit x (i - 1)) \<noteq> (bit x 15 \<and> bit p i)" by (cases "bit x 15") (simp_all only: bit_xor_iff if_True if_False simp_thms)
  then show ?thesis unfolding crc_step_def Let_def msb_test .
qed

lemma crc_step_xor:
  "crc_step p (a \<noteq> b) (x XOR y) = crc_step p a x XOR crc_step p b y"
  by (rule bit_word_eqI) (auto simp: bit_crc_step bit_xor_iff)

lemma input_bit_nth: "b < 8 \<Longrightarrow> input_bit src len m i b \<longleftrightarrow> i < len \<and> byte_bits (m (src + i)) ! b"
proof -
  assume b: "b < 8"
  have "bit (drop_bit b (0x80 :: u8)) n \<longleftrightarrow> n = 7 - b" for n
  proof -
    have "(0x80 :: u8) = push_bit 7 1" by simp
    then have "bit (0x80 :: u8) n \<longleftrightarrow> n = 7" for n by (simp only: bit_push_bit_iff bit_1_iff) auto
    then show ?thesis unfolding bit_drop_bit_eq o_def using b by (simp only:) arith
  qed
  then have "x AND drop_bit b 0x80 \<noteq> 0 \<longleftrightarrow> bit x (7 - b)" for x :: u8 unfolding zero_no_bits by (simp add: bit_and_iff)
  with b show ?thesis by (simp add: input_bit_def byte_bits_def)
qed

lemma crc_bits_xor:
  "length as = length bs \<Longrightarrow>
   crc_bits p (map2 (\<lambda>a b. a \<noteq> b) as bs) (x XOR y) = crc_bits p as x XOR crc_bits p bs y"
proof (induction as bs arbitrary: x y rule: list_induct2)
  case (Cons a as b bs)
  then show ?case using crc_step_xor [of p a b x y] by (simp add: crc_bits_def)
qed (simp add: crc_bits_def)

text \<open>As long as no one is shifted out, the register just collects the bits.\<close>

definition word_bits :: "nat \<Rightarrow> u16 \<Rightarrow> bool list" where
  "word_bits n c = map (\<lambda>b. bit c (15 - b)) [0..<n]"

lemma collect_bits: "n \<le> 16 \<Longrightarrow> crc_bits p (word_bits n c) 0 = drop_bit (16 - n) c"
proof (induction n)
  case (Suc n)
  have "crc_bits p (word_bits (Suc n) c) 0 = crc_step p (bit c (15 - n)) (drop_bit (16 - n) c)"
    using Suc by (simp add: crc_bits_def word_bits_def)
  also have "\<dots> = drop_bit (16 - Suc n) c"
  proof (rule bit_word_eqI)
    fix i assume "i < LENGTH(16)"
    then have i: "i < 16" by simp
    have "\<not> bit (drop_bit (16 - n) c) 15" using Suc.prems by (auto simp: bit_drop_bit_eq dest: bit_imp_le_length)
    then show "bit (crc_step p (bit c (15 - n)) (drop_bit (16 - n) c)) i \<longleftrightarrow> bit (drop_bit (16 - Suc n) c) i"
      using Suc.prems i by (cases i) (simp_all add: bit_crc_step bit_drop_bit_eq flip: Suc_diff_le)
  qed
  finally show ?case .
next
  case 0
  have "drop_bit 16 c = 0" by (rule bit_word_eqI) (auto simp: bit_drop_bit_eq dest: bit_imp_le_length)
  then show ?case by (simp add: crc_bits_def word_bits_def)
qed

lemma crc16_loop:
  assumes "\<And>i. i < n \<Longrightarrow> m' (src + i) = m (src + i)"
  shows "fold (\<lambda>i crc. fold (\<lambda>b crc. crc_step p (input_bit src len m i b) crc) [0..<8] crc) [0..<n] x =
    crc_bits p (concat (map (\<lambda>i. if i < len then byte_bits (m' (src + i)) else replicate 8 False) [0..<n])) x"
  using assms
proof (induction n)
  case (Suc n)
  have "fold (\<lambda>b crc. crc_step p (input_bit src len m n b) crc) [0..<8] y =
      crc_bits p (if n < len then byte_bits (m' (src + n)) else replicate 8 False) y" for y
  proof -
    have "map (input_bit src len m n) [0..<8] = (if n < len then byte_bits (m' (src + n)) else replicate 8 False)"
      using Suc.prems [of n] by (intro nth_equalityI) (auto simp: input_bit_nth byte_bits_def)
    moreover have "fold (\<lambda>b crc. crc_step p (input_bit src len m n b) crc) xs y = crc_bits p (map (input_bit src len m n) xs) y" for xs
      by (induction xs arbitrary: y) (simp_all add: crc_bits_def)
    ultimately show ?thesis by simp
  qed
  then show ?case using Suc by (simp add: crc_bits_def)
qed (simp add: crc_bits_def)

lemma crc16_bits:
  "crc16 src len p x pad m =
   crc_bits p (concat (map (\<lambda>i. if i < len then byte_bits (m (src + i)) else replicate 8 False) [0..<len + (if pad then 2 else 0)])) x"
  unfolding crc16_def Let_def by (rule crc16_loop) simp

lemma word_bits_bytes:
  "byte_bits (ucast (drop_bit 8 c)) @ byte_bits (ucast c) = word_bits 16 c" for c :: u16
  by (rule nth_equalityI) (auto simp: byte_bits_def word_bits_def nth_append bit_simps)

text \<open>
  C15. The cyclic redundancy check detects what it is meant to: if the two bytes behind a message are its check value, the
  high byte first, then the check over the message and these two bytes is zero, for every polynomial and initial value.\<close>
theorem crc16_verifies:
  fixes c :: u16
  assumes c: "c = crc16 src len polynomial initial_value True m"
    and hi: "m (src + len) = ucast (drop_bit 8 c)" and lo: "m (src + len + 1) = ucast c"
  shows "crc16 src (len + 2) polynomial initial_value False m = 0"
proof -
  let ?msg = "concat (map (\<lambda>i. byte_bits (m (src + i))) [0..<len])"
  let ?x = "crc_bits polynomial ?msg initial_value"
  have same: "concat (map (\<lambda>i. if i < l then byte_bits (m (src + i)) else replicate 8 False) [0..<len]) = ?msg" if "len \<le> l" for l
    using that by (intro arg_cong [where f = concat] map_cong) auto
  have u: "[0..<len + 2] = [0..<len] @ [len, len + 1]" by (simp add: numeral_2_eq_2)
  have zeros: "replicate 8 False @ replicate 8 False = replicate 16 False" by (simp flip: replicate_add)
  have "c = crc_bits polynomial (?msg @ replicate 8 False @ replicate 8 False) initial_value"
    unfolding c crc16_bits if_True u using same [of len] by simp
  then have c': "c = crc_bits polynomial (replicate 16 False) ?x" unfolding zeros by (simp add: crc_bits_def)
  have "crc16 src (len + 2) polynomial initial_value False m =
      crc_bits polynomial (?msg @ byte_bits (ucast (drop_bit 8 c)) @ byte_bits (ucast c)) initial_value"
    unfolding crc16_bits if_False add_0_right u
    using same [of "len + 2"] hi lo by (simp add: add.assoc)
  also have "\<dots> = crc_bits polynomial (word_bits 16 c) ?x" unfolding word_bits_bytes by (simp add: crc_bits_def)
  also have "word_bits 16 c = map2 (\<lambda>a b. a \<noteq> b) (replicate 16 False) (word_bits 16 c)"
    by (rule nth_equalityI) (simp_all add: word_bits_def)
  also have "crc_bits polynomial \<dots> ?x = crc_bits polynomial (replicate 16 False) ?x XOR crc_bits polynomial (word_bits 16 c) 0"
    using crc_bits_xor [of "replicate 16 False" "word_bits 16 c" polynomial ?x 0] by (simp add: word_bits_def)
  also have "\<dots> = 0" using collect_bits [of 16 polynomial c] by (simp flip: c')
  finally show ?thesis by simp
qed

theorem crc16_verifies_witness: "crc16 0 3 0x1021 0xffff False ((\<lambda>_. 0)(0 := 49, 1 := 0xEA, 2 := 0xEE)) = 0"
proof -
  let ?m = "(\<lambda>_. 0)(0 := 49, 1 := 0xEA, 2 := 0xEE) :: mem"
  have "crc16 0 1 0x1021 0xffff True ?m = 0xEAEE" by code_simp
  then show ?thesis using crc16_verifies [of "0xEAEE" 0 1 "0x1021" "0xffff" ?m] by (simp add: numeral_3_eq_3)
qed

end
