(* ===== verification/Printk.thy ===== *)
theory Printk
  imports Libc_Stdlib
begin

text \<open>
  Formatted output (\<^verbatim>\<open>misc/printk.c\<close>). A format is the list of its characters up to the terminating zero; the variable
  arguments are a list of words, double words and strings, and taking an argument of the wrong kind is the result \<open>None\<close>.
  The output function changes a context, which is passed along; \<^verbatim>\<open>long\<close> has 32 bits. The counts and widths are
  \<^verbatim>\<open>int\<close>s, which wrap as the build has it (\<^verbatim>\<open>-fno-strict-overflow\<close>).
\<close>

section \<open>Numbers\<close>

datatype pad_type = PAD_NONE | PAD_ZERO_BEFORE | PAD_SPACE_BEFORE | PAD_SPACE_AFTER

text \<open>The loop that writes spaces behind a field.\<close>

definition out_spaces :: "(int \<Rightarrow> 'c \<Rightarrow> 'c) \<Rightarrow> int \<Rightarrow> 'c \<Rightarrow> 'c" where
  "out_spaces out remaining ctx = (out 32 ^^ nat remaining) ctx"

fun hex_loop :: "(int \<Rightarrow> 'c \<Rightarrow> 'c) \<Rightarrow> u32 \<Rightarrow> pad_type \<Rightarrow> int \<Rightarrow> nat \<Rightarrow> bool \<Rightarrow> int \<Rightarrow> int \<Rightarrow> 'c \<Rightarrow> int \<times> 'c" where
  "hex_loop out num padding min_width 0 found remaining digits ctx = (digits, ctx)"
| "hex_loop out num padding min_width (Suc n) found remaining digits ctx =
     (let nibble = uint (drop_bit (4 * n) num AND 0xf)
      in if nibble \<noteq> 0 \<or> found \<or> n = 0
         then hex_loop out num padding min_width n True remaining (digits + 1)
                (out (nibble + (if nibble > 9 then 87 else 48)) ctx)
         else hex_loop out num padding min_width n found (remaining - 1) digits
                (if remaining \<le> min_width
                 then (if padding = PAD_ZERO_BEFORE then out 48 ctx
                       else if padding = PAD_SPACE_BEFORE then out 32 ctx else ctx)
                 else ctx))"

definition printk_hex_ulong :: "(int \<Rightarrow> 'c \<Rightarrow> 'c) \<Rightarrow> u32 \<Rightarrow> pad_type \<Rightarrow> int \<Rightarrow> 'c \<Rightarrow> 'c" where
  "printk_hex_ulong out num padding min_width ctx =
     (let (digits, ctx1) = hex_loop out num padding min_width 8 False 8 0 ctx
      in if padding = PAD_SPACE_AFTER then out_spaces out (to_s32 (min_width * 2 - digits)) ctx1 else ctx1)"

function dec_loop ::
  "(int \<Rightarrow> 'c \<Rightarrow> 'c) \<Rightarrow> pad_type \<Rightarrow> int \<Rightarrow> u32 \<Rightarrow> u32 \<Rightarrow> bool \<Rightarrow> int \<Rightarrow> int \<Rightarrow> 'c \<Rightarrow> u32 \<times> int \<times> 'c" where
  "dec_loop out padding min_width pos remainder found remaining digits ctx =
     (if pos \<ge> 9
      then let (found1, digits1, ctx1) =
                 (if found \<or> remainder > pos then (True, digits + 1, out (uint (remainder div (pos + 1)) + 48) ctx)
                  else if remaining \<le> min_width \<and> padding \<noteq> PAD_SPACE_AFTER
                  then (found, digits + 1, out (if padding = PAD_ZERO_BEFORE then 48 else 32) ctx)
                  else (found, digits, ctx))
           in dec_loop out padding min_width (pos div 10) (remainder mod (pos + 1)) found1 (remaining - 1) digits1 ctx1
      else (remainder, digits, ctx))"
  by pat_completeness auto

termination
proof (relation "measure (\<lambda>(out, padding, min_width, pos, _). unat pos)", simp, goal_cases)
  case (1 out padding min_width pos)
  then have "9 \<le> unat pos" by (simp add: word_le_nat_alt)
  then show ?case by (simp add: unat_div)
qed

declare dec_loop.simps [simp del]

definition printk_dec_ulong :: "(int \<Rightarrow> 'c \<Rightarrow> 'c) \<Rightarrow> u32 \<Rightarrow> pad_type \<Rightarrow> int \<Rightarrow> 'c \<Rightarrow> 'c" where
  "printk_dec_ulong out num padding min_width ctx =
     (let w = (if min_width \<le> 0 then 1 else min_width);
          (remainder, digits, ctx1) = dec_loop out padding w 999999999 num False 10 1 ctx;
          ctx2 = out (uint remainder + 48) ctx1
      in if padding = PAD_SPACE_AFTER then out_spaces out (w - digits) ctx2 else ctx2)"

section \<open>The format\<close>

datatype va = VWord u32 | VLongLong "64 word" | VStr "u8 list"

record format_state =
  might_format :: bool
  padding :: pad_type
  min_width :: int
  long_ctr :: int

definition va_long :: "int \<Rightarrow> va list \<Rightarrow> (u32 \<times> va list) option" where
  "va_long ctr ap =
     (case ap of
        VWord w # ap' \<Rightarrow> if ctr < 2 then Some (w, ap') else None
      | VLongLong w # ap' \<Rightarrow> if ctr < 2 then None else Some (ucast w, ap')
      | _ \<Rightarrow> None)"

text \<open>
  One character behind a \<^verbatim>\<open>%\<close>: the new state, the rest of the arguments and the context. The characters are
  written as numbers: 37 is the percent sign, 45 the minus sign, 48 to 57 are the digits, 108, 122 and 104 are
  l, z and h, 100 and 105 are d and i, 117 is u, 112 is p, 120 and 88 are x and X, 115 is s, 99 is c.
\<close>

definition format_char ::
  "(int \<Rightarrow> 'c \<Rightarrow> 'c) \<Rightarrow> u8 \<Rightarrow> format_state \<Rightarrow> va list \<Rightarrow> 'c \<Rightarrow> (format_state \<times> va list \<times> 'c) option" where
  "format_char out f st ap ctx =
     (let done = st\<lparr>might_format := False\<rparr>
      in if f = 45 then Some (st\<lparr>padding := PAD_SPACE_AFTER\<rparr>, ap, ctx)
         else if f = 48 \<and> min_width st < 0 \<and> padding st = PAD_NONE then Some (st\<lparr>padding := PAD_ZERO_BEFORE\<rparr>, ap, ctx)
         else if 48 \<le> f \<and> f \<le> 57
         then Some (st\<lparr>min_width := (if min_width st < 0 then sint f - 48 else to_s32 (10 * min_width st + sint f - 48)),
                       padding := (if padding st = PAD_NONE then PAD_SPACE_BEFORE else padding st)\<rparr>, ap, ctx)
         else if f = 108 then Some (st\<lparr>long_ctr := to_s32 (long_ctr st + 1)\<rparr>, ap, ctx)
         else if f = 122 \<or> f = 104 then Some (st, ap, ctx)
         else if f = 100 \<or> f = 105
         then (case va_long (long_ctr st) ap of
                 None \<Rightarrow> None
               | Some (d, ap') \<Rightarrow>
                   Some (done, ap',
                     if sint d < 0 then printk_dec_ulong out (- d) (padding st) (to_s32 (min_width st - 1)) (out 45 ctx)
                     else printk_dec_ulong out d (padding st) (min_width st) ctx))
         else if f = 117
         then map_option (\<lambda>(u, ap'). (done, ap', printk_dec_ulong out u (padding st) (min_width st) ctx)) (va_long (long_ctr st) ap)
         else if f = 112
         then map_option (\<lambda>(x, ap'). (done, ap', printk_hex_ulong out x PAD_ZERO_BEFORE 8 (out 120 (out 48 ctx)))) (va_long (long_ctr st) ap)
         else if f = 120 \<or> f = 88
         then map_option (\<lambda>(x, ap'). (done, ap', printk_hex_ulong out x (padding st) (min_width st) ctx)) (va_long (long_ctr st) ap)
         else if f = 115
         then (case ap of
                 VStr s # ap' \<Rightarrow>
                   let ctx1 = fold (\<lambda>c. out (sint c)) s ctx
                   in Some (done, ap', if padding st = PAD_SPACE_AFTER then out_spaces out (to_s32 (min_width st - int (length s))) ctx1 else ctx1)
               | _ \<Rightarrow> None)
         else if f = 99
         then (case ap of VWord c # ap' \<Rightarrow> Some (done, ap', out (sint c) ctx) | _ \<Rightarrow> None)
         else if f = 37 then Some (done, ap, out 37 ctx)
         else Some (done, ap, out (sint f) (out 37 ctx)))"

fun vprintk_loop :: "(int \<Rightarrow> 'c \<Rightarrow> 'c) \<Rightarrow> u8 list \<Rightarrow> format_state \<Rightarrow> va list \<Rightarrow> 'c \<Rightarrow> 'c option" where
  "vprintk_loop out [] st ap ctx = Some ctx"
| "vprintk_loop out (f # fmt) st ap ctx =
     (if \<not> might_format st
      then (if f \<noteq> 37 then vprintk_loop out fmt st ap (out (sint f) ctx)
            else vprintk_loop out fmt \<lparr>might_format = True, padding = PAD_NONE, min_width = - 1, long_ctr = 0\<rparr> ap ctx)
      else (case format_char out f st ap ctx of
              None \<Rightarrow> None
            | Some (st', ap', ctx') \<Rightarrow> vprintk_loop out fmt st' ap' ctx'))"

definition vprintk_internal :: "(int \<Rightarrow> 'c \<Rightarrow> 'c) \<Rightarrow> 'c \<Rightarrow> u8 list \<Rightarrow> va list \<Rightarrow> 'c option" where
  "vprintk_internal out ctx fmt ap =
     vprintk_loop out fmt \<lparr>might_format = False, padding = PAD_NONE, min_width = - 1, long_ctr = 0\<rparr> ap ctx"

section \<open>Output to the console and to a buffer\<close>

text \<open>The console is the list of the characters that its output routine has been given.\<close>

definition char_out :: "int \<Rightarrow> int \<times> int list \<Rightarrow> int \<times> int list" where
  "char_out c ctx = (to_s32 (fst ctx + 1), snd ctx @ [c])"

definition vprintk :: "u8 list \<Rightarrow> va list \<Rightarrow> int list \<Rightarrow> (int \<times> int list) option" where
  "vprintk fmt ap console = vprintk_internal char_out (0, console) fmt ap"

definition printk :: "u8 list \<Rightarrow> va list \<Rightarrow> int list \<Rightarrow> (int \<times> int list) option" where
  "printk fmt ap console = vprintk fmt ap console"

definition k_str_out :: "nat \<Rightarrow> nat \<Rightarrow> mem \<Rightarrow> int list \<Rightarrow> int list" where
  "k_str_out c n m console = fold (\<lambda>i console. console @ [sint (m (c + i))]) [0..<n] console"

record str_context =
  str_buf :: nat
  str_max :: int
  str_count :: int
  str_mem :: mem

definition str_addr :: "str_context \<Rightarrow> nat" where
  "str_addr ctx = nat (int (str_buf ctx) + str_count ctx)"

definition str_out :: "int \<Rightarrow> str_context \<Rightarrow> str_context" where
  "str_out c ctx =
     (let count = to_s32 (str_count ctx + 1)
      in if str_buf ctx = 0 \<or> str_count ctx \<ge> str_max ctx then ctx\<lparr>str_count := count\<rparr>
         else if str_count ctx = to_s32 (str_max ctx - 1)
         then ctx\<lparr>str_mem := poke (str_addr ctx) 0 (str_mem ctx), str_count := count\<rparr>
         else ctx\<lparr>str_mem := poke (str_addr ctx) (word_of_int c) (str_mem ctx), str_count := count\<rparr>)"

definition vsnprintk :: "nat \<Rightarrow> u32 \<Rightarrow> u8 list \<Rightarrow> va list \<Rightarrow> mem \<Rightarrow> (int \<times> mem) option" where
  "vsnprintk str sz fmt ap m =
     (case vprintk_internal str_out \<lparr>str_buf = str, str_max = sint sz, str_count = 0, str_mem = m\<rparr> fmt ap of
        None \<Rightarrow> None
      | Some ctx \<Rightarrow>
          Some (str_count ctx,
                if str_count ctx < str_max ctx then poke (str_addr ctx) 0 (str_mem ctx) else str_mem ctx))"

definition snprintk :: "nat \<Rightarrow> u32 \<Rightarrow> u8 list \<Rightarrow> va list \<Rightarrow> mem \<Rightarrow> (int \<times> mem) option" where
  "snprintk str sz fmt ap m = vsnprintk str sz fmt ap m"

section \<open>Output functions\<close>

text \<open>
  What is printed does not depend on the output function: a map between contexts that carries one output function to
  another carries everything that is printed.
\<close>

locale out_map =
  fixes out1 :: "int \<Rightarrow> 'c \<Rightarrow> 'c" and out2 :: "int \<Rightarrow> 'd \<Rightarrow> 'd" and h :: "'c \<Rightarrow> 'd"
  assumes out_map: "h (out1 c x) = out2 c (h x)"
begin

lemma out_spaces_map: "out_spaces out2 n (h x) = h (out_spaces out1 n x)"
proof -
  have "(out2 32 ^^ k) (h x) = h ((out1 32 ^^ k) x)" for k by (induction k) (simp_all add: out_map)
  then show ?thesis by (simp add: out_spaces_def)
qed

lemma hex_loop_map:
  "hex_loop out2 num p w n found r d (h x) = map_prod id h (hex_loop out1 num p w n found r d x)"
  by (induction n arbitrary: found r d x) (auto simp: Let_def out_map [symmetric])

lemma dec_loop_map:
  "dec_loop out2 p w pos rm found r d (h x) = map_prod id (map_prod id h) (dec_loop out1 p w pos rm found r d x)"
proof (induction "unat pos" arbitrary: pos rm found r d x rule: less_induct)
  case less
  show ?case
  proof (cases "9 \<le> pos")
    case True
    then have "unat (pos div 10) < unat pos" by (simp add: unat_div word_le_nat_alt)
    note IH = less [OF this]
    show ?thesis
      by (subst (1 2) dec_loop.simps) (simp add: True Let_def out_map [symmetric] IH)
  next
    case False
    then show ?thesis by (subst (1 2) dec_loop.simps) simp
  qed
qed

lemma printk_hex_map: "printk_hex_ulong out2 num p w (h x) = h (printk_hex_ulong out1 num p w x)"
  by (simp add: printk_hex_ulong_def hex_loop_map out_spaces_map case_prod_unfold Let_def)

lemma printk_dec_map: "printk_dec_ulong out2 num p w (h x) = h (printk_dec_ulong out1 num p w x)"
  by (simp add: printk_dec_ulong_def dec_loop_map out_spaces_map case_prod_unfold Let_def out_map [symmetric])

lemma fold_out_map: "fold (\<lambda>c. out2 (f c)) xs (h x) = h (fold (\<lambda>c. out1 (f c)) xs x)"
  by (induction xs arbitrary: x) (simp_all add: out_map [symmetric])

lemma format_char_map:
  "format_char out2 f st ap (h x) = map_option (map_prod id (map_prod id h)) (format_char out1 f st ap x)"
  unfolding format_char_def Let_def
  by (simp add: printk_hex_map printk_dec_map fold_out_map out_spaces_map out_map [symmetric] option.map_comp comp_def
      case_prod_unfold split: option.split list.split va.split)

lemma vprintk_loop_map: "vprintk_loop out2 fmt st ap (h x) = map_option h (vprintk_loop out1 fmt st ap x)"
  by (induction fmt arbitrary: st ap x)
    (simp_all add: format_char_map out_map [symmetric] case_prod_unfold split: option.split)

end

text \<open>The text that a format stands for, and what an output function makes of it.\<close>

definition printed :: "u8 list \<Rightarrow> va list \<Rightarrow> int list option" where
  "printed fmt ap = vprintk_internal (\<lambda>c xs. xs @ [c]) [] fmt ap"

interpretation to_list: out_map "\<lambda>c xs. xs @ [c]" out "\<lambda>xs. fold out xs ctx" for out :: "int \<Rightarrow> 'c \<Rightarrow> 'c" and ctx
  by unfold_locales simp

lemma vprintk_internal_printed: "vprintk_internal out ctx fmt ap = map_option (\<lambda>xs. fold out xs ctx) (printed fmt ap)"
  using to_list.vprintk_loop_map [where x = "[]"] by (simp add: vprintk_internal_def printed_def)

lemma to_s32_add: "to_s32 (to_s32 a + b) = to_s32 (a + b)"
proof -
  have "(word_of_int (to_s32 a + b) :: u32) = word_of_int (a + b)" by (simp add: to_s32_def)
  then show ?thesis by (simp only: to_s32_def)
qed

lemma printk_printed: "printk fmt ap console = map_option (\<lambda>xs. (to_s32 (int (length xs)), console @ xs)) (printed fmt ap)"
proof -
  have "fold char_out xs (to_s32 n, console) = (to_s32 (n + int (length xs)), console @ xs)" for xs n console
    by (induction xs arbitrary: n console) (simp_all add: char_out_def to_s32_add add.assoc)
  from this [of _ 0] show ?thesis by (simp add: printk_def vprintk_def vprintk_internal_printed to_s32_id)
qed

section \<open>Decimal numbers\<close>

fun dec_string :: "nat \<Rightarrow> int list" where
  "dec_string n = (if n < 10 then [int n + 48] else dec_string (n div 10) @ [int (n mod 10) + 48])"

declare dec_string.simps [simp del]

text \<open>Exactly so many digits, with leading zeros.\<close>

fun fixed :: "nat \<Rightarrow> nat \<Rightarrow> int list" where
  "fixed 0 v = []"
| "fixed (Suc k) v = (int (v div 10 ^ k) + 48) # fixed k (v mod 10 ^ k)"

lemma fixed_last: "fixed (Suc (Suc k)) v = fixed (Suc k) (v div 10) @ [int (v mod 10) + 48]"
proof (induction k arbitrary: v)
  case (Suc k)
  have "v mod 10 ^ Suc (Suc k) = 10 * (v div 10 mod 10 ^ Suc k) + v mod 10" unfolding power_Suc [of 10 "Suc k"] by (rule mod_mult2_eq)
  then have "v mod 10 ^ Suc (Suc k) div 10 = v div 10 mod 10 ^ Suc k" "v mod 10 ^ Suc (Suc k) mod 10 = v mod 10" by simp_all
  moreover have "v div 10 div 10 ^ Suc k = v div 10 ^ Suc (Suc k)" by (simp flip: div_mult2_eq)
  moreover note fixed.simps(2) [of "Suc (Suc k)" v] Suc.IH [of "v mod 10 ^ Suc (Suc k)"] fixed.simps(2) [of "Suc k" "v div 10"]
  ultimately show ?case by (simp del: fixed.simps power_Suc)
qed simp

lemma fixed_dec_string: "10 ^ k \<le> v \<or> k = 0 \<Longrightarrow> v < 10 ^ Suc k \<Longrightarrow> fixed (Suc k) v = dec_string v"
proof (induction k arbitrary: v)
  case (Suc k)
  have "10 ^ k \<le> v div 10" "v div 10 < 10 ^ Suc k" using Suc.prems by (simp_all add: less_mult_imp_div_less mult.commute)
  moreover have "(1 :: nat) \<le> 10 ^ k" by simp
  then have "\<not> v < 10" using Suc.prems(1) unfolding power_Suc by linarith
  ultimately show ?case using Suc.IH [of "v div 10"] by (simp only: fixed_last dec_string.simps [of v] if_False simp_thms)
qed (simp add: dec_string.simps)

text \<open>The loop of \<^verbatim>\<open>_printk_dec_ulong\<close> and the digit that follows it.\<close>

definition dec_tail :: "pad_type \<Rightarrow> int \<Rightarrow> u32 \<Rightarrow> u32 \<Rightarrow> bool \<Rightarrow> int \<Rightarrow> int \<Rightarrow> int list \<Rightarrow> int \<times> int list" where
  "dec_tail p w pos rm found r d xs =
     (case dec_loop (\<lambda>c xs. xs @ [c]) p w pos rm found r d xs of (rm', d', xs') \<Rightarrow> (d', xs' @ [uint rm' + 48]))"

lemma pos_facts:
  fixes pos rm :: u32
  assumes "k < 9" "unat pos = 10 ^ Suc k - 1"
  shows "9 \<le> pos" "unat (pos div 10) = 10 ^ k - 1" "unat (pos + 1) = 10 ^ Suc k" "rm > pos \<longleftrightarrow> 10 ^ Suc k \<le> unat rm"
    "uint (rm div (pos + 1)) = int (unat rm div 10 ^ Suc k)" "unat (rm mod (pos + 1)) = unat rm mod 10 ^ Suc k"
proof -
  have ten: "(1 :: nat) \<le> 10 ^ k" by simp
  have "(10 :: nat) ^ Suc k \<le> 10 ^ 9" using assms(1) by (intro power_increasing) simp_all
  then have p1: "unat pos + 1 = 10 ^ Suc k" "unat pos + 1 < 2 ^ 32" using assms(2) ten by simp_all
  then show u: "unat (pos + 1) = 10 ^ Suc k" by (simp add: unat_word_ariths)
  have p9: "unat pos = 10 * (10 ^ k - 1) + 9" using assms(2) ten unfolding power_Suc by linarith
  then show "9 \<le> pos" by (simp add: word_le_nat_alt)
  from p9 have "unat pos div 10 = 10 ^ k - 1" by simp
  then show "unat (pos div 10) = 10 ^ k - 1" by (simp add: unat_div)
  show "rm > pos \<longleftrightarrow> 10 ^ Suc k \<le> unat rm" using p1(1) by (auto simp: word_less_nat_alt)
  have "unat (rm div (pos + 1)) = unat rm div 10 ^ Suc k" by (simp add: unat_div u del: power_Suc)
  then show "uint (rm div (pos + 1)) = int (unat rm div 10 ^ Suc k)" by (metis of_nat_unat)
  show "unat (rm mod (pos + 1)) = unat rm mod 10 ^ Suc k" by (simp add: unat_mod u del: power_Suc)
qed

lemma dec_found:
  "k \<le> 9 \<Longrightarrow> unat pos = 10 ^ k - 1 \<Longrightarrow> unat rm < 10 ^ Suc k \<Longrightarrow>
   dec_tail p w pos rm True r d xs = (d + int k, xs @ fixed (Suc k) (unat rm))"
proof (induction k arbitrary: pos rm r d xs)
  case 0
  then have "pos = 0" by (simp add: unat_eq_zero)
  then show ?case by (simp add: dec_tail_def dec_loop.simps [of _ p w 0])
next
  case (Suc k)
  have "k < 9" using Suc.prems(1) by simp
  note f = pos_facts(1,2,3) [OF this Suc.prems(2)] pos_facts(4,5,6) [OF this Suc.prems(2), of rm]
  have "dec_tail p w pos rm True r d xs =
      dec_tail p w (pos div 10) (rm mod (pos + 1)) True (r - 1) (d + 1) (xs @ [int (unat rm div 10 ^ Suc k) + 48])"
    using f(1,5) Suc.prems(1) by (simp add: dec_tail_def dec_loop.simps [of _ p w pos] del: power_Suc)
  also have "\<dots> = (d + 1 + int k, (xs @ [int (unat rm div 10 ^ Suc k) + 48]) @ fixed (Suc k) (unat (rm mod (pos + 1))))"
    using Suc.prems f by (intro Suc.IH) simp_all
  finally show ?case using f(6) Suc.prems(1) by (simp add: fixed.simps(2) [of "Suc k"] del: fixed.simps power_Suc)
qed

lemma length_fixed [simp]: "length (fixed k v) = k"
  by (induction k arbitrary: v) simp_all

lemma length_dec_string: "v < 10 ^ Suc k \<Longrightarrow> length (dec_string v) \<le> Suc k"
proof (induction k arbitrary: v)
  case (Suc k)
  show ?case
  proof (cases "10 ^ Suc k \<le> v")
    case True
    then have "fixed (Suc (Suc k)) v = dec_string v" using Suc.prems by (intro fixed_dec_string) simp_all
    then show ?thesis by (metis length_fixed order_refl)
  qed (use Suc.IH [of v] in simp)
qed (simp add: dec_string.simps)

definition pad_before :: "pad_type \<Rightarrow> int \<Rightarrow> nat \<Rightarrow> int list" where
  "pad_before p w n = (if p = PAD_SPACE_AFTER then [] else replicate (nat (w - int n)) (if p = PAD_ZERO_BEFORE then 48 else 32))"

lemma pad_before_Suc:
  "n \<le> Suc k \<Longrightarrow> pad_before p (min w (2 + int k)) n =
     (if 2 + int k \<le> w \<and> p \<noteq> PAD_SPACE_AFTER then (if p = PAD_ZERO_BEFORE then 48 else 32) # pad_before p (min w (1 + int k)) n
      else pad_before p (min w (1 + int k)) n)"
proof -
  assume n: "n \<le> Suc k"
  show ?thesis
  proof (cases "2 + int k \<le> w")
    case True
    then have "nat (min w (2 + int k) - int n) = Suc (nat (min w (1 + int k) - int n))" using n by simp
    then show ?thesis by (simp only: pad_before_def replicate_Suc True) simp
  next
    case False
    then have "min w (2 + int k) = w" "min w (1 + int k) = w" by simp_all
    with False show ?thesis by (simp only:) simp
  qed
qed

lemma dec_not_found:
  "k \<le> 9 \<Longrightarrow> unat pos = 10 ^ k - 1 \<Longrightarrow> unat rm < 10 ^ Suc k \<Longrightarrow>
   dec_tail p w pos rm False (1 + int k) d xs =
     (let s = dec_string (unat rm); q = pad_before p (min w (1 + int k)) (length s)
      in (d + int (length q) + int (length s) - 1, xs @ q @ s))"
proof (induction k arbitrary: pos rm d xs)
  case 0
  then have "pos = 0" by (simp add: unat_eq_zero)
  moreover have "dec_string (unat rm) = [int (unat rm) + 48]" using 0 by (simp add: dec_string.simps)
  ultimately show ?case by (simp add: dec_tail_def dec_loop.simps [of _ p w 0] pad_before_def Let_def)
next
  case (Suc k)
  have "k < 9" using Suc.prems(1) by simp
  note f = pos_facts(1,2,3) [OF this Suc.prems(2)] pos_facts(4,5,6) [OF this Suc.prems(2), of rm]
  show ?case
  proof (cases "10 ^ Suc k \<le> unat rm")
    case True
    then have s: "dec_string (unat rm) = (int (unat rm div 10 ^ Suc k) + 48) # fixed (Suc k) (unat (rm mod (pos + 1)))"
      using fixed_dec_string [of "Suc k" "unat rm"] Suc.prems(3) f(6) by (simp only: fixed.simps(2) [of "Suc k"] simp_thms)
    have "dec_tail p w pos rm False (1 + int (Suc k)) d xs = dec_tail p w pos rm True (1 + int (Suc k)) d xs"
      using True f(1,4) by (simp add: dec_tail_def dec_loop.simps [of _ p w pos] del: power_Suc)
    also have "\<dots> = (d + int (Suc k), xs @ fixed (Suc (Suc k)) (unat rm))" by (rule dec_found) (use Suc.prems in simp_all)
    also have "fixed (Suc (Suc k)) (unat rm) = dec_string (unat rm)"
      using True Suc.prems(3) by (intro fixed_dec_string) simp_all
    finally show ?thesis by (simp add: Let_def pad_before_def s del: power_Suc fixed.simps)
  next
    case False
    then have rm: "rm mod (pos + 1) = rm" using f(6) by (simp add: word_unat_eq_iff del: power_Suc)
    have len: "length (dec_string (unat rm)) \<le> Suc k" using False by (intro length_dec_string) simp
    note pad = pad_before_Suc [OF len, of p w]
    let ?pad = "2 + int k \<le> w \<and> p \<noteq> PAD_SPACE_AFTER"
    let ?c = "if p = PAD_ZERO_BEFORE then 48 else 32 :: int"
    have "dec_tail p w pos rm False (1 + int (Suc k)) d xs =
        dec_tail p w (pos div 10) rm False (1 + int k) (if ?pad then d + 1 else d) (if ?pad then xs @ [?c] else xs)"
      using False f(1,4) rm by (simp add: dec_tail_def dec_loop.simps [of _ p w pos] del: power_Suc)
    also have "\<dots> = (let s = dec_string (unat rm); q = pad_before p (min w (1 + int k)) (length s)
      in ((if ?pad then d + 1 else d) + int (length q) + int (length s) - 1, (if ?pad then xs @ [?c] else xs) @ q @ s))"
      using Suc.prems False f by (intro Suc.IH) simp_all
    finally show ?thesis using pad by (simp add: Let_def)
  qed
qed

text \<open>A number and its padding, as the four kinds of padding have it; widths above ten are cut to ten in front.\<close>

definition dec_text :: "pad_type \<Rightarrow> int \<Rightarrow> nat \<Rightarrow> int list" where
  "dec_text p w v =
     (let s = dec_string v in
      pad_before p (min w 10) (length s) @ s @ (if p = PAD_SPACE_AFTER then replicate (nat (w - int (length s))) 32 else []))"

lemma printk_dec_ulong_spec:
  "printk_dec_ulong (\<lambda>c xs. xs @ [c]) num p w xs = xs @ dec_text p (max 1 w) (unat num)"
proof -
  let ?w = "if w \<le> 0 then 1 else w"
  have w: "?w = max 1 w" by simp
  have "unat num < 2 ^ 32" using unsigned_less [of num] by simp
  then have t: "dec_tail p ?w 999999999 num False 10 1 xs =
     (let s = dec_string (unat num); q = pad_before p (min ?w 10) (length s)
      in (1 + int (length q) + int (length s) - 1, xs @ q @ s))"
    using dec_not_found [of 9 999999999 num p ?w 1 xs] by simp
  have spaces: "out_spaces (\<lambda>c xs. xs @ [c]) n xs = xs @ replicate (nat n) 32" for n and xs :: "int list"
  proof -
    have "((\<lambda>xs. xs @ [32]) ^^ k) xs = xs @ replicate k (32 :: int)" for k
      by (induction k) (simp_all add: replicate_append_same)
    then show ?thesis by (simp add: out_spaces_def)
  qed
  have "printk_dec_ulong (\<lambda>c xs. xs @ [c]) num p w xs =
     (case dec_tail p ?w 999999999 num False 10 1 xs of (d, ys) \<Rightarrow>
        if p = PAD_SPACE_AFTER then out_spaces (\<lambda>c xs. xs @ [c]) (?w - d) ys else ys)"
    by (simp add: printk_dec_ulong_def dec_tail_def case_prod_unfold Let_def del: if_split)
  then show ?thesis unfolding t Let_def w [symmetric]
    by (simp add: dec_text_def pad_before_def spaces Let_def)
qed

section \<open>Strings\<close>

text \<open>
  The buffer after some output: the characters as far as they fit, with a null in the last place of the buffer.
\<close>

definition buffer_with :: "nat \<Rightarrow> nat \<Rightarrow> int list \<Rightarrow> mem \<Rightarrow> mem" where
  "buffer_with str n xs m =
     (\<lambda>a. if str \<le> a \<and> a - str < min (length xs) n then (if a - str = n - 1 then 0 else word_of_int (xs ! (a - str))) else m a)"

lemma buffer_with_snoc:
  "buffer_with str n (xs @ [x]) m =
     (if length xs < n then poke (str + length xs) (if length xs = n - 1 then 0 else word_of_int x) (buffer_with str n xs m)
      else buffer_with str n xs m)"
proof (rule ext)
  fix a
  consider "a < str" | i where "a = str + i" "i < length xs" | "a = str + length xs" | i where "a = str + i" "length xs < i"
    by (metis linorder_less_linear not_less le_Suc_ex)
  then show "buffer_with str n (xs @ [x]) m a =
     (if length xs < n then poke (str + length xs) (if length xs = n - 1 then 0 else word_of_int x) (buffer_with str n xs m)
      else buffer_with str n xs m) a"
    by cases (simp_all add: buffer_with_def poke_def nth_append)
qed

lemma fold_str_out:
  assumes "str \<noteq> 0" "n < 2 ^ 31" "length xs < 2 ^ 31"
  shows "fold str_out xs \<lparr>str_buf = str, str_max = int n, str_count = 0, str_mem = m\<rparr> =
    \<lparr>str_buf = str, str_max = int n, str_count = int (length xs), str_mem = buffer_with str n xs m\<rparr>"
  using assms(3)
proof (induction xs rule: rev_induct)
  case Nil
  show ?case by (simp add: buffer_with_def)
next
  case (snoc x xs)
  have IH: "fold str_out xs \<lparr>str_buf = str, str_max = int n, str_count = 0, str_mem = m\<rparr> =
    \<lparr>str_buf = str, str_max = int n, str_count = int (length xs), str_mem = buffer_with str n xs m\<rparr>"
    using snoc by simp
  have c: "to_s32 (1 + int (length xs)) = 1 + int (length xs)" using snoc.prems by (intro to_s32_id) simp_all
  have m: "to_s32 (int n - 1) = int n - 1" using assms(2) by (intro to_s32_id) simp_all
  have e: "int (length xs) = int n - 1 \<longleftrightarrow> length xs = n - 1" if "length xs < n" using that by linarith
  have n: "nat (int str + (int n - 1)) = n + str - Suc 0" if "length xs < n" using that by linarith
  show ?case using assms(1) e n
    by (simp add: IH str_out_def [of x "\<lparr>str_buf = _, str_max = _, str_count = _, str_mem = _\<rparr>"] buffer_with_snoc
        str_addr_def c m add.commute nat_int_add flip: of_nat_add)
qed

text \<open>
  A text of \<open>2 ^ 31\<close> characters wraps the count to a negative number, and the next character is written far in front
  of the buffer.
\<close>

lemma str_out_wraps:
  assumes "str_buf ctx \<noteq> 0" "0 \<le> str_max ctx" "str_max ctx < 2 ^ 31" "str_count ctx = 2 ^ 31 - 1"
  shows "str_mem (str_out d (str_out c ctx)) = poke (nat (int (str_buf ctx) - 2 ^ 31)) (word_of_int d) (str_mem ctx)"
proof -
  have w: "to_s32 (2 ^ 31) = - (2 ^ 31)" by (simp add: to_s32_def)
  have m: "to_s32 (str_max ctx - 1) = str_max ctx - 1" using assms(2,3) by (intro to_s32_id) simp_all
  from w m assms show ?thesis by (simp add: str_out_def str_addr_def Let_def)
qed

text \<open>\<^const>\<open>snprintk\<close>: what fits is a string in the buffer, and nothing outside the buffer is written.\<close>

definition string_in :: "nat \<Rightarrow> nat \<Rightarrow> int list \<Rightarrow> mem \<Rightarrow> mem" where
  "string_in str n xs m =
     (\<lambda>a. if str \<le> a \<and> a - str \<le> n then (if a - str = n then 0 else word_of_int (xs ! (a - str))) else m a)"

lemma snprintk_printed:
  assumes "str \<noteq> 0" "0 < sint sz" "printed fmt ap = Some xs" "length xs < 2 ^ 31"
  shows "snprintk str sz fmt ap m =
    Some (int (length xs), string_in str (min (length xs) (nat (sint sz) - 1)) xs m)"
proof -
  obtain n where n: "sint sz = int (Suc n)" using assms(2) by (metis gr0_implies_Suc zero_less_imp_eq_int)
  have "(if length xs < Suc n then poke (str + length xs) 0 (buffer_with str (Suc n) xs m) else buffer_with str (Suc n) xs m) =
    string_in str (min (length xs) n) xs m" (is "?l = ?r")
  proof (rule ext)
    fix a
    consider "a < str" | i where "a = str + i" "i < length xs" | "a = str + length xs" | i where "a = str + i" "length xs < i"
      by (metis linorder_less_linear not_less le_Suc_ex)
    then show "?l a = ?r a" by cases (auto simp: buffer_with_def poke_def string_in_def)
  qed
  moreover have "Suc n < 2 ^ 31" using sint_lt [of sz] n by simp
  ultimately show ?thesis using assms(1,3,4) fold_str_out [of str "Suc n" xs m]
    by (cases "length xs < Suc n")
       (simp_all add: snprintk_def vsnprintk_def vprintk_internal_printed n str_addr_def nat_int_add del: of_nat_Suc)
qed

lemma dec_string_digits: "c \<in> set (dec_string v) \<Longrightarrow> 48 \<le> c \<and> c < 58"
proof (induction v rule: dec_string.induct)
  case (1 n)
  then show ?case using dec_string.simps [of n] by (auto split: if_split_asm)
qed

lemma digit_char:
  assumes "48 \<le> c" "c < 58"
  shows "digit_of (sint (word_of_int c :: u8)) = Some (c - 48)"
  using digit_of_decimal [of "nat (c - 48)"] assms by (simp add: of_nat_nat)

lemma digits_value_append: "digits_value b a (xs @ ys) = digits_value b (digits_value b a xs) ys"
  by (simp add: digits_value_def)

lemma digits_value_dec_string: "digits_value 10 0 (map word_of_int (dec_string v)) = int v"
proof (induction v rule: dec_string.induct)
  case (1 n)
  show ?case
  proof (cases "n < 10")
    case True
    then show ?thesis using digit_char [of "int n + 48"] by (simp add: dec_string.simps [of n])
  next
    case False
    have "int (n div 10) * 10 + int (n mod 10) = int n" by presburger
    with False show ?thesis using digit_char [of "int (n mod 10) + 48"] 1 by (simp add: dec_string.simps [of n] digits_value_append)
  qed
qed

lemma number_text:
  "is_number 10 [] sg (map word_of_int (dec_string v)) []" if "sg = [] \<or> sg = [45]"
proof -
  have "is_digit 10 (word_of_int c)" if "c \<in> set (dec_string v)" for c
    using dec_string_digits [OF that] by (simp add: is_digit_def digit_char)
  moreover have "dec_string v \<noteq> []" by (simp add: dec_string.simps [of v])
  ultimately show ?thesis using that by (auto simp: is_number_def)
qed

lemma printed_d:
  "printed [37, 100] [VWord d] = Some (if sint d < 0 then 45 # dec_string (unat (- d)) else dec_string (unat d))"
  by (simp add: printed_def vprintk_internal_def format_char_def va_long_def printk_dec_ulong_spec dec_text_def pad_before_def
      Let_def Suc_le_eq to_s32_id dec_string.simps [of "unat _"])

lemma string_in_cstring:
  assumes "\<forall>x \<in> set xs. (word_of_int x :: u8) \<noteq> 0"
  shows "cstring (string_in str (length xs) xs m) str (map word_of_int xs)"
  using assms unfolding cstring_region by (auto simp: string_in_def region_def intro!: nth_equalityI)

lemma unat_neg:
  fixes d :: u32
  assumes "sint d < 0"
  shows "int (unat (- d)) = - sint d"
proof -
  have "- (2 ^ 31) \<le> sint d" using sint_greater_eq [of d] by simp
  moreover have "uint (word_of_int (- sint d) :: u32) = - sint d mod 2 ^ 32" by (simp only: uint_word_of_int) simp
  then have "uint (- d) = - sint d mod 2 ^ 32" by simp
  ultimately show ?thesis using assms by simp
qed

section \<open>Properties\<close>

text \<open>
  C13. \<^const>\<open>snprintk\<close> gives a buffer what \<^const>\<open>printk\<close> would write on the console, as far as it fits, for every
  text shorter than \<open>2 ^ 31\<close> characters, the range of the count: it returns the length of the whole text, the buffer
  holds the text cut to one character less than its size with a null behind it, and no byte outside the buffer is written.
\<close>

theorem snprintk_fits:
  assumes "str \<noteq> 0" "0 < sint sz" "printk fmt ap [] = Some (n, xs)" "length xs < 2 ^ 31"
  shows "\<exists>m'. snprintk str sz fmt ap m = Some (n, m') \<and> n = int (length xs) \<and>
    (let l = min (length xs) (nat (sint sz) - 1) in
       region m' str l = map word_of_int (take l xs) \<and> m' (str + l) = 0 \<and>
       (\<forall>a. a < str \<or> str + l < a \<longrightarrow> m' a = m a) \<and> l < nat (sint sz))"
proof -
  have "to_s32 (int (length xs)) = int (length xs)" using assms(4) by (intro to_s32_id) simp_all
  then have "printed fmt ap = Some xs" "n = int (length xs)" using assms(3) by (auto simp: printk_printed)
  with assms(1,2,4) show ?thesis
    by (auto simp: snprintk_printed string_in_def Let_def region_def intro!: nth_equalityI)
qed

theorem snprintk_fits_witness:
  "\<exists>m'. snprintk 100 3 [37, 100] [VWord 1234] (\<lambda>_. 7) = Some (4, m') \<and> region m' 100 2 = [49, 50] \<and> m' 102 = 0 \<and> m' 103 = 7"
proof -
  have "printk [37, 100] [VWord 1234] [] = Some (4, [49, 50, 51, 52])" by (simp add: printk_printed printed_d dec_string.simps to_s32_id)
  moreover have "length [49, 50, 51, 52 :: int] < 2 ^ 31" by simp
  ultimately show ?thesis
    using snprintk_fits [of 100 3 "[37, 100]" "[VWord 1234]" 4 "[49, 50, 51, 52]" "\<lambda>_. 7"] by (auto simp: Let_def simp flip: numeral_2_eq_2)
qed

text \<open>
  C14. Every number that \<^const>\<open>snprintk\<close> prints with the format %d into a buffer of twelve bytes or more is read back
  by \<^const>\<open>atoi\<close>, the most negative one included.
\<close>

theorem snprintk_atoi:
  assumes "str \<noteq> 0" "12 \<le> sint sz"
  shows "\<exists>n m'. snprintk str sz [37, 100] [VWord d] m = Some (n, m') \<and> n \<le> 11 \<and> atoi str m' = Some (sint d)"
proof -
  define v sg where "v = (if sint d < 0 then unat (- d) else unat d)" and "sg = (if sint d < 0 then [45] else [] :: int list)"
  have p: "printed [37, 100] [VWord d] = Some (sg @ dec_string v)" by (simp add: printed_d v_def sg_def)
  have val: "(if sint d < 0 then - int v else int v) = sint d"
    using unat_neg [of d] sint_less [of d] uint_sint [of d] by (simp add: v_def take_bit_int_eq_self)
  have s32: "to_s32 (sint d) = sint d" by (simp add: to_s32_def)
  have "unat x < 10 ^ Suc 9" for x :: u32 using unat_bound [of x] by simp
  then have "length (dec_string v) \<le> 10" using length_dec_string [of v 9] by (simp add: v_def)
  then have len: "length (sg @ dec_string v) \<le> 11" by (simp add: sg_def)
  let ?m = "string_in str (length (sg @ dec_string v)) (sg @ dec_string v) m"
  have "snprintk str sz [37, 100] [VWord d] m = Some (int (length (sg @ dec_string v)), ?m)"
    using snprintk_printed [OF assms(1) _ p _, of sz m] assms(2) len by (simp add: min_absorb1 nat_le_iff)
  moreover have "cstring ?m str (map word_of_int (sg @ dec_string v))"
    by (rule string_in_cstring) (use dec_string_digits digit_char in \<open>force simp: sg_def dest: digit_ofD\<close>)
  then have "atoi str ?m = Some (sint d)"
    using atoi_value [of ?m str "[]" "map word_of_int sg" "map word_of_int (dec_string v)" "[]"]
      number_text [of "map word_of_int sg" v] val s32 by (auto simp: sg_def digits_value_dec_string split: if_split_asm)
  moreover have "int (length (sg @ dec_string v)) \<le> 11" using len by linarith
  ultimately show ?thesis by blast
qed

theorem snprintk_atoi_witness:
  "\<exists>n m'. snprintk 100 12 [37, 100] [VWord 0x80000000] (\<lambda>_. 0) = Some (n, m') \<and> n \<le> 11 \<and> atoi 100 m' = Some (- (2 ^ 31))"
  using snprintk_atoi [of 100 12 "0x80000000" "\<lambda>_. 0"] by simp

end
