(* ===== verification/Spec2Isabelle.thy ===== *)
theory Spec2Isabelle
  imports Timer System Libc_String Stack Mem_Slab Msgq Queue Mem_Pool Ring_Buffer Heap Libc_Stdlib Crc16 Printk
begin

text \<open>
  A verification library for the kernel of the Zephyr real-time operating system, with the
  parts of its C library and utilities that the kernel's clients use. Paths are relative to
  \<^verbatim>\<open>src/\<close>.

  \<^bold>\<open>The program.\<close> The scheduler (\<^verbatim>\<open>kernel/sched.c\<close>, \<^verbatim>\<open>kernel/include/ksched.h\<close>) keeps the
  threads that can run in one queue per priority, with a bitmap of the queues that are not
  empty and a cache of the next thread to run. A thread that waits is on the wait queue of
  a kernel object and, with a timeout, on the timeout queue
  (\<^verbatim>\<open>kernel/include/timeout_q.h\<close>), whose entries hold differences of ticks. The clock
  (\<^verbatim>\<open>kernel/sys_clock.c\<close>) expires timeouts, which makes threads ready or calls the handlers
  of timers. The kernel objects (semaphores, mutexes, message queues, stacks, queues, memory
  slabs and pools, timers) share one way of blocking the current thread and of serving the
  first waiter. All queues are intrusive lists (\<^verbatim>\<open>include/misc/dlist.h\<close>, \<^verbatim>\<open>slist.h\<close>).

  \<^bold>\<open>Configuration.\<close> The defaults of the Kconfig files on x86 with 32-bit words: 16 cooperative
  and 15 preemptible priorities and the idle priority, a tick of 10 ms, time slicing, a
  clock that is not tickless, no polling, no user mode, no assertions. The conditions
  of the assertions are hypotheses of the theorems.

  \<^bold>\<open>State and conventions.\<close> The kernel's variables are one extensible record \<open>kernel\<close>; every
  operation takes the state last and returns it. Threads, wait queues and timeouts are named
  by numbers. A kernel object is a record that is passed in and out. A call that blocks
  returns \<open>None\<close> as its value: it is modelled up to the context switch, and a function with
  the suffix \<open>_resume\<close> is what the thread does when it runs again. Buffers and strings are in
  a byte memory \<open>mem\<close>; addresses are natural numbers, sizes and counters are words of
  their width where they can wrap, and an \<^verbatim>\<open>int\<close> that can wrap goes through \<open>to_s32\<close>. A null dereference that the code can reach is a value of
  its own (\<open>NullDeref\<close>, or \<open>None\<close> in the timers); \<open>None\<close> in the memory pools is an access
  outside of the bits of a level.

  \<^bold>\<open>The theories.\<close>
  \<^item> \<open>Prelude\<close>: integer types, error numbers, collections of facts, lemmas on lists and words.
  \<^item> \<open>Sys_Dlist\<close>, \<open>Sys_Slist\<close>: every operation of \<^verbatim>\<open>dlist.h\<close> and \<^verbatim>\<open>slist.h\<close> on a heap of
    pointers, and that it refines the operation on lists; the locale \<open>list_store\<close> is the
    interface through which the queues of the kernel state rest on the pointers.
  \<^item> \<open>Kernel_State\<close>: the records of \<^verbatim>\<open>kernel_structs.h\<close> and the predicates of \<^verbatim>\<open>ksched.h\<close>.
  \<^item> \<open>Ready_Queue\<close>: adding, removing and finding threads with the bitmap and the cache; it
    refines a list sorted by priority, first come first served (locale \<open>run_queue\<close>).
  \<^item> \<open>Wait_Queue\<close>: the invariant \<open>kinv\<close> of the kernel state (ready queue, wait queues,
    timeouts and thread states agree) and the operations on pending threads.
  \<^item> \<open>Timeout_Queue\<close>: adding and aborting timeouts refines a list of absolute expiry times.
  \<^item> \<open>Scheduler\<close>: pending, locking, yielding, sleeping, priorities, the context switch;
    \<open>sched_ok\<close> says that the invariant holds and the running thread is one that may run.
  \<^item> \<open>Sys_Clock\<close>: announcing ticks expires exactly the timeouts that are due, in order, and
    rotates time slices; the handlers are a parameter with the contract \<open>timeout_callback\<close>,
    which \<open>Timer\<close> and \<open>System\<close> discharge for the handlers of timers and of threads.
  \<^item> \<open>Waiters\<close>: blocking and serving, shared by all objects; the locale \<open>waited_object\<close>.
  \<^item> \<open>Sem\<close>, \<open>Mutex\<close>, \<open>Stack\<close>, \<open>Mem_Slab\<close>, \<open>Msgq\<close>, \<open>Queue\<close>, \<open>Timer\<close>: the kernel objects of
    \<^verbatim>\<open>kernel/sem.c\<close>, \<^verbatim>\<open>mutex.c\<close>, \<^verbatim>\<open>stack.c\<close>, \<^verbatim>\<open>mem_slab.c\<close>, \<^verbatim>\<open>msg_q.c\<close>, \<^verbatim>\<open>queue.c\<close> and
    \<^verbatim>\<open>timer.c\<close>, each with an abstract object (a count, a list of messages, a set of blocks),
    an invariant that every call keeps, and what every branch of a call does to the
    abstract object and to the waiting threads. Priority inheritance is part of \<open>Mutex\<close>;
    \<open>Timer\<close> shows what a tick does to every timer and its waiters.
  \<^item> \<open>Mem_Pool\<close>, \<open>Heap\<close>: the buddy allocator of \<^verbatim>\<open>kernel/mempool.c\<close> with its bit fields and
    free lists, from the static definition on. The free and the allocated blocks always
    tile the buffer, allocated blocks do not overlap, four free partners are merged; over whole
    runs of calls (\<open>pool_run\<close>) memory does not stay fragmented. The heap functions store and find
    their hidden descriptor. The initialisation and the size computations are shown to fail
    where they do, for more than 32 blocks and for sizes that wrap.
  \<^item> \<open>Thread\<close>: creation, start, abortion, suspension and static threads
    (\<^verbatim>\<open>kernel/thread.c\<close>, \<^verbatim>\<open>thread_abort.c\<close>) and the start of the kernel (\<^verbatim>\<open>kernel/init.c\<close>).
  \<^item> \<open>System\<close>: the step relation of the calls of the scheduler, threads, semaphores and mutexes
    and of clock interrupts, with interrupt entry and exit; the invariants of the scheduler, the
    semaphores and the mutexes hold in every state reachable from boot, when the calls on a
    mutex follow a null pointer, and that they do after a timeout.
  \<^item> \<open>Memory\<close>, \<open>Libc_String\<close>, \<open>Libc_Stdlib\<close>: byte memory, the functions of \<^verbatim>\<open>string.c\<close>,
    \<^verbatim>\<open>strstr.c\<close>, \<^verbatim>\<open>strncasecmp.c\<close>, \<^verbatim>\<open>ctype.h\<close>, \<^verbatim>\<open>atoi.c\<close>, \<^verbatim>\<open>strtol.c\<close> and \<^verbatim>\<open>strtoul.c\<close>
    against their specification on lists of bytes and on integers, overflow included.
  \<^item> \<open>Ring_Buffer\<close>, \<open>Crc16\<close>, \<open>Printk\<close>: \<^verbatim>\<open>lib/ring_buffer/ring_buffer.c\<close>,
    \<^verbatim>\<open>lib/crc/crc16_sw.c\<close> and \<^verbatim>\<open>misc/printk.c\<close>. The ring buffer refines a list of items; a
    message followed by its check value checks to zero; text is printed the same for every
    output function (locale \<open>out_map\<close>), fits its buffer, and numbers are read back.

  \<^bold>\<open>Loops.\<close> No fuel is used. Loops over lists and counts are recursive functions with a
  termination proof. Loops that end only on suitable data (over strings, or along pointers)
  are \<^verbatim>\<open>partial_function (option)\<close>, and the theorems state that they return.

  \<^bold>\<open>Code outside the sources.\<close> The expiry and stop functions of timers and the abort functions
  of threads belong to the application: they are parameters of the definitions. The theorems are
  about timers and threads that have none, whatever the parameter is, and assume nothing of it.

  \<^bold>\<open>Not modelled.\<close> Mailboxes, pipes, alerts and work queues (\<^verbatim>\<open>kernel/mailbox.c\<close>, \<^verbatim>\<open>pipes.c\<close>,
  \<^verbatim>\<open>alert.c\<close>, \<^verbatim>\<open>work_q.c\<close>): mailboxes and asynchronous pipe messages need dummy threads, and
  work queues need the application's handlers to run inside a kernel thread. Polling and user
  mode, which are not configured. The contents of thread stacks, saving of registers, device
  initialisation and interrupt controllers, which are the architecture's or a driver's.
  Interrupts between two critical sections of one call, except where a theorem says so
  (a stale tail in \<open>Queue\<close>, an expired timeout in \<open>System\<close>). Tickless operation, object
  tracing and statistics, which are not configured. Drivers, networking, Bluetooth and file
  systems, which are above or beside the kernel.
\<close>

end
